(* ===== verification/Prelude.thy ===== *)
theory Prelude
  imports Main "HOL-Library.Word" "HOL-Library.Monad_Syntax"
begin

text \<open>
  Shared vocabulary of the development: the C integer types of the sources as words, the
  error numbers of \<^verbatim>\<open>xen/include/xen/errno.h\<close>, the list primitives of
  \<^verbatim>\<open>xen/include/xen/list.h\<close> on indices, and the generic lemmas on lists, options and
  words that several components use. Pointers into a linked list are modelled as positions
  (\<open>nat option\<close>, \<open>None\<close> for \<^verbatim>\<open>NULL\<close>); a computation that may follow a
  \<^verbatim>\<open>NULL\<close> pointer, hit \<^verbatim>\<open>BUG()\<close> or index past an array returns an \<open>option\<close>
  whose \<open>None\<close> is that crash.
\<close>

unbundle bit_operations_syntax

section \<open>C types and error numbers\<close>

type_synonym u8 = "8 word"
type_synonym u16 = "16 word"
type_synonym u32 = "32 word"
type_synonym u64 = "64 word"

abbreviation (input) ULONG_MAX :: u64 where "ULONG_MAX \<equiv> - 1"

abbreviation (input) EPERM :: int where "EPERM \<equiv> 1"
abbreviation (input) ENOENT :: int where "ENOENT \<equiv> 2"
abbreviation (input) ESRCH :: int where "ESRCH \<equiv> 3"
abbreviation (input) ENOMEM :: int where "ENOMEM \<equiv> 12"
abbreviation (input) EFAULT :: int where "EFAULT \<equiv> 14"
abbreviation (input) EEXIST :: int where "EEXIST \<equiv> 17"
abbreviation (input) EINVAL :: int where "EINVAL \<equiv> 22"
abbreviation (input) ENOSPC :: int where "ENOSPC \<equiv> 28"
abbreviation (input) ENOSYS :: int where "ENOSYS \<equiv> 38"

section \<open>Collections of rewrite rules\<close>

named_theorems list_pos_simps \<open>rules for lists addressed by position\<close>
named_theorems word_int_simps \<open>rules that move word comparisons to integers\<close>

section \<open>Lists addressed by position\<close>

definition list_del_at :: "nat \<Rightarrow> 'a list \<Rightarrow> 'a list" where
  "list_del_at i xs = take i xs @ drop (Suc i) xs"

definition list_add_at :: "nat \<Rightarrow> 'a \<Rightarrow> 'a list \<Rightarrow> 'a list" where
  "list_add_at i x xs = take i xs @ x # drop i xs"

lemma length_list_del_at [simp]: "i < length xs \<Longrightarrow> length (list_del_at i xs) = length xs - 1"
  by (simp add: list_del_at_def)

lemma list_del_at_append [list_pos_simps]:
  "n = length xs \<Longrightarrow> list_del_at n (xs @ y # ys) = xs @ ys"
  by (simp add: list_del_at_def)

lemma length_list_add_at [simp]: "length (list_add_at i x xs) = Suc (length xs)"
  by (simp add: list_add_at_def)

lemma list_add_at_append [list_pos_simps]:
  "n = length xs \<Longrightarrow> list_add_at n y (xs @ ys) = xs @ y # ys"
  by (simp add: list_add_at_def)

lemma nth_mid [list_pos_simps]: "n = length xs \<Longrightarrow> (xs @ y # ys) ! n = y"
  by simp

lemma list_update_mid [list_pos_simps]:
  "n = length xs \<Longrightarrow> (xs @ y # ys)[n := z] = xs @ z # ys"
  by simp

lemma split_at_takeWhile:
  "xs = takeWhile P xs @ dropWhile P xs"
  by simp

section \<open>Arrays\<close>

text \<open>Copying the first \<open>n\<close> slots of an array over those of another.\<close>

definition memcpy :: "(nat \<Rightarrow> 'a) \<Rightarrow> (nat \<Rightarrow> 'a) \<Rightarrow> nat \<Rightarrow> nat \<Rightarrow> 'a" where
  "memcpy dst src n = (\<lambda>i. if i < n then src i else dst i)"

lemma memcpy_in [simp]: "i < n \<Longrightarrow> memcpy dst src n i = src i"
  by (simp add: memcpy_def)

lemma memcpy_out [simp]: "n \<le> i \<Longrightarrow> memcpy dst src n i = dst i"
  by (simp add: memcpy_def)

section \<open>Words and integers\<close>

lemma word_le_uint [word_int_simps]: "(a :: 'a::len word) \<le> b \<longleftrightarrow> uint a \<le> uint b"
  by (rule word_le_def)

lemma word_less_uint [word_int_simps]: "(a :: 'a::len word) < b \<longleftrightarrow> uint a < uint b"
  by (rule word_less_def)

lemma word_eq_uint [word_int_simps]: "(a :: 'a::len word) = b \<longleftrightarrow> uint a = uint b"
  by (rule word_uint_eq_iff)

lemma uint_succ_le:
  "(a :: 'a::len word) < b \<Longrightarrow> uint (a + 1) = uint a + 1"
  by uint_arith

lemma uint_pred_le:
  "(a :: 'a::len word) < b \<Longrightarrow> uint (b - 1) = uint b - 1"
  by uint_arith

lemma unat_ucast_up:
  assumes "LENGTH('a::len) \<le> LENGTH('b::len)"
  shows "unat (ucast (x :: 'a word) :: 'b word) = unat x"
proof -
  have "unat x < 2 ^ LENGTH('a)" by simp
  also have "\<dots> \<le> 2 ^ LENGTH('b)" using assms by (rule power_increasing) simp
  finally show ?thesis by (simp add: unsigned_ucast_eq take_bit_nat_eq_self)
qed

lemma unat_of_nat64: "n < 18446744073709551616 \<Longrightarrow> unat (of_nat n :: u64) = n"
  by (simp add: unat_of_nat)

end
