(* ===== verification/Rangeset.thy ===== *)
theory Rangeset
  imports Prelude
begin

text \<open>
  The sets of numeric ranges of \<^verbatim>\<open>xen/common/rangeset.c\<close>: every domain's I/O memory
  and interrupt capabilities are such sets. A \<^verbatim>\<open>struct rangeset\<close> is the record
  \<open>rangeset\<close>; its ordered list of \<^verbatim>\<open>struct range\<close> is a HOL list, and a
  \<^verbatim>\<open>struct range *\<close> is a position in that list. The limits are \<^verbatim>\<open>unsigned long\<close>,
  so they are 64-bit words and \<open>e + 1\<close>, \<open>s - 1\<close> wrap as in C. Whether
  \<^verbatim>\<open>xmalloc\<close> succeeds is an argument of the operations that allocate. The locks are
  not modelled: every operation runs under the set's lock from its first to its last access.
\<close>

section \<open>Data\<close>

record rng =
  rng_s :: u64
  rng_e :: u64

record rangeset =
  rs_domain :: "nat option"
  range_list :: "rng list"
  nr_ranges :: u64
  rs_name :: string
  rs_flags :: u32

section \<open>Private range functions\<close>

fun find_range_loop :: "u64 \<Rightarrow> nat option \<Rightarrow> nat \<Rightarrow> rng list \<Rightarrow> nat option" where
  "find_range_loop s x i [] = x"
| "find_range_loop s x i (y # ys) =
     (if rng_s y > s then x else find_range_loop s (Some i) (Suc i) ys)"

definition find_range :: "rangeset \<Rightarrow> u64 \<Rightarrow> nat option" where
  "find_range r s = find_range_loop s None 0 (range_list r)"

definition first_range :: "rangeset \<Rightarrow> nat option" where
  "first_range r = (if range_list r = [] then None else Some 0)"

definition next_range :: "rangeset \<Rightarrow> nat \<Rightarrow> nat option" where
  "next_range r x = (if Suc x < length (range_list r) then Some (Suc x) else None)"

definition insert_range :: "rangeset \<Rightarrow> nat option \<Rightarrow> rng \<Rightarrow> rangeset \<times> nat" where
  "insert_range r x y =
     (let i = (case x of None \<Rightarrow> 0 | Some k \<Rightarrow> Suc k)
      in (r\<lparr>range_list := list_add_at i y (range_list r)\<rparr>, i))"

definition destroy_range :: "rangeset \<Rightarrow> nat \<Rightarrow> rangeset" where
  "destroy_range r x =
     r\<lparr>nr_ranges := nr_ranges r + 1, range_list := list_del_at x (range_list r)\<rparr>"

definition alloc_range :: "bool \<Rightarrow> rangeset \<Rightarrow> rangeset option" where
  "alloc_range mem_ok r =
     (if nr_ranges r = 0 then None
      else if mem_ok then Some (r\<lparr>nr_ranges := nr_ranges r - 1\<rparr>) else None)"

definition set_rng_s :: "rangeset \<Rightarrow> nat \<Rightarrow> u64 \<Rightarrow> rangeset" where
  "set_rng_s r i v = r\<lparr>range_list := (range_list r)[i := (range_list r ! i)\<lparr>rng_s := v\<rparr>]\<rparr>"

definition set_rng_e :: "rangeset \<Rightarrow> nat \<Rightarrow> u64 \<Rightarrow> rangeset" where
  "set_rng_e r i v = r\<lparr>range_list := (range_list r)[i := (range_list r ! i)\<lparr>rng_e := v\<rparr>]\<rparr>"

section \<open>Adding a range\<close>

text \<open>The branch where \<open>s\<close> and \<open>e\<close> have the same predecessor; \<open>None\<close> is \<^verbatim>\<open>-ENOMEM\<close>.\<close>

definition add_range_same ::
    "bool \<Rightarrow> rangeset \<Rightarrow> nat option \<Rightarrow> u64 \<Rightarrow> u64 \<Rightarrow> (rangeset \<times> nat) option" where
  "add_range_same mem_ok r x s e =
     (if (case x of None \<Rightarrow> True
          | Some i \<Rightarrow> rng_e (range_list r ! i) < s \<and> rng_e (range_list r ! i) + 1 \<noteq> s)
      then map_option (\<lambda>r'. insert_range r' x \<lparr>rng_s = s, rng_e = e\<rparr>) (alloc_range mem_ok r)
      else (case x of None \<Rightarrow> None
            | Some i \<Rightarrow> Some (if rng_e (range_list r ! i) < e then set_rng_e r i e else r, i)))"

function absorb_loop :: "rangeset \<Rightarrow> nat \<Rightarrow> rangeset" where
  "absorb_loop r x =
     (case next_range r x of
        None \<Rightarrow> r
      | Some y \<Rightarrow> (if rng_e (range_list r ! y) > rng_e (range_list r ! x) then r
                   else absorb_loop (destroy_range r y) x))"
  by pat_completeness auto
termination
  by (relation "measure (\<lambda>(r, x). length (range_list r))")
    (auto simp: next_range_def destroy_range_def split: if_splits)

text \<open>
  The branch where the predecessors differ. Here \<open>None\<close> is a dereference of
  \<^verbatim>\<open>NULL\<close>, which the C code does not test for.
\<close>

definition add_range_span ::
    "rangeset \<Rightarrow> nat option \<Rightarrow> nat option \<Rightarrow> u64 \<Rightarrow> u64 \<Rightarrow> (rangeset \<times> nat) option" where
  "add_range_span r x y s e =
     do {
       (r1, x1) \<leftarrow>
         (case x of
            None \<Rightarrow> do { x1 \<leftarrow> first_range r; Some (set_rng_s r x1 s, x1) }
          | Some i \<Rightarrow>
              (if rng_e (range_list r ! i) < s \<and> rng_e (range_list r ! i) + 1 \<noteq> s
               then do { x1 \<leftarrow> next_range r i; Some (set_rng_s r x1 s, x1) }
               else Some (r, i)));
       y1 \<leftarrow> y;
       let ye = rng_e (range_list r1 ! y1);
       let r2 = set_rng_e r1 x1 (if ye > e then ye else e);
       Some (absorb_loop r2 x1, x1)
     }"

definition add_range_tail :: "rangeset \<Rightarrow> nat \<Rightarrow> rangeset" where
  "add_range_tail r x =
     (case next_range r x of
        None \<Rightarrow> r
      | Some y \<Rightarrow>
          (if rng_e (range_list r ! x) + 1 = rng_s (range_list r ! y)
           then destroy_range (set_rng_e r x (rng_e (range_list r ! y))) y
           else r))"

definition rangeset_add_range ::
    "bool \<Rightarrow> rangeset \<Rightarrow> u64 \<Rightarrow> u64 \<Rightarrow> (int \<times> rangeset) option" where
  "rangeset_add_range mem_ok r s e =
     (let x = find_range r s; y = find_range r e
      in if x = y
         then (case add_range_same mem_ok r x s e of
                 None \<Rightarrow> Some (- ENOMEM, r)
               | Some (r', x') \<Rightarrow> Some (0, add_range_tail r' x'))
         else (case add_range_span r x y s e of
                 None \<Rightarrow> None
               | Some (r', x') \<Rightarrow> Some (0, add_range_tail r' x')))"

section \<open>Removing a range\<close>

definition remove_range_same ::
    "bool \<Rightarrow> rangeset \<Rightarrow> nat option \<Rightarrow> u64 \<Rightarrow> u64 \<Rightarrow> int \<times> rangeset" where
  "remove_range_same mem_ok r x s e =
     (case x of
        None \<Rightarrow> (0, r)
      | Some i \<Rightarrow>
          (let xs = rng_s (range_list r ! i); xe = rng_e (range_list r ! i)
           in if xe < s then (0, r)
              else if xs < s \<and> xe > e then
                (case alloc_range mem_ok r of
                   None \<Rightarrow> (- ENOMEM, r)
                 | Some r1 \<Rightarrow>
                     (0, fst (insert_range (set_rng_e r1 i (s - 1)) (Some i)
                                \<lparr>rng_s = e + 1, rng_e = xe\<rparr>)))
              else if xs = s \<and> xe \<le> e then (0, destroy_range r i)
              else if xs = s then (0, set_rng_s r i (e + 1))
              else if xe \<le> e then (0, set_rng_e r i (s - 1))
              else (0, r)))"

text \<open>
  The loop \<^verbatim>\<open>while ( x != y )\<close> deletes the ranges from \<open>x\<close> up to \<open>y\<close>: after each
  deletion the successor has moved to position \<open>x\<close> and \<open>y\<close> one position down.
  \<open>None\<close> is the \<^verbatim>\<open>NULL\<close> dereference that follows when \<open>y\<close> is not after \<open>x\<close>.
\<close>

function remove_loop :: "rangeset \<Rightarrow> nat \<Rightarrow> nat \<Rightarrow> rangeset option" where
  "remove_loop r x y =
     (if x = y then Some r
      else if x < y \<and> x < length (range_list r) then remove_loop (destroy_range r x) x (y - 1)
      else None)"
  by pat_completeness auto
termination
  by (relation "measure (\<lambda>(r, x, y). y - x)") auto

definition remove_range_span ::
    "rangeset \<Rightarrow> nat option \<Rightarrow> nat option \<Rightarrow> u64 \<Rightarrow> u64 \<Rightarrow> rangeset option" where
  "remove_range_span r x y s e =
     do {
       x1 \<leftarrow> (case x of None \<Rightarrow> first_range r | Some i \<Rightarrow> Some i);
       y1 \<leftarrow> y;
       (r1, x2) \<leftarrow>
         (if rng_s (range_list r ! x1) < s
          then do { n \<leftarrow> next_range r x1; Some (set_rng_e r x1 (s - 1), n) }
          else Some (r, x1));
       r2 \<leftarrow> remove_loop r1 x2 y1;
       let r3 = set_rng_s r2 x2 (e + 1);
       Some (if rng_s (range_list r3 ! x2) > rng_e (range_list r3 ! x2)
             then destroy_range r3 x2 else r3)
     }"

definition rangeset_remove_range ::
    "bool \<Rightarrow> rangeset \<Rightarrow> u64 \<Rightarrow> u64 \<Rightarrow> (int \<times> rangeset) option" where
  "rangeset_remove_range mem_ok r s e =
     (let x = find_range r s; y = find_range r e
      in if x = y then Some (remove_range_same mem_ok r x s e)
         else map_option (\<lambda>r'. (0, r')) (remove_range_span r x y s e))"

section \<open>Queries\<close>

definition rangeset_contains_range :: "rangeset \<Rightarrow> u64 \<Rightarrow> u64 \<Rightarrow> bool" where
  "rangeset_contains_range r s e =
     (case find_range r s of None \<Rightarrow> False | Some x \<Rightarrow> rng_e (range_list r ! x) \<ge> e)"

definition rangeset_overlaps_range :: "rangeset \<Rightarrow> u64 \<Rightarrow> u64 \<Rightarrow> bool" where
  "rangeset_overlaps_range r s e =
     (case find_range r e of None \<Rightarrow> False | Some x \<Rightarrow> s \<le> rng_e (range_list r ! x))"

text \<open>The callback threads its own context \<open>'c\<close> and may stop the walk with a nonzero code.\<close>

fun report_loop ::
    "(u64 \<Rightarrow> u64 \<Rightarrow> 'c \<Rightarrow> int \<times> 'c) \<Rightarrow> u64 \<Rightarrow> u64 \<Rightarrow> rng list \<Rightarrow> int \<Rightarrow> 'c \<Rightarrow> int \<times> 'c" where
  "report_loop cb s e [] rc c = (rc, c)"
| "report_loop cb s e (x # xs) rc c =
     (if rng_s x \<le> e \<and> rc = 0
      then (if rng_e x \<ge> s
            then (case cb (max (rng_s x) s) (min (rng_e x) e) c of
                    (rc', c') \<Rightarrow> report_loop cb s e xs rc' c')
            else report_loop cb s e xs rc c)
      else (rc, c))"

definition rangeset_report_ranges ::
    "rangeset \<Rightarrow> u64 \<Rightarrow> u64 \<Rightarrow> (u64 \<Rightarrow> u64 \<Rightarrow> 'c \<Rightarrow> int \<times> 'c) \<Rightarrow> 'c \<Rightarrow> int \<times> 'c" where
  "rangeset_report_ranges r s e cb c =
     (case find_range r s of
        None \<Rightarrow> (0, c)
      | Some i \<Rightarrow> report_loop cb s e (drop i (range_list r)) 0 c)"

definition rangeset_add_singleton :: "bool \<Rightarrow> rangeset \<Rightarrow> u64 \<Rightarrow> (int \<times> rangeset) option" where
  "rangeset_add_singleton mem_ok r s = rangeset_add_range mem_ok r s s"

definition rangeset_remove_singleton :: "bool \<Rightarrow> rangeset \<Rightarrow> u64 \<Rightarrow> (int \<times> rangeset) option" where
  "rangeset_remove_singleton mem_ok r s = rangeset_remove_range mem_ok r s s"

definition rangeset_contains_singleton :: "rangeset \<Rightarrow> u64 \<Rightarrow> bool" where
  "rangeset_contains_singleton r s = rangeset_contains_range r s s"

definition rangeset_is_empty :: "rangeset option \<Rightarrow> bool" where
  "rangeset_is_empty r = (case r of None \<Rightarrow> True | Some r' \<Rightarrow> range_list r' = [])"

section \<open>Creation, limits, destruction\<close>

text \<open>
  The rangesets that exist and each domain's list of them. An address of a rangeset is a
  number; \<open>rangeset_new\<close> takes the answer of \<^verbatim>\<open>xmalloc\<close> as an argument.
\<close>

record rs_heap =
  rsets :: "nat \<rightharpoonup> rangeset"
  dom_rangesets :: "nat \<Rightarrow> nat list"

definition RANGESETF_prettyprint_hex :: u32 where
  "RANGESETF_prettyprint_hex = 1"

definition rangeset_new ::
    "nat option \<Rightarrow> rs_heap \<Rightarrow> nat option \<Rightarrow> string option \<Rightarrow> u32 \<Rightarrow> (nat option \<times> rs_heap) option" where
  "rangeset_new addr h d name flags =
     (case addr of
        None \<Rightarrow> Some (None, h)
      | Some a \<Rightarrow>
          (if flags AND (NOT RANGESETF_prettyprint_hex) \<noteq> 0 then None
           else
             (let r = \<lparr>rs_domain = d, range_list = [], nr_ranges = - 1,
                       rs_name = (case name of Some nm \<Rightarrow> take 31 nm | None \<Rightarrow> ''(no name)''),
                       rs_flags = flags\<rparr>
              in Some (Some a,
                   h\<lparr>rsets := (rsets h)(a \<mapsto> r),
                     dom_rangesets := (case d of None \<Rightarrow> dom_rangesets h
                       | Some i \<Rightarrow> (dom_rangesets h)(i := a # dom_rangesets h i))\<rparr>))))"

function destroy_all_ranges :: "rangeset \<Rightarrow> rangeset" where
  "destroy_all_ranges r =
     (case first_range r of None \<Rightarrow> r | Some x \<Rightarrow> destroy_all_ranges (destroy_range r x))"
  by pat_completeness auto
termination
  by (relation "measure (\<lambda>r. length (range_list r))")
    (auto simp: first_range_def destroy_range_def split: if_splits)

definition rangeset_destroy :: "rs_heap \<Rightarrow> nat option \<Rightarrow> rs_heap option" where
  "rangeset_destroy h ra =
     (case ra of
        None \<Rightarrow> Some h
      | Some a \<Rightarrow>
          (case rsets h a of
             None \<Rightarrow> None
           | Some r \<Rightarrow>
               (let h1 = h\<lparr>dom_rangesets := (case rs_domain r of None \<Rightarrow> dom_rangesets h
                            | Some i \<Rightarrow> (dom_rangesets h)(i := remove1 a (dom_rangesets h i)))\<rparr>;
                    h2 = h1\<lparr>rsets := (rsets h1)(a \<mapsto> destroy_all_ranges r)\<rparr>
                in Some (h2\<lparr>rsets := (rsets h2)(a := None)\<rparr>))))"

definition rangeset_limit :: "rangeset \<Rightarrow> u32 \<Rightarrow> rangeset" where
  "rangeset_limit r limit = r\<lparr>nr_ranges := ucast limit\<rparr>"

definition rangeset_domain_initialise :: "rs_heap \<Rightarrow> nat \<Rightarrow> rs_heap" where
  "rangeset_domain_initialise h d = h\<lparr>dom_rangesets := (dom_rangesets h)(d := [])\<rparr>"

fun domain_destroy_loop :: "nat \<Rightarrow> nat list \<Rightarrow> rs_heap \<Rightarrow> rs_heap option" where
  "domain_destroy_loop d [] h = Some h"
| "domain_destroy_loop d (a # as) h =
     (case rsets h a of
        None \<Rightarrow> None
      | Some r \<Rightarrow>
          (if rs_domain r \<noteq> Some d then None
           else
             (let h1 = h\<lparr>rsets := (rsets h)(a \<mapsto> r\<lparr>rs_domain := None\<rparr>),
                         dom_rangesets := (dom_rangesets h)(d := as)\<rparr>
              in (case rangeset_destroy h1 (Some a) of
                    None \<Rightarrow> None
                  | Some h2 \<Rightarrow> domain_destroy_loop d as h2))))"

definition rangeset_domain_destroy :: "rs_heap \<Rightarrow> nat \<Rightarrow> rs_heap option" where
  "rangeset_domain_destroy h d = domain_destroy_loop d (dom_rangesets h d) h"

definition rangeset_swap :: "rangeset \<Rightarrow> rangeset \<Rightarrow> rangeset \<times> rangeset" where
  "rangeset_swap a b =
     (a\<lparr>range_list := range_list b\<rparr>, b\<lparr>range_list := range_list a\<rparr>)"

section \<open>Per-domain I/O capabilities\<close>

text \<open>
  \<^verbatim>\<open>xen/include/xen/iocap.h\<close>: a domain's I/O memory and interrupt permissions are two
  rangesets. \<open>pirq_access_permitted\<close> takes the domain's map from physical interrupts to
  machine interrupts as an argument.
\<close>

record iocaps =
  iomem_caps :: rangeset
  irq_caps :: rangeset

definition upd_caps ::
    "(rangeset \<Rightarrow> iocaps) \<Rightarrow> (int \<times> rangeset) option \<Rightarrow> (int \<times> iocaps) option" where
  "upd_caps put res = map_option (\<lambda>(rc, r). (rc, put r)) res"

definition iomem_permit_access :: "bool \<Rightarrow> iocaps \<Rightarrow> u64 \<Rightarrow> u64 \<Rightarrow> (int \<times> iocaps) option" where
  "iomem_permit_access mem_ok d s e =
     upd_caps (\<lambda>r. d\<lparr>iomem_caps := r\<rparr>) (rangeset_add_range mem_ok (iomem_caps d) s e)"

definition iomem_deny_access :: "bool \<Rightarrow> iocaps \<Rightarrow> u64 \<Rightarrow> u64 \<Rightarrow> (int \<times> iocaps) option" where
  "iomem_deny_access mem_ok d s e =
     upd_caps (\<lambda>r. d\<lparr>iomem_caps := r\<rparr>) (rangeset_remove_range mem_ok (iomem_caps d) s e)"

definition iomem_access_permitted :: "iocaps \<Rightarrow> u64 \<Rightarrow> u64 \<Rightarrow> bool" where
  "iomem_access_permitted d s e = rangeset_contains_range (iomem_caps d) s e"

definition irq_permit_access :: "bool \<Rightarrow> iocaps \<Rightarrow> u64 \<Rightarrow> (int \<times> iocaps) option" where
  "irq_permit_access mem_ok d i =
     upd_caps (\<lambda>r. d\<lparr>irq_caps := r\<rparr>) (rangeset_add_singleton mem_ok (irq_caps d) i)"

definition irq_deny_access :: "bool \<Rightarrow> iocaps \<Rightarrow> u64 \<Rightarrow> (int \<times> iocaps) option" where
  "irq_deny_access mem_ok d i =
     upd_caps (\<lambda>r. d\<lparr>irq_caps := r\<rparr>) (rangeset_remove_singleton mem_ok (irq_caps d) i)"

definition irqs_permit_access :: "bool \<Rightarrow> iocaps \<Rightarrow> u64 \<Rightarrow> u64 \<Rightarrow> (int \<times> iocaps) option" where
  "irqs_permit_access mem_ok d s e =
     upd_caps (\<lambda>r. d\<lparr>irq_caps := r\<rparr>) (rangeset_add_range mem_ok (irq_caps d) s e)"

definition irqs_deny_access :: "bool \<Rightarrow> iocaps \<Rightarrow> u64 \<Rightarrow> u64 \<Rightarrow> (int \<times> iocaps) option" where
  "irqs_deny_access mem_ok d s e =
     upd_caps (\<lambda>r. d\<lparr>irq_caps := r\<rparr>) (rangeset_remove_range mem_ok (irq_caps d) s e)"

definition irq_access_permitted :: "iocaps \<Rightarrow> u64 \<Rightarrow> bool" where
  "irq_access_permitted d i = rangeset_contains_singleton (irq_caps d) i"

definition pirq_access_permitted :: "(u64 \<Rightarrow> int) \<Rightarrow> iocaps \<Rightarrow> u64 \<Rightarrow> int" where
  "pirq_access_permitted domain_pirq_to_irq d i =
     (let irq = domain_pirq_to_irq i
      in if irq > 0 \<and> irq_access_permitted d (word_of_int irq) then irq else 0)"

section \<open>Well-formed sets and the numbers they hold\<close>

definition rng_gap :: "rng \<Rightarrow> rng \<Rightarrow> bool" where
  "rng_gap a b \<longleftrightarrow> uint (rng_e a) + 1 < uint (rng_s b)"

definition ranges_wf :: "rng list \<Rightarrow> bool" where
  "ranges_wf l \<longleftrightarrow> sorted_wrt rng_gap l \<and> (\<forall>x \<in> set l. rng_s x \<le> rng_e x)"

definition rs_wf :: "rangeset \<Rightarrow> bool" where
  "rs_wf r \<longleftrightarrow> ranges_wf (range_list r)"

definition ranges_set :: "rng list \<Rightarrow> u64 set" where
  "ranges_set l = (\<Union>x \<in> set l. {rng_s x .. rng_e x})"

definition rs_set :: "rangeset \<Rightarrow> u64 set" where
  "rs_set r = ranges_set (range_list r)"

lemma ranges_set_simps [simp]:
  "ranges_set [] = {}"
  "ranges_set (x # l) = {rng_s x .. rng_e x} \<union> ranges_set l"
  "ranges_set (l @ l') = ranges_set l \<union> ranges_set l'"
  by (auto simp: ranges_set_def)

lemma ranges_wf_Nil [simp]: "ranges_wf []"
  by (simp add: ranges_wf_def)

lemma ranges_wf_Cons:
  "ranges_wf (x # l) \<longleftrightarrow> rng_s x \<le> rng_e x \<and> (\<forall>y \<in> set l. rng_gap x y) \<and> ranges_wf l"
  by (auto simp: ranges_wf_def)

lemma ranges_wf_append:
  "ranges_wf (l @ l') \<longleftrightarrow>
     ranges_wf l \<and> ranges_wf l' \<and> (\<forall>x \<in> set l. \<forall>y \<in> set l'. rng_gap x y)"
  by (auto simp: ranges_wf_def sorted_wrt_append)

lemmas ranges_wf_simps = ranges_wf_Cons ranges_wf_append

section \<open>The search\<close>

definition upto_start :: "u64 \<Rightarrow> rng list \<Rightarrow> rng list" where
  "upto_start s l = takeWhile (\<lambda>y. rng_s y \<le> s) l"

definition after_start :: "u64 \<Rightarrow> rng list \<Rightarrow> rng list" where
  "after_start s l = dropWhile (\<lambda>y. rng_s y \<le> s) l"

lemma start_split: "l = upto_start s l @ after_start s l"
  by (simp add: upto_start_def after_start_def)

lemma find_range_loop_eq:
  "find_range_loop s x i l =
     (if upto_start s l = [] then x else Some (i + length (upto_start s l) - 1))"
  by (induction l arbitrary: x i) (auto simp: upto_start_def not_le)

lemma find_range_eq:
  "find_range r s =
     (if upto_start s (range_list r) = [] then None
      else Some (length (upto_start s (range_list r)) - 1))"
  by (simp add: find_range_def find_range_loop_eq)

lemma upto_start_le: "x \<in> set (upto_start s l) \<Longrightarrow> rng_s x \<le> s"
  by (auto simp: upto_start_def dest: set_takeWhileD)

lemma after_start_gt: "ranges_wf l \<Longrightarrow> x \<in> set (after_start s l) \<Longrightarrow> s < rng_s x"
proof (induction l)
  case (Cons a l)
  then show ?case
    by (auto simp: after_start_def ranges_wf_Cons rng_gap_def word_int_simps split: if_splits)
qed (simp add: after_start_def)

text \<open>
  The three segments the two searches of an operation on \<open>{s..e}\<close> cut the list into:
  ranges that start at or below \<open>s\<close>, those that start in \<open>{s<..e}\<close>, and the rest.
\<close>

lemma segments:
  assumes "ranges_wf l" "s \<le> e"
  obtains A B C where "l = A @ B @ C" "upto_start s l = A" "upto_start e l = A @ B"
    "\<forall>x \<in> set A. rng_s x \<le> s" "\<forall>x \<in> set B. s < rng_s x \<and> rng_s x \<le> e"
    "\<forall>x \<in> set C. e < rng_s x"
proof
  let ?A = "upto_start s l" and ?R = "after_start s l"
  let ?B = "upto_start e ?R" and ?C = "after_start e ?R"
  show l: "l = ?A @ ?B @ ?C" by (metis start_split)
  show A: "\<forall>x \<in> set ?A. rng_s x \<le> s" by (auto dest: upto_start_le)
  show "upto_start s l = ?A" ..
  have "upto_start e (?A @ ?R) = ?A @ ?B"
    using A assms(2) unfolding upto_start_def by (subst takeWhile_append2) fastforce+
  then show "upto_start e l = ?A @ ?B" by (metis start_split)
  have wfR: "ranges_wf ?R" using assms(1) start_split [of l s] by (metis ranges_wf_append)
  have "set ?B \<subseteq> set ?R" by (metis start_split set_append Un_upper1)
  then show "\<forall>x \<in> set ?B. s < rng_s x \<and> rng_s x \<le> e"
    using after_start_gt [OF assms(1)] upto_start_le by blast
  show "\<forall>x \<in> set ?C. e < rng_s x" using after_start_gt [OF wfR] by blast
qed

section \<open>Deleting the ranges an extended one covers\<close>

declare absorb_loop.simps [simp del] remove_loop.simps [simp del]

lemma absorb_loop_list:
  assumes "range_list r = P @ x # Q" "n = length P"
  shows "range_list (absorb_loop r n) = P @ x # dropWhile (\<lambda>y. rng_e y \<le> rng_e x) Q"
  using assms
proof (induction Q arbitrary: r)
  case Nil
  then show ?case by (simp add: absorb_loop.simps next_range_def)
next
  case (Cons y Q)
  have y: "range_list r ! Suc n = y" using Cons.prems by (simp add: nth_append)
  have x: "range_list r ! n = x" using Cons.prems by simp
  show ?case
  proof (cases "rng_e y \<le> rng_e x")
    case True
    have "range_list (destroy_range r (Suc n)) = P @ x # Q"
      using Cons.prems list_del_at_append [of "Suc n" "P @ [x]" y Q]
      by (simp add: destroy_range_def)
    then have "range_list (absorb_loop (destroy_range r (Suc n)) n)
        = P @ x # dropWhile (\<lambda>y. rng_e y \<le> rng_e x) Q"
      using Cons.IH Cons.prems(2) by blast
    with True x y Cons.prems show ?thesis
      by (subst absorb_loop.simps) (simp add: next_range_def)
  next
    case False
    with x y Cons.prems show ?thesis
      by (subst absorb_loop.simps) (simp add: next_range_def not_le)
  qed
qed

lemma remove_loop_list:
  assumes "range_list r = P @ Q @ R" "x = length P" "y = length P + length Q"
  shows "\<exists>r'. remove_loop r x y = Some r' \<and> range_list r' = P @ R"
  using assms
proof (induction Q arbitrary: r y)
  case Nil
  then show ?case by (simp add: remove_loop.simps)
next
  case (Cons q Q)
  have "range_list (destroy_range r x) = P @ Q @ R"
    using Cons.prems by (simp add: destroy_range_def list_pos_simps)
  then have "\<exists>r'. remove_loop (destroy_range r x) x (y - 1) = Some r' \<and> range_list r' = P @ R"
    using Cons.IH Cons.prems by simp
  with Cons.prems show ?case by (subst remove_loop.simps) simp
qed

lemma dropWhile_covered:
  assumes "\<forall>b \<in> set B. rng_e b \<le> en" "\<forall>c \<in> set C. en < rng_e c"
  shows "dropWhile (\<lambda>y. rng_e y \<le> en) (B @ C) = C"
  using assms by (cases C) (auto simp: dropWhile_append2)

section \<open>Adding a range adds exactly its numbers\<close>

definition merge_next :: "rng \<Rightarrow> rng list \<Rightarrow> rng list" where
  "merge_next x C =
     (case C of
        [] \<Rightarrow> [x]
      | y # C' \<Rightarrow> (if rng_e x + 1 = rng_s y then x\<lparr>rng_e := rng_e y\<rparr> # C' else x # C))"

lemma add_range_tail_list:
  assumes "range_list r = P @ x # C" "n = length P"
  shows "range_list (add_range_tail r n) = P @ merge_next x C"
proof (cases C)
  case Nil
  with assms show ?thesis by (simp add: add_range_tail_def next_range_def merge_next_def)
next
  case (Cons y C')
  then have n: "next_range r n = Some (Suc n)" using assms by (simp add: next_range_def)
  have y: "range_list r ! Suc n = y" using Cons assms by (simp add: nth_append)
  have "list_del_at (Suc n) (P @ x\<lparr>rng_e := rng_e y\<rparr> # y # C') = P @ x\<lparr>rng_e := rng_e y\<rparr> # C'"
    using list_del_at_append [of "Suc n" "P @ [x\<lparr>rng_e := rng_e y\<rparr>]" y C'] assms by simp
  with Cons assms n y show ?thesis
    by (simp add: add_range_tail_def merge_next_def set_rng_e_def destroy_range_def)
qed

lemma merge_next_wf:
  assumes "ranges_wf P" "rng_s x \<le> rng_e x" "\<forall>p \<in> set P. rng_gap p x"
    and "ranges_wf C" "\<forall>c \<in> set C. rng_e x < rng_s c"
  shows "ranges_wf (P @ merge_next x C)" "ranges_set (merge_next x C) = ranges_set (x # C)"
proof -
  show "ranges_set (merge_next x C) = ranges_set (x # C)"
  proof (cases C)
    case (Cons y C')
    with assms have u: "uint (rng_e x + 1) = uint (rng_e x) + 1" and "rng_s y \<le> rng_e y"
      by (auto intro: uint_succ_le simp: ranges_wf_Cons)
    with Cons assms show ?thesis by (auto simp: merge_next_def word_int_simps)
  qed (simp add: merge_next_def)
  show "ranges_wf (P @ merge_next x C)"
  proof (cases C)
    case Nil
    with assms show ?thesis by (simp add: merge_next_def ranges_wf_simps)
  next
    case (Cons y C')
    with assms have u: "uint (rng_e x + 1) = uint (rng_e x) + 1" and y: "rng_s y \<le> rng_e y"
      by (auto intro: uint_succ_le simp: ranges_wf_Cons)
    with Cons assms have xs: "\<forall>c \<in> set C. rng_e x + 1 \<noteq> rng_s y \<longrightarrow> rng_gap x c"
      by (fastforce simp: rng_gap_def word_int_simps ranges_wf_Cons)
    from Cons assms have py: "\<forall>p \<in> set P. \<forall>c \<in> set C. rng_gap p c"
      by (fastforce simp: rng_gap_def word_int_simps)
    from Cons assms u y xs py show ?thesis
      by (auto simp: merge_next_def ranges_wf_simps rng_gap_def word_int_simps)
  qed
qed

lemma add_finish:
  assumes "range_list r = P @ x # C" "n = length P"
    and "ranges_wf P" "rng_s x \<le> rng_e x" "\<forall>p \<in> set P. rng_gap p x"
    and "ranges_wf C" "\<forall>c \<in> set C. rng_e x < rng_s c"
    and "ranges_set (P @ x # C) = S"
  shows "rs_wf (add_range_tail r n)" "rs_set (add_range_tail r n) = S"
  using assms add_range_tail_list [OF assms(1,2)] merge_next_wf [OF assms(3-7)]
  by (auto simp: rs_wf_def rs_set_def)

lemma alloc_rangeE:
  assumes "alloc_range ok r = Some r'"
  shows "range_list r' = range_list r" "nr_ranges r \<noteq> 0" "ok" "nr_ranges r' = nr_ranges r - 1"
  using assms by (auto simp: alloc_range_def split: if_splits)

lemma insert_range_append:
  assumes "range_list r = A @ C" "x = (if A = [] then None else Some (length A - 1))"
  shows "range_list (fst (insert_range r x y)) = A @ y # C" "snd (insert_range r x y) = length A"
proof -
  have "(case x of None \<Rightarrow> 0 | Some k \<Rightarrow> Suc k) = length A" using assms(2) by (cases A) auto
  then show "range_list (fst (insert_range r x y)) = A @ y # C" "snd (insert_range r x y) = length A"
    using assms(1) by (simp_all add: insert_range_def list_add_at_append)
qed

lemma joins_iff:
  "\<not> (a < s \<and> a + 1 \<noteq> s) \<longleftrightarrow> uint s \<le> uint (a :: u64) + 1"
proof (cases "a < s")
  case True
  then show ?thesis using uint_succ_le [OF True] by (auto simp: word_int_simps)
next
  case False
  then show ?thesis by (simp add: word_int_simps)
qed

lemma add_same_correct:
  assumes "ranges_wf (A @ C)" "range_list r = A @ C" "s \<le> e"
    and "\<forall>x \<in> set A. rng_s x \<le> s" "\<forall>x \<in> set C. e < rng_s x"
    and x: "x = (if A = [] then None else Some (length A - 1))"
    and res: "add_range_same ok r x s e = Some (r', n)"
  shows "rs_wf (add_range_tail r' n)" "rs_set (add_range_tail r' n) = rs_set r \<union> {s..e}"
proof -
  let ?new = "\<lparr>rng_s = s, rng_e = e\<rparr>"
  have wfA: "ranges_wf A" and wfC: "ranges_wf C" using assms(1) by (auto simp: ranges_wf_append)
  consider (fresh) "A = [] \<or> uint (rng_e (last A)) + 1 < uint s"
    | (join) "A \<noteq> []" "uint s \<le> uint (rng_e (last A)) + 1" by linarith
  then have "rs_wf (add_range_tail r' n) \<and> rs_set (add_range_tail r' n) = rs_set r \<union> {s..e}"
  proof cases
    case fresh
    then have "(case x of None \<Rightarrow> True
          | Some i \<Rightarrow> rng_e (range_list r ! i) < s \<and> rng_e (range_list r ! i) + 1 \<noteq> s)"
    proof (cases A rule: rev_cases)
      case (snoc A' a)
      then show ?thesis using fresh joins_iff [of "rng_e a" s] assms(2) x by simp
    qed (simp add: x)
    with res obtain r1 where r1: "alloc_range ok r = Some r1"
      and n: "(r', n) = insert_range r1 x ?new"
      by (auto simp: add_range_same_def)
    then have l: "range_list r' = A @ ?new # C" "n = length A"
      using alloc_rangeE(1) [OF r1] insert_range_append [of r1 A C x ?new] assms(2) x
      by (metis fst_conv snd_conv)+
    have "\<forall>p \<in> set A. rng_gap p ?new"
    proof (cases A rule: rev_cases)
      case (snoc A' a)
      with fresh wfA show ?thesis
        by (auto simp: rng_gap_def ranges_wf_simps word_int_simps)
    qed simp
    then show ?thesis
      using add_finish [OF l, of "rs_set r \<union> {s..e}"] assms wfA wfC by (auto simp: rs_set_def)
  next
    case join
    then obtain A' a where A: "A = A' @ [a]" by (cases A rule: rev_cases) auto
    let ?a = "if rng_e a < e then a\<lparr>rng_e := e\<rparr> else a"
    have j: "\<not> (rng_e a < s \<and> rng_e a + 1 \<noteq> s)" using join A joins_iff by simp
    have l: "range_list r' = A' @ ?a # C" "n = length A'"
      using res A assms(2) x j
      by (auto simp: add_range_same_def set_rng_e_def nth_append split: if_splits)
    have as: "rng_s a \<le> s" "rng_s a \<le> rng_e a" using A assms(4) wfA by (auto simp: ranges_wf_simps)
    have aC: "\<forall>c \<in> set C. rng_e ?a < rng_s c"
      using assms(1,5) A by (auto simp: ranges_wf_simps rng_gap_def word_int_simps)
    have pa: "\<forall>p \<in> set A'. rng_gap p ?a" using wfA A by (auto simp: ranges_wf_simps rng_gap_def)
    have "{rng_s ?a..rng_e ?a} = {rng_s a..rng_e a} \<union> {s..e}"
      using as join A assms(3) by (auto simp: word_int_simps)
    then have S: "ranges_set (A' @ ?a # C) = rs_set r \<union> {s..e}"
      using assms(2) A by (auto simp: rs_set_def)
    have v: "ranges_wf A'" "rng_s ?a \<le> rng_e ?a"
      using wfA A as assms(3) by (auto simp: ranges_wf_simps)
    show ?thesis using add_finish [OF l v pa wfC aC S] by blast
  qed
  then show "rs_wf (add_range_tail r' n)" "rs_set (add_range_tail r' n) = rs_set r \<union> {s..e}"
    by auto
qed

lemma last_end_le:
  assumes "ranges_wf B" "b \<in> set B"
  shows "rng_e b \<le> rng_e (last B)"
  using assms
proof (induction B)
  case (Cons a B)
  show ?case
  proof (cases "B = []")
    case False
    then have "last B \<in> set B" by simp
    with Cons.prems have "rng_gap a (last B)" "rng_s (last B) \<le> rng_e (last B)"
      by (auto simp: ranges_wf_Cons ranges_wf_def)
    then have "rng_e a \<le> rng_e (last B)" by (simp add: rng_gap_def word_int_simps)
    with False Cons show ?thesis by (auto simp: ranges_wf_Cons)
  qed (use Cons.prems in simp)
qed simp

lemma add_span_step:
  assumes "range_list r = P @ x # Q" "n = length P" "Q = B @ C" "rng_e x \<le> en"
    and "\<forall>b \<in> set B. rng_e b \<le> en" "\<forall>c \<in> set C. en < rng_e c"
  shows "range_list (absorb_loop (set_rng_e r n en) n) = P @ x\<lparr>rng_e := en\<rparr> # C"
proof -
  have "range_list (set_rng_e r n en) = P @ x\<lparr>rng_e := en\<rparr> # Q"
    using assms by (simp add: set_rng_e_def)
  from absorb_loop_list [OF this assms(2)] show ?thesis
    using dropWhile_covered [OF assms(5,6)] assms(3) by simp
qed

lemma add_span_correct:
  assumes wf: "ranges_wf (A @ B @ C)" and l: "range_list r = A @ B @ C" and "s \<le> e" "B \<noteq> []"
    and A: "\<forall>x \<in> set A. rng_s x \<le> s" and B: "\<forall>x \<in> set B. s < rng_s x \<and> rng_s x \<le> e"
    and C: "\<forall>x \<in> set C. e < rng_s x"
    and x: "x = (if A = [] then None else Some (length A - 1))"
    and y: "y = Some (length A + length B - 1)"
  shows "\<exists>r' n. add_range_span r x y s e = Some (r', n) \<and>
           rs_wf (add_range_tail r' n) \<and> rs_set (add_range_tail r' n) = rs_set r \<union> {s..e}"
proof -
  obtain b B' where Bb: "B = b # B'" using assms(4) by (cases B) auto
  define en where "en = (if rng_e (last B) > e then rng_e (last B) else e)"
  have wfs: "ranges_wf A" "ranges_wf B" "ranges_wf C" using wf by (auto simp: ranges_wf_append)
  have Ben: "\<forall>z \<in> set B. rng_e z \<le> en"
    using last_end_le [OF wfs(2)] by (fastforce simp: en_def)
  have sen: "s \<le> en" "e \<le> en" using assms(3) by (auto simp: en_def)
  have lastB: "last B \<in> set B" using assms(4) by simp
  have lastC: "\<forall>c \<in> set C. rng_gap (last B) c" "\<forall>c \<in> set C. rng_s c \<le> rng_e c"
    using wf lastB wfs(3) by (auto simp: ranges_wf_append) (simp add: ranges_wf_def)
  then have enC: "\<forall>c \<in> set C. en < rng_s c"
    using C by (auto simp: en_def rng_gap_def word_int_simps)
  with lastC have enC': "\<forall>c \<in> set C. en < rng_e c" by fastforce
  have seg: "{s..en} = {s..e} \<union> ranges_set B"
  proof -
    have "ranges_set B \<subseteq> {s..en}" using B Ben by (fastforce simp: ranges_set_def)
    moreover have "{rng_s (last B)..rng_e (last B)} \<subseteq> ranges_set B"
      using lastB by (auto simp: ranges_set_def)
    moreover have "{s..en} \<subseteq> {s..e} \<union> {rng_s (last B)..rng_e (last B)}"
      using B lastB by (auto simp: en_def)
    ultimately show ?thesis using sen by auto
  qed
  have yl: "length A + length B - 1 = length A + length B'" using Bb by simp
  consider (fresh) "A = [] \<or> uint (rng_e (last A)) + 1 < uint s"
    | (join) "A \<noteq> []" "uint s \<le> uint (rng_e (last A)) + 1" by linarith
  then show ?thesis
  proof cases
    case fresh
    let ?x = "\<lparr>rng_s = s, rng_e = en\<rparr>"
    have step1: "(case x of
            None \<Rightarrow> do { x1 \<leftarrow> first_range r; Some (set_rng_s r x1 s, x1) }
          | Some i \<Rightarrow>
              (if rng_e (range_list r ! i) < s \<and> rng_e (range_list r ! i) + 1 \<noteq> s
               then do { x1 \<leftarrow> next_range r i; Some (set_rng_s r x1 s, x1) }
               else Some (r, i))) = Some (set_rng_s r (length A) s, length A)"
    proof (cases A rule: rev_cases)
      case Nil
      then show ?thesis using x l Bb by (simp add: first_range_def)
    next
      case (snoc A' a)
      then show ?thesis
        using fresh joins_iff [of "rng_e a" s] l x Bb by (simp add: next_range_def)
    qed
    have r1: "range_list (set_rng_s r (length A) s) = A @ b\<lparr>rng_s := s\<rparr> # B' @ C"
      using l Bb by (simp add: set_rng_s_def)
    then have "rng_e (range_list (set_rng_s r (length A) s) ! (length A + length B')) = rng_e (last B)"
      using Bb by (cases B' rule: rev_cases) (auto simp: nth_append)
    then obtain r' where sp: "add_range_span r x y s e = Some (r', length A)"
      and r': "r' = absorb_loop (set_rng_e (set_rng_s r (length A) s) (length A) en) (length A)"
      using step1 y yl by (simp add: add_range_span_def en_def)
    have "range_list r' = A @ (b\<lparr>rng_s := s\<rparr>)\<lparr>rng_e := en\<rparr> # C"
      unfolding r' by (rule add_span_step [OF r1]) (use Bb Ben enC' in auto)
    then have l': "range_list r' = A @ ?x # C" by simp
    have gap: "\<forall>p \<in> set A. rng_gap p ?x"
    proof (cases A rule: rev_cases)
      case (snoc A' a)
      with fresh wfs(1) show ?thesis
        by (auto simp: rng_gap_def ranges_wf_simps word_int_simps)
    qed simp
    have S: "ranges_set (A @ ?x # C) = rs_set r \<union> {s..e}" using l seg by (auto simp: rs_set_def)
    show ?thesis
      using sp add_finish [OF l' refl wfs(1) _ gap wfs(3) _ S] sen enC by simp
  next
    case join
    then obtain A' a where Aa: "A = A' @ [a]" by (cases A rule: rev_cases) auto
    let ?x = "a\<lparr>rng_e := en\<rparr>"
    have j: "\<not> (rng_e a < s \<and> rng_e a + 1 \<noteq> s)" using join Aa joins_iff by simp
    have l1: "range_list r = A' @ a # B @ C" using l Aa by simp
    have "(B @ C) ! length B' = last B"
      using Bb by (cases B' rule: rev_cases) (auto simp: nth_append)
    then have "y = Some (length A + length B')" "range_list r ! (length A + length B') = last B"
      and "x = Some (length A')" "range_list r ! length A' = a"
      using l1 Aa x y yl by (auto simp: nth_append)
    then obtain r' where sp: "add_range_span r x y s e = Some (r', length A')"
      and r': "r' = absorb_loop (set_rng_e r (length A') en) (length A')"
      using j by (simp add: add_range_span_def en_def Let_def)
    have as: "rng_s a \<le> s" "rng_s a \<le> rng_e a" using A Aa wfs(1) by (auto simp: ranges_wf_simps)
    have "rng_gap a b" "rng_s b \<le> rng_e b" "rng_e b \<le> en"
      using wf Aa Bb Ben by (auto simp: ranges_wf_simps)
    then have ae: "rng_e a \<le> en" by (simp add: rng_gap_def word_int_simps)
    have l': "range_list r' = A' @ ?x # C"
      unfolding r' by (rule add_span_step [OF l1]) (use Ben enC' ae in auto)
    have pa: "\<forall>p \<in> set A'. rng_gap p ?x" using wfs(1) Aa by (auto simp: ranges_wf_simps rng_gap_def)
    have "{rng_s a..en} = {rng_s a..rng_e a} \<union> {s..en}"
      using as ae join Aa sen by (auto simp: word_int_simps)
    then have S: "ranges_set (A' @ ?x # C) = rs_set r \<union> {s..e}"
      using l1 seg by (auto simp: rs_set_def)
    have v: "ranges_wf A'" "rng_s ?x \<le> rng_e ?x"
      using wfs(1) Aa as sen by (auto simp: ranges_wf_simps)
    show ?thesis
      using sp add_finish [OF l' refl v pa wfs(3) _ S] enC by simp
  qed
qed

lemma find_range_segments:
  assumes "upto_start s (range_list r) = A" "upto_start e (range_list r) = A @ B"
  shows "find_range r s = (if A = [] then None else Some (length A - 1))"
    and "find_range r e = (if A @ B = [] then None else Some (length A + length B - 1))"
    and "find_range r s = find_range r e \<longleftrightarrow> B = []"
proof -
  show s: "find_range r s = (if A = [] then None else Some (length A - 1))"
    and e: "find_range r e = (if A @ B = [] then None else Some (length A + length B - 1))"
    using assms by (auto simp: find_range_eq)
  show "find_range r s = find_range r e \<longleftrightarrow> B = []"
    unfolding s e by (cases A; cases B) auto
qed

lemma rangeset_add_range_correct:
  assumes "rs_wf r" "s \<le> e"
  obtains (added) r' where "rangeset_add_range ok r s e = Some (0, r')" "rs_wf r'"
      "rs_set r' = rs_set r \<union> {s..e}"
  | (nomem) "rangeset_add_range ok r s e = Some (- ENOMEM, r)" "\<not> ok \<or> nr_ranges r = 0"
proof -
  from assms obtain A B C where l: "range_list r = A @ B @ C"
    and seg: "upto_start s (range_list r) = A" "upto_start e (range_list r) = A @ B"
    and A: "\<forall>x \<in> set A. rng_s x \<le> s" and B: "\<forall>x \<in> set B. s < rng_s x \<and> rng_s x \<le> e"
    and C: "\<forall>x \<in> set C. e < rng_s x"
    unfolding rs_wf_def by (elim segments)
  have wf: "ranges_wf (A @ B @ C)" using assms(1) l by (simp add: rs_wf_def)
  note fr = find_range_segments [OF seg]
  show ?thesis
  proof (cases "B = []")
    case True
    then have eq: "find_range r s = find_range r e" using fr by simp
    show ?thesis
    proof (cases "add_range_same ok r (find_range r s) s e")
      case None
      then have "\<not> ok \<or> nr_ranges r = 0"
        by (auto simp: add_range_same_def alloc_range_def split: if_splits option.splits)
      moreover have "rangeset_add_range ok r s e = Some (- ENOMEM, r)"
        using None eq by (simp add: rangeset_add_range_def)
      ultimately show ?thesis using nomem by blast
    next
      case (Some p)
      obtain r' n where p: "p = (r', n)" by (cases p)
      have ok: "rangeset_add_range ok r s e = Some (0, add_range_tail r' n)"
        using Some p eq by (simp add: rangeset_add_range_def)
      show ?thesis
        using added [OF ok] add_same_correct [of A C r s e _ ok r' n] wf l True A C assms(2) fr(1) Some p
        by simp
    qed
  next
    case False
    then have ne: "find_range r s \<noteq> find_range r e" using fr by simp
    have fe: "find_range r e = Some (length A + length B - 1)" using fr(2) False by simp
    from add_span_correct [OF wf l assms(2) False A B C fr(1) fe] obtain r' n where
      "add_range_span r (find_range r s) (find_range r e) s e = Some (r', n)"
      "rs_wf (add_range_tail r' n)" "rs_set (add_range_tail r' n) = rs_set r \<union> {s..e}" by blast
    with ne added show ?thesis by (simp add: rangeset_add_range_def)
  qed
qed

section \<open>Removing a range\<close>

lemma remove_same_correct:
  assumes wf: "ranges_wf (A @ C)" and l: "range_list r = A @ C" and "s \<le> e"
    and A: "\<forall>x \<in> set A. rng_s x \<le> s" and C: "\<forall>x \<in> set C. e < rng_s x"
    and x: "x = (if A = [] then None else Some (length A - 1))"
    and res: "remove_range_same ok r x s e = (rc, r')"
  shows "rc = 0 \<and> rs_wf r' \<and> rs_set r' = rs_set r - {s..e} \<or>
         rc = - ENOMEM \<and> r' = r \<and> (\<not> ok \<or> nr_ranges r = 0)"
proof (cases A rule: rev_cases)
  case Nil
  with x res have "rc = 0" "r' = r" by (auto simp: remove_range_same_def)
  moreover have "ranges_set C \<inter> {s..e} = {}" using C by (fastforce simp: ranges_set_def)
  ultimately show ?thesis using wf l Nil by (auto simp: rs_wf_def rs_set_def)
next
  case (snoc A' a)
  have wfs: "ranges_wf A'" "ranges_wf C" "rng_s a \<le> rng_e a" "rng_s a \<le> s"
    and gA: "\<forall>p \<in> set A'. rng_gap p a" and gC: "\<forall>c \<in> set C. rng_gap a c"
    and gAC: "\<forall>p \<in> set A'. \<forall>c \<in> set C. rng_gap p c"
    using wf A snoc by (auto simp: ranges_wf_simps)
  have dC: "ranges_set C \<inter> {s..e} = {}" using C by (fastforce simp: ranges_set_def)
  have dA: "ranges_set A' \<inter> {s..e} = {}"
    using gA wfs(4) by (fastforce simp: ranges_set_def rng_gap_def word_int_simps)
  have xa: "x = Some (length A')" "range_list r ! length A' = a" and la: "range_list r = A' @ a # C"
    using snoc x l by auto
  consider (below) "rng_e a < s"
    | (mid) "s \<le> rng_e a" "rng_s a < s" "e < rng_e a"
    | (whole) "s \<le> rng_e a" "rng_s a = s" "rng_e a \<le> e"
    | (front) "s \<le> rng_e a" "rng_s a = s" "e < rng_e a"
    | (rear) "s \<le> rng_e a" "rng_s a < s" "rng_e a \<le> e"
    using wfs(4) by fastforce
  then show ?thesis
  proof cases
    case below
    then have "rc = 0" "r' = r" using res xa by (auto simp: remove_range_same_def Let_def split: if_splits)
    moreover have "{rng_s a..rng_e a} \<inter> {s..e} = {}" using below by fastforce
    ultimately show ?thesis using dA dC wf l la snoc by (auto simp: rs_wf_def rs_set_def)
  next
    case mid
    show ?thesis
    proof (cases "alloc_range ok r")
      case None
      then have "rc = - ENOMEM" "r' = r"
        using res xa mid by (auto simp: remove_range_same_def Let_def split: if_splits)
      with None show ?thesis by (auto simp: alloc_range_def split: if_splits)
    next
      case (Some r1)
      let ?a = "a\<lparr>rng_e := s - 1\<rparr>" and ?b = "\<lparr>rng_s = e + 1, rng_e = rng_e a\<rparr>"
      have "range_list (set_rng_e r1 (length A') (s - 1)) = (A' @ [?a]) @ C"
        using alloc_rangeE(1) [OF Some] la by (simp add: set_rng_e_def)
      from insert_range_append(1) [OF this, of "Some (length A')" ?b]
      have r': "rc = 0" "range_list r' = A' @ ?a # ?b # C"
        using res xa mid Some by (auto simp: remove_range_same_def Let_def split: if_splits)
      have u: "uint (s - 1) = uint s - 1" "uint (e + 1) = uint e + 1"
        using uint_pred_le [OF mid(2)] uint_succ_le [OF mid(3)] by auto
      have "rs_wf r'" using r' wfs gA gC gAC mid u assms(3)
        by (auto simp: rs_wf_def ranges_wf_simps rng_gap_def word_int_simps)
      moreover have "{rng_s ?a..rng_e ?a} \<union> {rng_s ?b..rng_e ?b} = {rng_s a..rng_e a} - {s..e}"
        using u mid assms(3) by (auto simp: word_int_simps)
      ultimately show ?thesis using r' la dA dC by (auto simp: rs_set_def)
    qed
  next
    case whole
    then have r': "rc = 0" "range_list r' = A' @ C"
      using res xa la by (auto simp: remove_range_same_def Let_def destroy_range_def list_pos_simps split: if_splits)
    moreover have "{rng_s a..rng_e a} - {s..e} = {}" using whole by auto
    ultimately show ?thesis using r' la dA dC wfs gAC
      by (auto simp: rs_wf_def rs_set_def ranges_wf_simps)
  next
    case front
    let ?a = "a\<lparr>rng_s := e + 1\<rparr>"
    have u: "uint (e + 1) = uint e + 1" using uint_succ_le [OF front(3)] .
    have r': "rc = 0" "range_list r' = A' @ ?a # C"
      using res xa la front by (auto simp: remove_range_same_def Let_def set_rng_s_def split: if_splits)
    moreover have "rs_wf r'" using r' wfs gA gC gAC front u assms(3)
      by (auto simp: rs_wf_def ranges_wf_simps rng_gap_def word_int_simps)
    moreover have "{rng_s ?a..rng_e ?a} = {rng_s a..rng_e a} - {s..e}"
      using u front assms(3) by (auto simp: word_int_simps)
    ultimately show ?thesis using la dA dC by (auto simp: rs_set_def)
  next
    case rear
    let ?a = "a\<lparr>rng_e := s - 1\<rparr>"
    have u: "uint (s - 1) = uint s - 1" using uint_pred_le [OF rear(2)] .
    have r': "rc = 0" "range_list r' = A' @ ?a # C"
      using res xa la rear by (auto simp: remove_range_same_def Let_def set_rng_e_def split: if_splits)
    moreover have "rs_wf r'" using r' wfs gA gC gAC rear u assms(3)
      by (auto simp: rs_wf_def ranges_wf_simps rng_gap_def word_int_simps)
    moreover have "{rng_s ?a..rng_e ?a} = {rng_s a..rng_e a} - {s..e}"
      using u rear assms(3) by (auto simp: word_int_simps)
    ultimately show ?thesis using la dA dC by (auto simp: rs_set_def)
  qed
qed

text \<open>
  What the span branch leaves behind: the last range that starts at or below \<open>e\<close>, cut
  at \<open>e + 1\<close>.
\<close>

definition cut_front :: "rng \<Rightarrow> u64 \<Rightarrow> rng list" where
  "cut_front y e = (if e + 1 > rng_e y then [] else [y\<lparr>rng_s := e + 1\<rparr>])"

lemma remove_span_finish:
  assumes "range_list r = P @ D @ y # C" "n = length P" "m = length P + length D"
  shows "\<exists>r'. do { r2 \<leftarrow> remove_loop r n m;
              let r3 = set_rng_s r2 n (e + 1);
              Some (if rng_s (range_list r3 ! n) > rng_e (range_list r3 ! n)
                    then destroy_range r3 n else r3) } = Some r' \<and>
           range_list r' = P @ cut_front y e @ C"
proof -
  from remove_loop_list [of r P D "y # C" n m] assms obtain r2 where
    "remove_loop r n m = Some r2" "range_list r2 = P @ y # C" by auto
  then show ?thesis using assms(2)
    by (auto simp: set_rng_s_def destroy_range_def cut_front_def list_pos_simps Let_def)
qed

lemma remove_span_list:
  assumes l: "range_list r = A @ B @ C" and B: "B \<noteq> []" "\<forall>x \<in> set B. s < rng_s x"
    and A: "\<forall>x \<in> set A. rng_s x \<le> s"
    and x: "x = (if A = [] then None else Some (length A - 1))"
    and y: "y = Some (length A + length B - 1)"
  shows "\<exists>r'. remove_range_span r x y s e = Some r' \<and>
     range_list r' =
       (if A = [] then []
        else if rng_s (last A) < s then butlast A @ [(last A)\<lparr>rng_e := s - 1\<rparr>] else butlast A)
       @ cut_front (last B) e @ C"
proof -
  obtain D b where D: "B = D @ [b]" using B(1) by (cases B rule: rev_cases) auto
  consider (none) "A = []"
    | (trim) A' a where "A = A' @ [a]" "rng_s a < s"
    | (drop) A' a where "A = A' @ [a]" "rng_s a = s"
    using A by (cases A rule: rev_cases) fastforce+
  then show ?thesis
  proof cases
    case none
    have "\<not> rng_s (range_list r ! 0) < s"
      using none l B by (cases B) auto
    moreover have "range_list r \<noteq> []" using l B by simp
    moreover have "range_list r = [] @ D @ b # C" "y = Some (length D)" using none l D y by auto
    moreover note remove_span_finish [OF this(1), of 0 "length D" e]
    ultimately show ?thesis
      using none D x by (simp add: remove_range_span_def first_range_def)
  next
    case trim
    let ?r = "set_rng_e r (length A') (s - 1)"
    have "range_list ?r = (A' @ [a\<lparr>rng_e := s - 1\<rparr>]) @ D @ b # C"
      using trim l D by (simp add: set_rng_e_def)
    note remove_span_finish [OF this, of "Suc (length A')" "length A' + length B" e]
    moreover have "x = Some (length A')" "y = Some (length A' + length B)"
      "range_list r ! length A' = a" "next_range r (length A') = Some (Suc (length A'))"
      using trim x y l D by (auto simp: next_range_def)
    ultimately show ?thesis
      using trim D by (simp add: remove_range_span_def)
  next
    case drop
    have "range_list r = A' @ (a # D) @ b # C" using drop l D by simp
    note remove_span_finish [OF this, of "length A'" "length A' + length B" e]
    moreover have "x = Some (length A')" "y = Some (length A' + length B)"
      "range_list r ! length A' = a"
      using drop x y l D by auto
    ultimately show ?thesis
      using drop D by (simp add: remove_range_span_def)
  qed
qed

text \<open>
  When the two searches of a removal find different ranges, the code cuts the lower one at
  \<open>s - 1\<close> without looking at its end: the numbers between that end and \<open>s\<close> join the set.
\<close>

definition remove_spill :: "rangeset \<Rightarrow> u64 \<Rightarrow> u64 \<Rightarrow> u64 set" where
  "remove_spill r s e =
     (if find_range r s = find_range r e then {}
      else (case find_range r s of
              None \<Rightarrow> {}
            | Some i \<Rightarrow> {k. rng_e (range_list r ! i) < k \<and> k < s}))"

lemma cut_front_wf:
  assumes "ranges_wf (B @ C)" "B \<noteq> []" "\<forall>x \<in> set B. s < rng_s x \<and> rng_s x \<le> e"
    and "s \<le> e" "e < f"
  shows "ranges_wf (cut_front (last B) e @ C)"
    and "ranges_set (cut_front (last B) e) = ranges_set B - {s..e}"
    and "\<forall>c \<in> set (cut_front (last B) e). e < rng_s c"
proof -
  obtain D b where D: "B = D @ [b]" using assms(2) by (cases B rule: rev_cases) auto
  have u: "uint (e + 1) = uint e + 1" using uint_succ_le [OF assms(5)] .
  have bs: "s < rng_s b" "rng_s b \<le> e" using assms(3) D by auto
  have "rng_e d < rng_s b" if "d \<in> set D" for d
    using assms(1) D that by (auto simp: ranges_wf_simps rng_gap_def word_int_simps)
  then have d: "{rng_s d..rng_e d} \<subseteq> {s..e}" if "d \<in> set D" for d
    using assms(3) D bs that by fastforce
  have "{rng_s b..rng_e b} - {s..e} = (if e + 1 > rng_e b then {} else {e + 1..rng_e b})"
    using bs u by (auto simp: word_int_simps)
  then have "ranges_set (cut_front (last B) e) = {rng_s b..rng_e b} - {s..e}"
    using D by (simp add: cut_front_def)
  moreover have "ranges_set D \<subseteq> {s..e}" using d unfolding ranges_set_def by blast
  ultimately show "ranges_set (cut_front (last B) e) = ranges_set B - {s..e}" using D by auto
  show "ranges_wf (cut_front (last B) e @ C)"
    using assms(1) D u by (auto simp: cut_front_def ranges_wf_simps rng_gap_def word_int_simps)
  show "\<forall>c \<in> set (cut_front (last B) e). e < rng_s c"
    using u by (auto simp: cut_front_def word_int_simps)
qed

lemma remove_span_correct:
  assumes wf: "ranges_wf (A @ B @ C)" and l: "range_list r = A @ B @ C"
    and "s \<le> e" "e < f" "B \<noteq> []"
    and A: "\<forall>x \<in> set A. rng_s x \<le> s" and B: "\<forall>x \<in> set B. s < rng_s x \<and> rng_s x \<le> e"
    and C: "\<forall>x \<in> set C. e < rng_s x"
    and r': "range_list r' =
       (if A = [] then []
        else if rng_s (last A) < s then butlast A @ [(last A)\<lparr>rng_e := s - 1\<rparr>] else butlast A)
       @ cut_front (last B) e @ C"
  shows "rs_wf r'"
    and "rs_set r' = rs_set r - {s..e} \<union> (if A = [] then {} else {k. rng_e (last A) < k \<and> k < s})"
proof -
  let ?D = "cut_front (last B) e @ C"
  have wfB: "ranges_wf (B @ C)" using wf by (simp add: ranges_wf_append)
  note cf = cut_front_wf [OF wfB assms(5) B assms(3,4)]
  have dC: "ranges_set C - {s..e} = ranges_set C" using C by (fastforce simp: ranges_set_def)
  then have D: "ranges_set ?D = ranges_set (B @ C) - {s..e}" using cf(2) by auto
  have Ds: "\<forall>c \<in> set ?D. e < rng_s c" using cf(3) C by auto
  have "rs_wf r' \<and> rs_set r' = rs_set r - {s..e} \<union> (if A = [] then {} else {k. rng_e (last A) < k \<and> k < s})"
  proof (cases A rule: rev_cases)
    case Nil
    then show ?thesis using r' cf(1) D l by (simp add: rs_wf_def rs_set_def)
  next
    case (snoc A' a)
    have a: "rng_s a \<le> rng_e a" "rng_s a \<le> s" "ranges_wf A'" "\<forall>p \<in> set A'. rng_gap p a"
      using wf A snoc by (auto simp: ranges_wf_simps)
    have dA: "ranges_set A' - {s..e} = ranges_set A'"
      using a by (fastforce simp: ranges_set_def rng_gap_def word_int_simps)
    obtain b where b: "b \<in> set B" using assms(5) by (cases B) auto
    with wf snoc have "rng_gap a b" by (auto simp: ranges_wf_simps)
    with b B have ae: "rng_e a < e" by (force simp: rng_gap_def word_int_simps)
    have pD: "\<forall>p \<in> set A'. \<forall>c \<in> set ?D. rng_gap p c"
      using a Ds assms(3) by (fastforce simp: rng_gap_def word_int_simps)
    show ?thesis
    proof (cases "rng_s a < s")
      case True
      let ?a = "a\<lparr>rng_e := s - 1\<rparr>"
      have u: "uint (s - 1) = uint s - 1" using uint_pred_le [OF True] .
      have l': "range_list r' = A' @ ?a # ?D" using r' snoc True by simp
      have aD: "\<forall>c \<in> set ?D. rng_gap ?a c"
        using Ds u assms(3) by (fastforce simp: rng_gap_def word_int_simps)
      have v: "rng_s ?a \<le> rng_e ?a" using True u by (simp add: word_int_simps)
      have w: "rs_wf r'" unfolding rs_wf_def l'
        using a aD pD cf(1) v by (auto simp: ranges_wf_simps rng_gap_def)
      have "{rng_s ?a..rng_e ?a} = {rng_s a..rng_e a} - {s..e} \<union> {k. rng_e a < k \<and> k < s}"
        using True u a ae by (auto simp: word_int_simps)
      then have "rs_set r' = rs_set r - {s..e} \<union> {k. rng_e a < k \<and> k < s}"
        unfolding rs_set_def l' using D dA l snoc by auto
      with w snoc show ?thesis by simp
    next
      case False
      then have as: "rng_s a = s" using a(2) by simp
      have l': "range_list r' = A' @ ?D" using r' snoc False by simp
      have w: "rs_wf r'" unfolding rs_wf_def l' using a pD cf(1) by (auto simp: ranges_wf_append)
      have "{rng_s a..rng_e a} - {s..e} = {}" "{k. rng_e a < k \<and> k < s} = {}"
        using as a(1) ae by auto
      then have "rs_set r' = rs_set r - {s..e} \<union> {k. rng_e a < k \<and> k < s}"
        unfolding rs_set_def l' using D dA l snoc by auto
      with w snoc show ?thesis by simp
    qed
  qed
  then show "rs_wf r'" "rs_set r' = rs_set r - {s..e} \<union> (if A = [] then {} else {k. rng_e (last A) < k \<and> k < s})"
    by auto
qed

lemma rangeset_remove_range_exact:
  assumes "rs_wf r" "s \<le> e" "e < f"
  obtains (removed) r' where "rangeset_remove_range ok r s e = Some (0, r')" "rs_wf r'"
      "rs_set r' = rs_set r - {s..e} \<union> remove_spill r s e"
  | (nomem) "rangeset_remove_range ok r s e = Some (- ENOMEM, r)" "\<not> ok \<or> nr_ranges r = 0"
proof -
  from assms(1,2) obtain A B C where l: "range_list r = A @ B @ C"
    and seg: "upto_start s (range_list r) = A" "upto_start e (range_list r) = A @ B"
    and A: "\<forall>x \<in> set A. rng_s x \<le> s" and B: "\<forall>x \<in> set B. s < rng_s x \<and> rng_s x \<le> e"
    and C: "\<forall>x \<in> set C. e < rng_s x"
    unfolding rs_wf_def by (elim segments)
  have wf: "ranges_wf (A @ B @ C)" using assms(1) l by (simp add: rs_wf_def)
  note fr = find_range_segments [OF seg]
  show ?thesis
  proof (cases "B = []")
    case True
    then have eq: "find_range r s = find_range r e" using fr by simp
    obtain rc r' where p: "remove_range_same ok r (find_range r s) s e = (rc, r')" by fastforce
    have res: "rangeset_remove_range ok r s e = Some (rc, r')"
      using eq p by (simp add: rangeset_remove_range_def)
    from remove_same_correct [of A C r s e _ ok rc r'] wf l True A C assms(2) fr(1) p
    have "rc = 0 \<and> rs_wf r' \<and> rs_set r' = rs_set r - {s..e} \<or>
         rc = - ENOMEM \<and> r' = r \<and> (\<not> ok \<or> nr_ranges r = 0)" by simp
    then show ?thesis using res eq removed nomem by (auto simp: remove_spill_def)
  next
    case False
    then have ne: "find_range r s \<noteq> find_range r e" using fr by simp
    have fe: "find_range r e = Some (length A + length B - 1)" using fr(2) False by simp
    have Bs: "\<forall>x \<in> set B. s < rng_s x" using B by blast
    from remove_span_list [OF l False Bs A fr(1) fe] obtain r' where
      sp: "remove_range_span r (find_range r s) (find_range r e) s e = Some r'" and
      r': "range_list r' =
       (if A = [] then []
        else if rng_s (last A) < s then butlast A @ [(last A)\<lparr>rng_e := s - 1\<rparr>] else butlast A)
       @ cut_front (last B) e @ C" by blast
    have res: "rangeset_remove_range ok r s e = Some (0, r')"
      using ne sp by (simp add: rangeset_remove_range_def)
    have "remove_spill r s e = (if A = [] then {} else {k. rng_e (last A) < k \<and> k < s})"
      using ne fr(1) l by (auto simp: remove_spill_def nth_append last_conv_nth)
    then show ?thesis
      using removed [OF res] remove_span_correct [OF wf l assms(2,3) False A B C r'] by simp
  qed
qed

section \<open>Queries decide membership\<close>

lemma rangeset_contains_range_iff:
  assumes "rs_wf r" "s \<le> e"
  shows "rangeset_contains_range r s e \<longleftrightarrow> {s..e} \<subseteq> rs_set r"
proof -
  from assms obtain A B C where l: "range_list r = A @ B @ C"
    and seg: "upto_start s (range_list r) = A" "upto_start e (range_list r) = A @ B"
    and A: "\<forall>x \<in> set A. rng_s x \<le> s" and B: "\<forall>x \<in> set B. s < rng_s x \<and> rng_s x \<le> e"
    and C: "\<forall>x \<in> set C. e < rng_s x"
    unfolding rs_wf_def by (elim segments)
  have wf: "ranges_wf (A @ B @ C)" using assms(1) l by (simp add: rs_wf_def)
  have BC: "k \<notin> ranges_set (B @ C)" if "k \<le> s" for k
    using B C assms(2) that by (fastforce simp: ranges_set_def)
  show ?thesis
  proof (cases A rule: rev_cases)
    case Nil
    then show ?thesis
      using find_range_segments(1) [OF seg] BC [of s] l assms(2)
      by (force simp: rangeset_contains_range_def rs_set_def)
  next
    case (snoc A' a)
    have c: "rangeset_contains_range r s e \<longleftrightarrow> e \<le> rng_e a"
      using find_range_segments(1) [OF seg] snoc l by (simp add: rangeset_contains_range_def)
    have a: "rng_s a \<le> s" "\<forall>p \<in> set A'. rng_gap p a" "\<forall>x \<in> set (B @ C). rng_gap a x"
      using wf snoc A by (auto simp: ranges_wf_simps)
    show ?thesis unfolding c
    proof
      assume "e \<le> rng_e a"
      then have "{s..e} \<subseteq> {rng_s a..rng_e a}" using a(1) by auto
      then show "{s..e} \<subseteq> rs_set r" using l snoc by (auto simp: rs_set_def)
    next
      assume sub: "{s..e} \<subseteq> rs_set r"
      show "e \<le> rng_e a"
      proof (rule ccontr)
        assume "\<not> e \<le> rng_e a"
        then have lt: "rng_e a < e" by simp
        define k where "k = (if rng_e a < s then s else rng_e a + 1)"
        have u: "uint (rng_e a + 1) = uint (rng_e a) + 1" using uint_succ_le [OF lt] .
        have "k \<in> {s..e}" using lt u assms(2) by (auto simp: k_def word_int_simps)
        then have "k \<in> rs_set r" using sub by blast
        moreover have k: "rng_e a < k" "s \<le> k" using u by (auto simp: k_def word_int_simps)
        moreover have "rng_e p < k" if "p \<in> set A'" for p
          using a(1,2) k(2) that by (fastforce simp: rng_gap_def word_int_simps)
        then have "k \<notin> ranges_set A'" by (fastforce simp: ranges_set_def)
        moreover have "k < rng_s x" if "x \<in> set (B @ C)" for x
          using a(3) u B C assms(2) that by (fastforce simp: k_def rng_gap_def word_int_simps)
        then have "k \<notin> ranges_set (B @ C)" by (fastforce simp: ranges_set_def)
        ultimately show False using l snoc by (auto simp: rs_set_def)
      qed
    qed
  qed
qed

lemma rangeset_overlaps_range_iff:
  assumes "rs_wf r" "s \<le> e"
  shows "rangeset_overlaps_range r s e \<longleftrightarrow> {s..e} \<inter> rs_set r \<noteq> {}"
proof -
  let ?A = "upto_start e (range_list r)" and ?C = "after_start e (range_list r)"
  have l: "range_list r = ?A @ ?C" by (rule start_split)
  have wf: "ranges_wf (?A @ ?C)" using assms(1) l by (simp add: rs_wf_def)
  have "e < rng_s x" if "x \<in> set ?C" for x
    using after_start_gt assms(1) that by (auto simp: rs_wf_def)
  then have C: "{s..e} \<inter> ranges_set ?C = {}" by (fastforce simp: ranges_set_def)
  show ?thesis
  proof (cases ?A rule: rev_cases)
    case Nil
    then show ?thesis
      using C l by (auto simp: rangeset_overlaps_range_def find_range_eq rs_set_def)
  next
    case (snoc A' a)
    have c: "rangeset_overlaps_range r s e \<longleftrightarrow> s \<le> rng_e a"
      using snoc l by (simp add: rangeset_overlaps_range_def find_range_eq nth_append)
        (metis append_assoc append_Cons nth_append_length)
    have a: "rng_s a \<le> e" "rng_s a \<le> rng_e a" "\<forall>p \<in> set A'. rng_gap p a"
      using wf snoc upto_start_le [of a e "range_list r"] by (auto simp: ranges_wf_simps)
    have S: "rs_set r = ranges_set A' \<union> {rng_s a..rng_e a} \<union> ranges_set ?C"
      using l snoc by (metis ranges_set_simps rs_set_def Un_assoc Un_empty_right)
    show ?thesis unfolding c
    proof
      assume "s \<le> rng_e a"
      then have "max s (rng_s a) \<in> {s..e} \<inter> {rng_s a..rng_e a}" using a assms(2) by auto
      then show "{s..e} \<inter> rs_set r \<noteq> {}" unfolding S by blast
    next
      assume "{s..e} \<inter> rs_set r \<noteq> {}"
      then obtain k where k: "k \<in> {s..e}" "k \<in> ranges_set A' \<union> {rng_s a..rng_e a}"
        using C unfolding S by blast
      have "rng_e p \<le> rng_e a" if "p \<in> set A'" for p
        using a that by (fastforce simp: rng_gap_def word_int_simps)
      with k have "k \<le> rng_e a" by (fastforce simp: ranges_set_def)
      with k(1) show "s \<le> rng_e a" by (auto dest: order_trans)
    qed
  qed
qed

section \<open>Reporting\<close>

text \<open>A callback that records what it is shown and never stops the walk.\<close>

definition collect_cb :: "u64 \<Rightarrow> u64 \<Rightarrow> (u64 \<times> u64) list \<Rightarrow> int \<times> (u64 \<times> u64) list" where
  "collect_cb s e c = (0, c @ [(s, e)])"

definition pairs_set :: "(u64 \<times> u64) list \<Rightarrow> u64 set" where
  "pairs_set ps = (\<Union>(a, b) \<in> set ps. {a..b})"

lemma report_loop_collect:
  assumes "ranges_wf l" "s \<le> e"
  shows "\<exists>c'. report_loop collect_cb s e l 0 c = (0, c') \<and>
              pairs_set c' = pairs_set c \<union> (ranges_set l \<inter> {s..e})"
  using assms(1)
proof (induction l arbitrary: c)
  case Nil
  then show ?case by simp
next
  case (Cons x l)
  then have wf: "ranges_wf l" by (simp add: ranges_wf_Cons)
  show ?case
  proof (cases "rng_s x \<le> e")
    case True
    have i: "{rng_s x..rng_e x} \<inter> {s..e} =
        (if rng_e x \<ge> s then {max (rng_s x) s..min (rng_e x) e} else {})" by auto
    show ?thesis
    proof (cases "rng_e x \<ge> s")
      case True
      from Cons.IH [OF wf, of "c @ [(max (rng_s x) s, min (rng_e x) e)]"]
      show ?thesis using \<open>rng_s x \<le> e\<close> True i
        by (auto simp: collect_cb_def pairs_set_def Int_Un_distrib2)
    next
      case False
      with Cons.IH [OF wf, of c] \<open>rng_s x \<le> e\<close> i show ?thesis
        by (auto simp: Int_Un_distrib2)
    qed
  next
    case False
    have "e < rng_s y" if "y \<in> set (x # l)" for y
      using Cons.prems False that by (fastforce simp: ranges_wf_Cons rng_gap_def word_int_simps)
    then have "ranges_set (x # l) \<inter> {s..e} = {}" by (fastforce simp: ranges_set_def)
    with False show ?thesis by simp
  qed
qed

lemma report_from_predecessor:
  assumes "rs_wf r" "s \<le> e" "find_range r s \<noteq> None"
  shows "\<exists>c. rangeset_report_ranges r s e collect_cb [] = (0, c) \<and>
             pairs_set c = rs_set r \<inter> {s..e}"
proof -
  let ?A = "upto_start s (range_list r)" and ?C = "after_start s (range_list r)"
  have l: "range_list r = ?A @ ?C" by (rule start_split)
  obtain A' a where A: "?A = A' @ [a]"
    using assms(3) by (cases ?A rule: rev_cases) (auto simp: find_range_eq)
  have fr: "find_range r s = Some (length A')" using A by (simp add: find_range_eq)
  have wf: "ranges_wf (A' @ a # ?C)" using assms(1) l A by (simp add: rs_wf_def)
  have d: "drop (length A') (range_list r) = a # ?C" by (subst l) (simp add: A)
  have "rng_s a \<le> s" using upto_start_le [of a s "range_list r"] A by simp
  then have "rng_e p < s" if "p \<in> set A'" for p
    using wf that by (fastforce simp: ranges_wf_simps rng_gap_def word_int_simps)
  then have A': "ranges_set A' \<inter> {s..e} = {}" by (fastforce simp: ranges_set_def)
  have S: "rs_set r = ranges_set A' \<union> ranges_set (a # ?C)"
    unfolding rs_set_def by (subst l) (simp add: A Un_assoc)
  have "ranges_wf (a # ?C)" using wf by (simp add: ranges_wf_append)
  from report_loop_collect [OF this assms(2), of "[]"] show ?thesis
    using fr d A' S by (auto simp: rangeset_report_ranges_def pairs_set_def)
qed

section \<open>The count of ranges that may still be allocated\<close>

definition slots :: "rangeset \<Rightarrow> u64" where
  "slots r = nr_ranges r + of_nat (length (range_list r))"

definition accounted :: "rangeset \<Rightarrow> rangeset \<Rightarrow> bool" where
  "accounted r r' \<longleftrightarrow> slots r' = slots r \<and>
     (length (range_list r') \<le> length (range_list r) \<or>
      nr_ranges r \<noteq> 0 \<and> length (range_list r') = Suc (length (range_list r)))"

lemma slots_set [simp]:
  "slots (set_rng_s r i v) = slots r" "slots (set_rng_e r i v) = slots r"
  "length (range_list (set_rng_s r i v)) = length (range_list r)"
  "length (range_list (set_rng_e r i v)) = length (range_list r)"
  "nr_ranges (set_rng_s r i v) = nr_ranges r" "nr_ranges (set_rng_e r i v) = nr_ranges r"
  by (simp_all add: slots_def set_rng_s_def set_rng_e_def)

lemma destroy_range_length [simp]:
  "i < length (range_list r) \<Longrightarrow>
     length (range_list (destroy_range r i)) = length (range_list r) - 1"
  by (simp add: destroy_range_def)

lemma slots_destroy [simp]: "i < length (range_list r) \<Longrightarrow> slots (destroy_range r i) = slots r"
  by (cases "length (range_list r)") (auto simp: slots_def destroy_range_def)

lemma alloc_insert_accounted:
  "alloc_range ok r = Some r1 \<Longrightarrow> length (range_list r2) = length (range_list r1) \<Longrightarrow>
     nr_ranges r2 = nr_ranges r1 \<Longrightarrow> accounted r (fst (insert_range r2 x y))"
  by (auto simp: accounted_def slots_def insert_range_def Let_def alloc_range_def
      split: if_splits)

lemma absorb_loop_accounted:
  "slots (absorb_loop r x) = slots r \<and>
   length (range_list (absorb_loop r x)) \<le> length (range_list r)"
proof (induction r x rule: absorb_loop.induct)
  case (1 r x)
  show ?case
  proof (cases "next_range r x")
    case None
    then show ?thesis by (simp add: absorb_loop.simps [of r x])
  next
    case (Some y)
    then have "y < length (range_list r)" by (auto simp: next_range_def split: if_splits)
    with Some "1.IH" [OF Some] show ?thesis by (auto simp: absorb_loop.simps [of r x])
  qed
qed

lemma add_range_tail_accounted:
  "slots (add_range_tail r x) = slots r \<and>
   length (range_list (add_range_tail r x)) \<le> length (range_list r)"
  by (auto simp: add_range_tail_def next_range_def split: option.splits)

lemma remove_loop_accounted:
  "remove_loop r x y = Some r' \<Longrightarrow> y < length (range_list r) \<Longrightarrow>
   slots r' = slots r \<and> length (range_list r') \<le> length (range_list r) \<and> x < length (range_list r')"
proof (induction r x y rule: remove_loop.induct)
  case (1 r x y)
  show ?case
  proof (cases "x = y")
    case True
    with "1.prems" show ?thesis by (simp add: remove_loop.simps [of r y y])
  next
    case False
    with "1.prems" have c: "x < y \<and> x < length (range_list r)"
      and res: "remove_loop (destroy_range r x) x (y - 1) = Some r'"
      by (auto simp: remove_loop.simps [of r x y] split: if_splits)
    moreover have "y - 1 < length (range_list (destroy_range r x))"
      using c "1.prems" by (simp add: diff_less_mono)
    ultimately have "slots r' = slots (destroy_range r x) \<and>
        length (range_list r') \<le> length (range_list (destroy_range r x)) \<and> x < length (range_list r')"
      using "1.IH" [OF False c res] by blast
    with c show ?thesis by auto
  qed
qed

lemma find_range_bound: "find_range r s = Some i \<Longrightarrow> i < length (range_list r)"
proof -
  assume "find_range r s = Some i"
  moreover have "length (upto_start s (range_list r)) \<le> length (range_list r)"
    by (simp add: upto_start_def length_takeWhile_le)
  ultimately show ?thesis
    by (cases "upto_start s (range_list r)") (auto simp: find_range_eq)
qed

lemma accounted_trans_shrink:
  "accounted r r' \<Longrightarrow> slots r'' = slots r' \<Longrightarrow>
   length (range_list r'') \<le> length (range_list r') \<Longrightarrow> accounted r r''"
  by (auto simp: accounted_def)

lemma accountedI: "slots r' = slots r \<Longrightarrow> length (range_list r') \<le> length (range_list r) \<Longrightarrow> accounted r r'"
  by (simp add: accounted_def)

lemma add_range_same_accounted:
  "add_range_same ok r x s e = Some (r', n) \<Longrightarrow> accounted r r'"
  by (auto simp: add_range_same_def accountedI split: if_splits option.splits)
    (metis alloc_insert_accounted fst_conv)+

lemma add_range_span_accounted:
  "add_range_span r x y s e = Some (r', n) \<Longrightarrow> accounted r r'"
  by (rule accountedI)
    (auto simp: add_range_span_def Let_def absorb_loop_accounted split: if_splits option.splits
      bind_splits intro: order_trans [OF conjunct2 [OF absorb_loop_accounted]])

lemma rangeset_add_range_accounted:
  assumes "rangeset_add_range ok r s e = Some (rc, r')"
  shows "accounted r r'"
proof -
  consider "r' = r" | r1 n where "accounted r r1" "r' = add_range_tail r1 n"
    using assms add_range_same_accounted add_range_span_accounted
    by (fastforce simp: rangeset_add_range_def Let_def split: if_splits option.splits)
  then show ?thesis
    using add_range_tail_accounted accounted_trans_shrink by cases (auto simp: accountedI)
qed

lemma remove_range_same_accounted:
  assumes "remove_range_same ok r x s e = (rc, r')" "\<And>i. x = Some i \<Longrightarrow> i < length (range_list r)"
  shows "accounted r r'"
proof (cases x)
  case None
  with assms show ?thesis by (simp add: remove_range_same_def accountedI)
next
  case (Some i)
  show ?thesis
  proof (cases "\<exists>r1. alloc_range ok r = Some r1 \<and>
      r' = fst (insert_range (set_rng_e r1 i (s - 1)) (Some i) \<lparr>rng_s = e + 1, rng_e = rng_e (range_list r ! i)\<rparr>)")
    case True
    then show ?thesis by (auto intro: alloc_insert_accounted)
  next
    case False
    with assms Some show ?thesis
      by (intro accountedI)
        (auto simp: remove_range_same_def Let_def split: if_splits option.splits)
  qed
qed

lemma remove_range_span_accounted:
  assumes "remove_range_span r x y s e = Some r'" "\<And>i. y = Some i \<Longrightarrow> i < length (range_list r)"
  shows "accounted r r'"
  using assms
  by (intro accountedI)
    (auto simp: remove_range_span_def Let_def split: if_splits option.splits bind_splits
      dest!: remove_loop_accounted)

lemma rangeset_remove_range_accounted:
  assumes "rangeset_remove_range ok r s e = Some (rc, r')"
  shows "accounted r r'"
  using assms remove_range_same_accounted remove_range_span_accounted find_range_bound
  by (auto simp: rangeset_remove_range_def Let_def split: if_splits)

text \<open>
  A set that was limited while empty: the ranges in it and those it may still allocate add up
  to the limit.
\<close>

definition rs_limited :: "nat \<Rightarrow> rangeset \<Rightarrow> bool" where
  "rs_limited n r \<longleftrightarrow>
     length (range_list r) \<le> n \<and> unat (nr_ranges r) + length (range_list r) = n"

lemma accounted_limited:
  assumes "accounted r r'" "rs_limited n r" "n < 2 ^ 64"
  shows "rs_limited n r'"
proof -
  have n: "slots r = of_nat n"
    using assms(2) by (auto simp: rs_limited_def slots_def)
  have le: "length (range_list r') \<le> n"
    using assms(1,2) unat_gt_0 [of "nr_ranges r"] by (auto simp: accounted_def rs_limited_def)
  have "nr_ranges r' = of_nat n - of_nat (length (range_list r'))"
    using assms(1) n by (auto simp: accounted_def slots_def algebra_simps)
  also have "\<dots> = of_nat (n - length (range_list r'))" using le by simp
  finally have "unat (nr_ranges r') = n - length (range_list r')"
    using assms(3) by (simp add: unat_of_nat)
  with le show ?thesis by (simp add: rs_limited_def)
qed

lemma rangeset_limit_limited:
  "range_list r = [] \<Longrightarrow> rs_limited (unat limit) (rangeset_limit r limit)"
  by (simp add: rs_limited_def rangeset_limit_def unat_ucast_up)

section \<open>Destroying sets\<close>

lemma destroy_all_ranges_empty: "range_list (destroy_all_ranges r) = []"
proof (induction r rule: destroy_all_ranges.induct)
  case (1 r)
  then show ?case
    by (subst destroy_all_ranges.simps) (auto simp: first_range_def split: option.splits)
qed

lemma rangeset_destroy_rsets:
  "rsets h a = Some r \<Longrightarrow> \<exists>h'. rangeset_destroy h (Some a) = Some h' \<and>
     rsets h' = (rsets h)(a := None) \<and>
     dom_rangesets h' = (case rs_domain r of None \<Rightarrow> dom_rangesets h
        | Some i \<Rightarrow> (dom_rangesets h)(i := remove1 a (dom_rangesets h i)))"
  by (simp add: rangeset_destroy_def Let_def)

text \<open>The list of a domain holds exactly the sets that belong to it, each once.\<close>

definition owned_sets_ok :: "rs_heap \<Rightarrow> nat \<Rightarrow> bool" where
  "owned_sets_ok h d \<longleftrightarrow> distinct (dom_rangesets h d) \<and>
     (\<forall>a. a \<in> set (dom_rangesets h d) \<longleftrightarrow> (\<exists>r. rsets h a = Some r \<and> rs_domain r = Some d))"

lemma domain_destroy_loop_ok:
  assumes "distinct as" "\<forall>a \<in> set as. \<exists>r. rsets h a = Some r \<and> rs_domain r = Some d"
  shows "\<exists>h'. domain_destroy_loop d as h = Some h' \<and>
     (\<forall>a. rsets h' a = (if a \<in> set as then None else rsets h a)) \<and>
     (as \<noteq> [] \<longrightarrow> dom_rangesets h' d = [])"
  using assms
proof (induction as arbitrary: h)
  case Nil
  then show ?case by simp
next
  case (Cons a as)
  then obtain r where r: "rsets h a = Some r" "rs_domain r = Some d" by auto
  define h1 where "h1 = h\<lparr>rsets := (rsets h)(a \<mapsto> r\<lparr>rs_domain := None\<rparr>),
                         dom_rangesets := (dom_rangesets h)(d := as)\<rparr>"
  have "rsets h1 a = Some (r\<lparr>rs_domain := None\<rparr>)" by (simp add: h1_def)
  from rangeset_destroy_rsets [OF this] obtain h2 where
    h2: "rangeset_destroy h1 (Some a) = Some h2" "rsets h2 = (rsets h)(a := None)"
      "dom_rangesets h2 d = as"
    by (auto simp: h1_def)
  have "\<forall>b \<in> set as. \<exists>r. rsets h2 b = Some r \<and> rs_domain r = Some d"
    using Cons.prems h2(2) by auto
  with Cons.IH [of h2] Cons.prems(1) obtain h' where
    "domain_destroy_loop d as h2 = Some h'"
    "\<forall>b. rsets h' b = (if b \<in> set as then None else rsets h2 b)"
    "as \<noteq> [] \<longrightarrow> dom_rangesets h' d = []" by auto
  moreover have "domain_destroy_loop d (a # as) h = domain_destroy_loop d as h2"
    using r h2(1) by (simp add: h1_def [symmetric] Let_def)
  moreover have "as = [] \<longrightarrow> h' = h2" using calculation(1) by auto
  ultimately show ?case using h2 by auto
qed

section \<open>The capability interface\<close>

text \<open>
  What the users of \<^verbatim>\<open>iocap.h\<close> rely on: permitting a range adds its numbers and nothing
  else, and the query answers inclusion.
\<close>

locale capability_set =
  fixes wf :: "'r \<Rightarrow> bool" and nums :: "'r \<Rightarrow> u64 set"
    and permit :: "'r \<Rightarrow> u64 \<Rightarrow> u64 \<Rightarrow> (int \<times> 'r) option"
    and permitted :: "'r \<Rightarrow> u64 \<Rightarrow> u64 \<Rightarrow> bool"
  assumes permit_ok: "wf r \<Longrightarrow> s \<le> e \<Longrightarrow> permit r s e = Some (0, r') \<Longrightarrow>
      wf r' \<and> nums r' = nums r \<union> {s..e}"
    and permit_fail: "wf r \<Longrightarrow> s \<le> e \<Longrightarrow> permit r s e = Some (rc, r') \<Longrightarrow> rc \<noteq> 0 \<Longrightarrow> r' = r"
    and permit_total: "wf r \<Longrightarrow> s \<le> e \<Longrightarrow> permit r s e \<noteq> None"
    and permitted_iff: "wf r \<Longrightarrow> s \<le> e \<Longrightarrow> permitted r s e \<longleftrightarrow> {s..e} \<subseteq> nums r"
begin

lemma permitted_after_permit:
  assumes "wf r" "s \<le> e" "permit r s e = Some (0, r')"
  shows "permitted r' s e"
  using permit_ok [OF assms] permitted_iff assms(2) by auto

lemma permitted_mono:
  assumes "wf r" "s \<le> e" "permit r s e = Some (rc, r')" "a \<le> b" "permitted r a b"
  shows "permitted r' a b"
proof (cases "rc = 0")
  case True
  with permit_ok [OF assms(1,2)] assms permitted_iff show ?thesis by auto
next
  case False
  with permit_fail [OF assms(1-3)] assms(5) show ?thesis by simp
qed

lemma permit_only_range:
  assumes "wf r" "s \<le> e" "permit r s e = Some (rc, r')" "k \<notin> {s..e}"
  shows "permitted r' k k \<longleftrightarrow> permitted r k k"
proof (cases "rc = 0")
  case True
  with permit_ok [OF assms(1,2)] assms permitted_iff [of _ k k] show ?thesis by auto
next
  case False
  with permit_fail [OF assms(1-3)] show ?thesis by simp
qed

end

interpretation caps: capability_set rs_wf rs_set "rangeset_add_range mem_ok" rangeset_contains_range
  for mem_ok
proof
  fix r r' :: rangeset and s e :: u64
  assume wf: "rs_wf r" and le: "s \<le> e"
  show "rangeset_add_range mem_ok r s e = Some (0, r') \<Longrightarrow>
      rs_wf r' \<and> rs_set r' = rs_set r \<union> {s..e}"
    using rangeset_add_range_correct [OF wf le] by (metis option.inject prod.inject neg_equal_0_iff_equal zero_neq_numeral)
  show "rangeset_add_range mem_ok r s e = Some (rc, r') \<Longrightarrow> rc \<noteq> 0 \<Longrightarrow> r' = r" for rc
    using rangeset_add_range_correct [OF wf le] by (metis option.inject prod.inject)
  show "rangeset_add_range mem_ok r s e \<noteq> None"
    using rangeset_add_range_correct [OF wf le] by (metis option.distinct(1))
  show "rangeset_contains_range r s e \<longleftrightarrow> {s..e} \<subseteq> rs_set r"
    by (rule rangeset_contains_range_iff [OF wf le])
qed

section \<open>Sequences of operations on one set\<close>

datatype rs_op = RsAdd bool u64 u64 | RsRemove bool u64 u64

inductive rs_steps :: "rangeset \<Rightarrow> rs_op list \<Rightarrow> rangeset \<Rightarrow> bool" where
  rs_none: "rs_steps r [] r"
| rs_add: "rs_steps r ops r1 \<Longrightarrow> rangeset_add_range ok r1 s e = Some (rc, r2) \<Longrightarrow>
     rs_steps r (ops @ [RsAdd ok s e]) r2"
| rs_remove: "rs_steps r ops r1 \<Longrightarrow> rangeset_remove_range ok r1 s e = Some (rc, r2) \<Longrightarrow>
     rs_steps r (ops @ [RsRemove ok s e]) r2"

lemma rs_steps_limited:
  assumes "rs_steps r ops r'" "rs_limited n r" "n < 2 ^ 64"
  shows "rs_limited n r'"
  using assms
  by (induction rule: rs_steps.induct)
    (auto intro: accounted_limited rangeset_add_range_accounted rangeset_remove_range_accounted)

section \<open>Properties\<close>

definition rs_example :: rangeset where
  "rs_example = \<lparr>rs_domain = None, range_list = [\<lparr>rng_s = 0, rng_e = 5\<rparr>, \<lparr>rng_s = 20, rng_e = 30\<rparr>],
     nr_ranges = - 1, rs_name = ''iomem'', rs_flags = 1\<rparr>"

lemma rs_example_wf: "rs_wf rs_example"
  by (simp add: rs_wf_def rs_example_def ranges_wf_simps rng_gap_def)

text \<open>
  Property C1. On a well-formed set and a proper range, \<open>rangeset_add_range\<close> never follows
  a \<^verbatim>\<open>NULL\<close> pointer. It either returns 0 and the new set is well formed and holds exactly
  the old numbers and \<open>{s..e}\<close>, or returns \<^verbatim>\<open>-ENOMEM\<close> with the set unchanged, the latter
  only when the allocator failed or the set's limit is used up.
\<close>

theorem rangeset_add_range_adds:
  assumes "rs_wf r" "s \<le> e"
  shows "(\<exists>r'. rangeset_add_range mem_ok r s e = Some (0, r') \<and> rs_wf r' \<and>
              rs_set r' = rs_set r \<union> {s..e}) \<or>
         (rangeset_add_range mem_ok r s e = Some (- ENOMEM, r) \<and> (\<not> mem_ok \<or> nr_ranges r = 0))"
  using rangeset_add_range_correct [OF assms] by metis

theorem rangeset_add_range_adds_witness:
  "\<exists>r'. rangeset_add_range True rs_example 6 19 = Some (0, r') \<and> rs_set r' = rs_set rs_example \<union> {6..19}"
proof -
  have "(6 :: u64) \<le> 19" "nr_ranges rs_example \<noteq> 0" by (simp_all add: rs_example_def)
  then show ?thesis using rangeset_add_range_adds [OF rs_example_wf, of 6 19 True] by auto
qed

text \<open>
  Property C2. \<open>rangeset_remove_range\<close> on a range that ends below the largest address keeps
  the set well formed and removes \<open>{s..e}\<close>; but where the ranges found for \<open>s\<close> and for
  \<open>e\<close> differ, it also adds every number between the end of the lower range and \<open>s\<close>. The
  error return is as for adding.
\<close>

theorem rangeset_remove_range_removes:
  assumes "rs_wf r" "s \<le> e" "e < ULONG_MAX"
  shows "(\<exists>r'. rangeset_remove_range mem_ok r s e = Some (0, r') \<and> rs_wf r' \<and>
              rs_set r' = rs_set r - {s..e} \<union> remove_spill r s e) \<or>
         (rangeset_remove_range mem_ok r s e = Some (- ENOMEM, r) \<and>
          (\<not> mem_ok \<or> nr_ranges r = 0))"
  using rangeset_remove_range_exact [OF assms] by metis

theorem rangeset_remove_range_removes_witness:
  "\<exists>r'. rangeset_remove_range True rs_example 10 25 = Some (0, r') \<and>
        7 \<notin> rs_set rs_example \<and> 7 \<in> rs_set r'"
proof -
  have h: "(10 :: u64) \<le> 25" "(25 :: u64) < ULONG_MAX" "nr_ranges rs_example \<noteq> 0"
    by (simp_all add: rs_example_def)
  have "7 \<in> remove_spill rs_example 10 25"
    by (simp add: remove_spill_def find_range_def rs_example_def)
  moreover have "7 \<notin> rs_set rs_example" by (simp add: rs_set_def rs_example_def)
  ultimately show ?thesis
    using rangeset_remove_range_removes [OF rs_example_wf h(1,2), of True] h(3) by auto
qed

lemma segments_top:
  assumes "rs_wf r" "find_range r s \<noteq> find_range r ULONG_MAX"
  obtains r' where "rangeset_remove_range ok r s ULONG_MAX = Some (0, r')" "0 \<in> rs_set r'"
proof -
  have "rs_wf r" "s \<le> ULONG_MAX" using assms(1) by auto
  then obtain A B C where l: "range_list r = A @ B @ C"
    and seg: "upto_start s (range_list r) = A" "upto_start ULONG_MAX (range_list r) = A @ B"
    and A: "\<forall>x \<in> set A. rng_s x \<le> s" and B: "\<forall>x \<in> set B. s < rng_s x \<and> rng_s x \<le> ULONG_MAX"
    unfolding rs_wf_def by (elim segments)
  note fr = find_range_segments [OF seg]
  have Bne: "B \<noteq> []" using assms(2) fr(3) by simp
  have fe: "find_range r ULONG_MAX = Some (length A + length B - 1)" using fr(2) Bne by simp
  have Bs: "\<forall>x \<in> set B. s < rng_s x" using B by blast
  from remove_span_list [OF l Bne Bs A fr(1) fe, of ULONG_MAX] obtain r' where
    sp: "remove_range_span r (find_range r s) (find_range r ULONG_MAX) s ULONG_MAX = Some r'"
    and r': "range_list r' =
       (if A = [] then []
        else if rng_s (last A) < s then butlast A @ [(last A)\<lparr>rng_e := s - 1\<rparr>] else butlast A)
       @ cut_front (last B) ULONG_MAX @ C" by blast
  have "cut_front (last B) ULONG_MAX = [(last B)\<lparr>rng_s := 0\<rparr>]"
    by (simp add: cut_front_def)
  then have "0 \<in> rs_set r'" using r' by (simp add: rs_set_def)
  moreover have "rangeset_remove_range ok r s ULONG_MAX = Some (0, r')"
    using assms(2) sp by (simp add: rangeset_remove_range_def)
  ultimately show ?thesis using that by blast
qed

text \<open>
  Property C3. Removing up to the largest address, when more than one range is involved,
  wraps \<open>e + 1\<close> to 0: the last range is stretched down to 0 instead of being destroyed, so
  afterwards the set holds 0 whatever it held before.
\<close>

theorem rangeset_remove_to_top_wraps:
  assumes "rs_wf r" "find_range r s \<noteq> find_range r ULONG_MAX"
  shows "\<exists>r'. rangeset_remove_range mem_ok r s ULONG_MAX = Some (0, r') \<and> 0 \<in> rs_set r'"
  using segments_top [OF assms] by metis

theorem rangeset_remove_to_top_wraps_witness:
  "\<exists>r'. rangeset_remove_range True rs_example 0 ULONG_MAX = Some (0, r') \<and> 0 \<in> rs_set r'"
proof -
  have "find_range rs_example 0 \<noteq> find_range rs_example ULONG_MAX"
    by (simp add: find_range_def rs_example_def)
  then show ?thesis by (rule rangeset_remove_to_top_wraps [OF rs_example_wf])
qed

text \<open>
  Property C4. The two queries decide inclusion and intersection: since no two ranges of a
  well-formed set touch, looking at the one range found by the search is enough.
\<close>

theorem rangeset_queries_decide:
  assumes "rs_wf r" "s \<le> e"
  shows "(rangeset_contains_range r s e \<longleftrightarrow> {s..e} \<subseteq> rs_set r) \<and>
         (rangeset_overlaps_range r s e \<longleftrightarrow> {s..e} \<inter> rs_set r \<noteq> {})"
  using rangeset_contains_range_iff [OF assms] rangeset_overlaps_range_iff [OF assms] by blast

theorem rangeset_queries_decide_witness:
  "{20..30} \<subseteq> rs_set rs_example \<and> {6..19} \<inter> rs_set rs_example = {}"
proof -
  have "(20 :: u64) \<le> 30" "(6 :: u64) \<le> 19" by simp_all
  moreover have "rangeset_contains_range rs_example 20 30" "\<not> rangeset_overlaps_range rs_example 6 19"
    by (simp_all add: rangeset_contains_range_def rangeset_overlaps_range_def find_range_def rs_example_def)
  ultimately show ?thesis
    using rangeset_queries_decide [OF rs_example_wf, of 20 30]
      rangeset_queries_decide [OF rs_example_wf, of 6 19] by blast
qed

text \<open>
  Property C5. A set that is limited while it is empty never holds more ranges than the
  limit, whatever sequence of additions and removals runs on it, failed ones included.
\<close>

theorem rangeset_limit_respected:
  assumes "range_list r = []" "rs_steps (rangeset_limit r limit) ops r'"
  shows "length (range_list r') \<le> unat limit"
proof -
  have "unat limit < 2 ^ 64" using unsigned_less [of limit] by (rule order_less_trans) simp
  with rs_steps_limited [OF assms(2) rangeset_limit_limited [OF assms(1)]]
  show ?thesis by (simp add: rs_limited_def)
qed

theorem rangeset_limit_respected_witness:
  "\<exists>r r'. rs_steps (rangeset_limit r 1) [RsAdd True 3 4] r' \<and> range_list r' \<noteq> [] \<and>
     length (range_list r') \<le> unat (1 :: u32)"
proof -
  let ?r = "\<lparr>rs_domain = None, range_list = [], nr_ranges = - 1, rs_name = '''', rs_flags = 0\<rparr>"
  let ?r' = "?r\<lparr>range_list := [\<lparr>rng_s = 3, rng_e = 4\<rparr>], nr_ranges := 0\<rparr>"
  have "rangeset_add_range True (rangeset_limit ?r 1) 3 4 = Some (0, ?r')"
    by (simp add: rangeset_add_range_def rangeset_limit_def find_range_def add_range_same_def
        alloc_range_def insert_range_def list_add_at_def add_range_tail_def next_range_def)
  from rs_add [OF rs_none this] have st: "rs_steps (rangeset_limit ?r 1) [RsAdd True 3 4] ?r'" by simp
  then have "length (range_list ?r') \<le> unat (1 :: u32)"
    by (intro rangeset_limit_respected [OF _ st]) simp
  with st show ?thesis by (metis list.distinct(1) rangeset.select_convs(2) rangeset.update_convs(2) rangeset.update_convs(3))
qed

text \<open>
  Property C6. Granting a domain I/O memory with \<open>iomem_permit_access\<close> makes the range
  accessible when it succeeds, never withdraws a permission it had, and permits no other frame.
\<close>

theorem iomem_permit_access_grants:
  assumes "rs_wf (iomem_caps d)" "s \<le> e" "iomem_permit_access mem_ok d s e = Some (rc, d')"
  shows "(rc = 0 \<longrightarrow> iomem_access_permitted d' s e) \<and>
         (\<forall>a b. a \<le> b \<longrightarrow> iomem_access_permitted d a b \<longrightarrow> iomem_access_permitted d' a b) \<and>
         (\<forall>k. k \<notin> {s..e} \<longrightarrow> iomem_access_permitted d' k k = iomem_access_permitted d k k) \<and>
         irq_caps d' = irq_caps d"
proof -
  from assms(3) obtain r' where r': "rangeset_add_range mem_ok (iomem_caps d) s e = Some (rc, r')"
    and d': "d' = d\<lparr>iomem_caps := r'\<rparr>"
    by (auto simp: iomem_permit_access_def upd_caps_def)
  show ?thesis
    using caps.permitted_after_permit [OF assms(1,2)] caps.permitted_mono [OF assms(1,2) r']
      caps.permit_only_range [OF assms(1,2) r'] r'
    by (auto simp: d' iomem_access_permitted_def)
qed

theorem iomem_permit_access_grants_witness:
  "\<exists>d'. iomem_permit_access True \<lparr>iomem_caps = rs_example, irq_caps = rs_example\<rparr> 6 19 = Some (0, d') \<and>
     iomem_access_permitted d' 6 19"
proof -
  let ?d = "\<lparr>iomem_caps = rs_example, irq_caps = rs_example\<rparr>"
  have ev: "rangeset_add_range True rs_example 6 19 =
      Some (0, rs_example\<lparr>range_list := [\<lparr>rng_s = 0, rng_e = 30\<rparr>], nr_ranges := 0\<rparr>)"
    by (simp add: rangeset_add_range_def rs_example_def find_range_def add_range_same_def
        set_rng_e_def add_range_tail_def next_range_def destroy_range_def list_del_at_def)
  then obtain d' where "iomem_permit_access True ?d 6 19 = Some (0, d')"
    by (auto simp: iomem_permit_access_def upd_caps_def)
  with iomem_permit_access_grants [of ?d 6 19 True 0 d'] rs_example_wf show ?thesis by auto
qed
end
