(* ===== verification/Aet_Index.thy ===== *)
theory Aet_Index
  imports Prelude
begin

text \<open>
  The compressed index of a reuse distance, \<^verbatim>\<open>domain_value_to_index\<close> of
  \<^verbatim>\<open>xen/arch/x86/aet.c\<close>: distances are counted exactly up to 256, then in buckets whose
  width doubles every 256 buckets. The two loops of the C function run on 64-bit words and
  have no termination argument that holds for every input, so they are partial functions
  whose \<open>None\<close> is a loop that never ends. The reference \<open>index_of\<close> on natural numbers
  follows the self-similarity of the scheme instead of the loops.
\<close>

section \<open>The C loops\<close>

abbreviation (input) domain :: u64 where "domain \<equiv> 256"

partial_function (option) value_to_index_outer ::
    "u64 \<Rightarrow> u64 \<Rightarrow> u64 \<Rightarrow> u64 \<Rightarrow> (u64 \<times> u64 \<times> u64) option" where
  "value_to_index_outer value loc step index =
     (if loc + step * domain < value
      then value_to_index_outer value (loc + step * domain) (step * 2) (index + domain)
      else Some (loc, step, index))"

partial_function (option) value_to_index_inner ::
    "u64 \<Rightarrow> u64 \<Rightarrow> u64 \<Rightarrow> u64 \<Rightarrow> u64 option" where
  "value_to_index_inner value loc step index =
     (if loc < value then value_to_index_inner value (loc + step) step (index + 1)
      else Some index)"

definition domain_value_to_index :: "u64 \<Rightarrow> u64 option" where
  "domain_value_to_index value =
     do {
       (loc, step, index) \<leftarrow> value_to_index_outer value 0 1 0;
       value_to_index_inner value loc step index
     }"

section \<open>The reference\<close>

fun index_of :: "nat \<Rightarrow> nat" where
  "index_of v = (if v \<le> 256 then v else 256 + index_of ((v - 256 + 1) div 2))"

declare index_of.simps [simp del]

lemma index_of_small: "v \<le> 256 \<Longrightarrow> index_of v = v"
  by (simp add: index_of.simps)

lemma index_of_big: "256 < v \<Longrightarrow> index_of v = 256 + index_of ((v - 256 + 1) div 2)"
  by (simp add: index_of.simps)

lemma index_of_mono: "u \<le> v \<Longrightarrow> index_of u \<le> index_of v"
proof (induction v arbitrary: u rule: index_of.induct)
  case (1 v)
  show ?case
  proof (cases "256 < u")
    case True
    with "1.prems" have "256 < v" by simp
    moreover have "(u - 256 + 1) div 2 \<le> (v - 256 + 1) div 2"
      using "1.prems" by (intro div_le_mono) simp
    ultimately show ?thesis using "1.IH" True by (simp add: index_of_big)
  next
    case False
    then show ?thesis using "1.prems" by (cases "v \<le> 256") (auto simp: index_of_small index_of_big)
  qed
qed

lemma index_of_Suc: "index_of (Suc v) \<le> Suc (index_of v)"
proof (induction v rule: index_of.induct)
  case (1 v)
  consider "Suc v \<le> 256" | "v = 256" | "256 < v" by linarith
  then show ?case
  proof cases
    case 3
    let ?w = "(v - 256 + 1) div 2"
    have "(Suc v - 256 + 1) div 2 = ?w \<or> (Suc v - 256 + 1) div 2 = Suc ?w" using 3 by linarith
    with 3 "1.IH" show ?thesis by (auto simp: index_of_big)
  qed (simp_all add: index_of_small index_of_big)
qed

text \<open>The level of a value: how often the bucket width has doubled.\<close>

definition at_level :: "nat \<Rightarrow> nat \<Rightarrow> bool" where
  "at_level k v \<longleftrightarrow> 256 * (2 ^ k - 1) < v + (if k = 0 then 1 else 0) \<and> v \<le> 256 * (2 ^ Suc k - 1)"

definition ceil_div :: "nat \<Rightarrow> nat \<Rightarrow> nat" where
  "ceil_div a b = (a + b - 1) div b"

lemma ceil_div_double:
  "0 < b \<Longrightarrow> ceil_div ((a + 1) div 2) b = ceil_div a (2 * b)"
proof -
  assume "0 < b"
  have "(a + 1) div 2 + b - 1 = (a + 1 + 2 * (b - 1)) div 2" using \<open>0 < b\<close> by linarith
  then have "((a + 1) div 2 + b - 1) div b = ((a + 1 + 2 * (b - 1)) div 2) div b" by simp
  also have "\<dots> = (a + 1 + 2 * (b - 1)) div (2 * b)" by (simp add: div_mult2_eq)
  also have "a + 1 + 2 * (b - 1) = a + 2 * b - 1" using \<open>0 < b\<close> by simp
  finally show ?thesis by (simp add: ceil_div_def)
qed

lemma index_of_at_level:
  "at_level k v \<Longrightarrow> index_of v = 256 * k + ceil_div (v - 256 * (2 ^ k - 1)) (2 ^ k)"
proof (induction k arbitrary: v)
  case 0
  then show ?case by (simp add: at_level_def index_of_small ceil_div_def)
next
  case (Suc k)
  let ?w = "(v - 256 + 1) div 2"
  obtain q :: nat where q: "2 ^ k = q" "1 \<le> q" by simp
  have lv: "256 * (2 * q - 1) < v" "v \<le> 256 * (4 * q - 1)"
    using Suc.prems q by (simp_all add: at_level_def)
  then have v: "256 < v" using q(2) by linarith
  have "at_level k ?w" using lv q(2) by (auto simp: at_level_def q(1))
  then have "index_of v = 256 + (256 * k + ceil_div (?w - 256 * (2 ^ k - 1)) (2 ^ k))"
    using Suc.IH v by (simp add: index_of_big)
  moreover have "?w - 256 * (2 ^ k - 1) = (v - 256 * (2 ^ Suc k - 1) + 1) div 2"
    using lv q(2) by (simp add: q(1))
  ultimately show ?case using ceil_div_double [of "2 ^ k"] by simp
qed

lemma at_level_exists: "\<exists>k. at_level k v"
proof -
  have "v \<le> 256 * (2 ^ Suc v - 1)"
  proof -
    have "v < 2 ^ v" by (rule less_exp)
    then show ?thesis unfolding power_Suc by linarith
  qed
  then have ex: "\<exists>k. v \<le> 256 * (2 ^ Suc k - 1)" by blast
  define k where "k = (LEAST k. v \<le> 256 * (2 ^ Suc k - 1))"
  have up: "v \<le> 256 * (2 ^ Suc k - 1)" unfolding k_def using ex by (rule LeastI_ex)
  have least: "\<not> v \<le> 256 * (2 ^ Suc j - 1)" if "j < k" for j
    using that unfolding k_def by (rule not_less_Least)
  have "k = 0 \<or> 256 * (2 ^ k - 1) < v"
  proof (cases k)
    case (Suc j)
    then show ?thesis using least [of j] by (simp only: lessI not_le simp_thms)
  qed simp
  with up have "at_level k v" unfolding at_level_def by auto
  then show ?thesis by blast
qed

lemma at_level_bound: "at_level k v \<Longrightarrow> v \<le> 2 ^ 64 - 256 \<Longrightarrow> k \<le> 55"
proof (rule ccontr)
  assume a: "at_level k v" "v \<le> 2 ^ 64 - 256" "\<not> k \<le> 55"
  then have "(2::nat) ^ 56 \<le> 2 ^ k" by (intro power_increasing) auto
  with a show False by (auto simp: at_level_def)
qed

section \<open>The loops compute the reference\<close>

lemma inner_loop:
  assumes "unat loc + n * unat step < 2 ^ 64" "unat value \<le> unat loc + n * unat step"
    "0 < n \<longrightarrow> unat loc + (n - 1) * unat step < unat value"
  shows "value_to_index_inner value loc step index = Some (index + of_nat n)"
  using assms
proof (induction n arbitrary: loc index)
  case 0
  then show ?case by (subst value_to_index_inner.simps) (simp add: word_less_nat_alt)
next
  case (Suc n)
  have no: "unat (loc + step) = unat loc + unat step"
    using Suc.prems(1) by (simp add: unat_add_lem [symmetric])
  have "loc < value" using Suc.prems(3) by (simp add: word_less_nat_alt)
  moreover have "value_to_index_inner value (loc + step) step (index + 1)
      = Some (index + 1 + of_nat n)"
    using Suc.prems by (intro Suc.IH) (auto simp: no algebra_simps gr0_conv_Suc)
  ultimately show ?case by (subst value_to_index_inner.simps) (simp add: algebra_simps)
qed

lemma ceil_div_props:
  assumes "0 < b"
  shows "a \<le> ceil_div a b * b" "0 < ceil_div a b \<longrightarrow> (ceil_div a b - 1) * b < a"
proof -
  have e: "a + b - 1 = ceil_div a b * b + (a + b - 1) mod b" by (simp add: ceil_div_def)
  have "(a + b - 1) mod b < b" using assms by simp
  then show "a \<le> ceil_div a b * b" using e by linarith
  show "0 < ceil_div a b \<longrightarrow> (ceil_div a b - 1) * b < a"
  proof
    assume "0 < ceil_div a b"
    then have "b \<le> ceil_div a b * b" by simp
    then show "(ceil_div a b - 1) * b < a" 
      using e assms unfolding diff_mult_distrib mult_1 by linarith
  qed
qed

lemma ceil_div_le: "a \<le> n * b \<Longrightarrow> 0 < b \<Longrightarrow> ceil_div a b \<le> n"
  unfolding ceil_div_def by (rule less_Suc_eq_le [THEN iffD1], rule less_mult_imp_div_less) simp

lemma outer_step_no_overflow:
  assumes "k \<le> 55"
  shows "unat (256 * (2 ^ k - 1) + 2 ^ k * 256 :: u64) = 256 * (2 ^ Suc k - 1)"
    "unat (256 * (2 ^ k - 1) :: u64) = 256 * (2 ^ k - 1)" "unat (2 ^ k :: u64) = 2 ^ k"
proof -
  have "(2::nat) ^ k \<le> 2 ^ 55" using assms by (intro power_increasing) auto
  then have p: "(2::nat) ^ k \<le> 36028797018963968" by simp
  have a: "2 ^ k = (of_nat (2 ^ k) :: u64)" by simp
  show "unat (2 ^ k :: u64) = 2 ^ k" unfolding a using p by (intro unat_of_nat64) linarith
  have b: "256 * (2 ^ k - 1) = (of_nat (256 * (2 ^ k - 1)) :: u64)" by (simp add: of_nat_diff)
  show "unat (256 * (2 ^ k - 1) :: u64) = 256 * (2 ^ k - 1)"
    unfolding b using p by (intro unat_of_nat64) linarith
  have d: "256 * (2 ^ k - 1) + 2 ^ k * 256 = (of_nat (256 * (2 ^ Suc k - 1)) :: u64)"
    by (simp add: of_nat_diff algebra_simps)
  show "unat (256 * (2 ^ k - 1) + 2 ^ k * 256 :: u64) = 256 * (2 ^ Suc k - 1)"
    unfolding d using p by (intro unat_of_nat64) (unfold power_Suc, linarith)
qed

lemma outer_loop:
  assumes "k + d \<le> 55" "at_level (k + d) (unat value)"
  shows "value_to_index_outer value (256 * (2 ^ k - 1)) (2 ^ k) (256 * of_nat k)
    = Some (256 * (2 ^ (k + d) - 1), 2 ^ (k + d), 256 * of_nat (k + d))"
  using assms
proof (induction d arbitrary: k)
  case 0
  then have "\<not> 256 * (2 ^ k - 1) + 2 ^ k * 256 < value"
    unfolding word_less_nat_alt by (subst outer_step_no_overflow) (simp_all add: at_level_def)
  then show ?case by (subst value_to_index_outer.simps) (simp only: if_False add_0_right)
next
  case (Suc d)
  have "256 * (2 ^ (k + Suc d) - 1) < unat value" using Suc.prems(2) by (simp add: at_level_def)
  moreover have "(2::nat) ^ Suc k \<le> 2 ^ (k + Suc d)" by (intro power_increasing) auto
  ultimately have "256 * (2 ^ Suc k - 1) < unat value" by linarith
  then have c: "256 * (2 ^ k - 1) + 2 ^ k * 256 < value"
    using Suc.prems(1) unfolding word_less_nat_alt by (subst outer_step_no_overflow) simp_all
  have "256 * (2 ^ k - 1) + 2 ^ k * 256 = (256 * (2 ^ Suc k - 1) :: u64)"
    "2 ^ k * 2 = (2 ^ Suc k :: u64)" "256 * of_nat k + 256 = (256 * of_nat (Suc k) :: u64)"
    by (simp_all add: algebra_simps)
  with c show ?case using Suc.IH [of "Suc k"] Suc.prems
    by (subst value_to_index_outer.simps) (simp only: if_True add_Suc_shift)
qed

lemma domain_value_to_index_eq:
  assumes v: "unat value \<le> 2 ^ 64 - 256"
  shows "domain_value_to_index value = Some (of_nat (index_of (unat value)))"
proof -
  obtain k where k: "at_level k (unat value)" using at_level_exists by blast
  then have k55: "k \<le> 55" using v by (rule at_level_bound)
  let ?loc = "256 * (2 ^ k - 1) :: u64" and ?n = "ceil_div (unat value - 256 * (2 ^ k - 1)) (2 ^ k)"
  have outer: "value_to_index_outer value 0 1 0 = Some (?loc, 2 ^ k, 256 * of_nat k)"
    using outer_loop [of 0 k "value"] k k55 by simp
  have n: "unat value \<le> 256 * (2 ^ k - 1) + ?n * 2 ^ k"
    "0 < ?n \<longrightarrow> 256 * (2 ^ k - 1) + (?n - 1) * 2 ^ k < unat value"
    using ceil_div_props [where b = "2 ^ k" and a = "unat value - 256 * (2 ^ k - 1)"]
    unfolding less_diff_conv by (simp_all add: add.commute)
  have "?n \<le> 256" using k by (intro ceil_div_le) (auto simp: at_level_def)
  moreover have p: "(2::nat) ^ k \<le> 2 ^ 55" using k55 by (intro power_increasing) auto
  ultimately have "?n * 2 ^ k \<le> 256 * 2 ^ 55" by (rule mult_le_mono)
  moreover have "256 * (2 ^ k - 1) < (256 * 2 ^ 55 :: nat)" using p by simp
  ultimately have "256 * (2 ^ k - 1) + ?n * 2 ^ k < 2 ^ 64" by simp
  then have "value_to_index_inner value ?loc (2 ^ k) (256 * of_nat k)
      = Some (256 * of_nat k + of_nat ?n)"
    using n by (intro inner_loop) (simp_all only: outer_step_no_overflow [OF k55])
  then show ?thesis
    by (simp add: domain_value_to_index_def outer index_of_at_level [OF k])
qed

lemma index_of_bound: "v \<le> 2 ^ 64 - 256 \<Longrightarrow> index_of v \<le> 14336"
proof -
  assume "v \<le> 2 ^ 64 - 256"
  then have "index_of v \<le> index_of (2 ^ 64 - 256)" by (rule index_of_mono)
  also have "\<dots> = 14336"
    by (subst index_of_at_level [of 55]) (simp_all add: at_level_def ceil_div_def)
  finally show ?thesis .
qed

section \<open>The values on which the first loop never ends\<close>

definition outer_reach :: "u64 \<Rightarrow> u64 \<Rightarrow> bool" where
  "outer_reach loc step \<longleftrightarrow>
     (\<exists>k\<le>55. loc = 256 * (2 ^ k - 1) \<and> step = 2 ^ k) \<or> loc = - 256 \<and> step * 256 = 0"

lemma outer_reach_step:
  assumes "outer_reach loc step" "2 ^ 64 - 256 < unat value"
  shows "outer_reach (loc + step * 256) (step * 2)" "loc + step * 256 < value"
proof -
  have big: "- 256 < value" using assms(2) by (simp add: word_less_nat_alt)
  consider (level) k where "k \<le> 55" "loc = 256 * (2 ^ k - 1)" "step = 2 ^ k"
    | (top) "loc = - 256" "step * 256 = 0" using assms(1) by (auto simp: outer_reach_def)
  then have "outer_reach (loc + step * 256) (step * 2) \<and> loc + step * 256 < value"
  proof cases
    case level
    have n: "loc + step * 256 = 256 * (2 ^ Suc k - 1)" "step * 2 = 2 ^ Suc k"
      using level by (simp_all add: algebra_simps)
    have "outer_reach (loc + step * 256) (step * 2)"
    proof (cases "k = 55")
      case True
      then show ?thesis by (simp add: outer_reach_def n)
    next
      case False
      then show ?thesis using level(1) unfolding outer_reach_def n
        by (intro disjI1 exI [of _ "Suc k"]) auto
    qed
    moreover have "unat (loc + step * 256) \<le> 2 ^ 64 - 256"
    proof -
      have "(2::nat) ^ Suc k \<le> 2 ^ 56" using level(1) by (intro power_increasing) auto
      then show ?thesis using level by (simp only: outer_step_no_overflow) simp
    qed
    ultimately show ?thesis using assms(2) by (simp add: word_less_nat_alt)
  next
    case top
    have "step * 2 * 256 = 2 * (step * 256)" by (simp only: mult.assoc mult.commute mult.left_commute)
    with top have "step * 2 * 256 = 0" by simp
    then show ?thesis using top big by (simp add: outer_reach_def)
  qed
  then show "outer_reach (loc + step * 256) (step * 2)" "loc + step * 256 < value" by blast+
qed

lemma outer_loop_diverges:
  assumes "2 ^ 64 - 256 < unat value" "outer_reach loc step"
  shows "value_to_index_outer value loc step index = None"
proof (rule ccontr)
  assume "\<not> ?thesis"
  then obtain y where "value_to_index_outer value loc step index = Some y" by auto
  then have "\<not> (2 ^ 64 - 256 < unat value \<and> outer_reach loc step)"
  proof (rule value_to_index_outer.raw_induct
      [where P = "\<lambda>v l s i y. \<not> (2 ^ 64 - 256 < unat v \<and> outer_reach l s)", rotated])
    fix f :: "u64 \<Rightarrow> u64 \<Rightarrow> u64 \<Rightarrow> u64 \<Rightarrow> (u64 \<times> u64 \<times> u64) option" and v l s i y
    assume ih: "\<And>v l s i y. f v l s i = Some y \<Longrightarrow> \<not> (2 ^ 64 - 256 < unat v \<and> outer_reach l s)"
      and y: "(if l + s * 256 < v then f v (l + s * 256) (s * 2) (i + 256)
               else Some (l, s, i)) = Some y"
    show "\<not> (2 ^ 64 - 256 < unat v \<and> outer_reach l s)"
    proof
      assume "2 ^ 64 - 256 < unat v \<and> outer_reach l s"
      then have "l + s * 256 < v" "outer_reach (l + s * 256) (s * 2)" "2 ^ 64 - 256 < unat v"
        using outer_reach_step [of l s v] by blast+
      with y ih [of v "l + s * 256" "s * 2" "i + 256" y] show False by simp
    qed
  qed
  with assms show False by blast
qed

lemma domain_value_to_index_diverges:
  "2 ^ 64 - 256 < unat value \<Longrightarrow> domain_value_to_index value = None"
proof -
  assume a: "2 ^ 64 - 256 < unat value"
  have "outer_reach 0 1" unfolding outer_reach_def by (intro disjI1 exI [of _ 0]) simp
  with a show ?thesis by (simp add: domain_value_to_index_def outer_loop_diverges)
qed

lemma domain_value_to_index_SomeD:
  assumes "domain_value_to_index value = Some i"
  shows "unat i = index_of (unat value)" "unat i \<le> 14336"
proof -
  have v: "unat value \<le> 2 ^ 64 - 256"
    using assms domain_value_to_index_diverges [of "value"]
    by (cases "unat value \<le> 2 ^ 64 - 256") auto
  then have "i = of_nat (index_of (unat value))" using assms by (simp add: domain_value_to_index_eq)
  then show "unat i = index_of (unat value)" "unat i \<le> 14336"
    using index_of_bound [OF v] by (simp_all add: unat_of_nat64)
qed

text \<open>Two values with the same index differ by less than a 256th of them.\<close>

lemma index_of_resolution:
  "index_of u = index_of v \<Longrightarrow> u < v \<Longrightarrow> 256 * (v - u) < u"
proof (induction v arbitrary: u rule: index_of.induct)
  case (1 v)
  let ?u = "(u - 256 + 1) div 2" and ?v = "(v - 256 + 1) div 2"
  have v: "256 < v"
    using "1.prems" by (cases "256 < v") (auto simp: index_of_small)
  have "0 < index_of ?v"
  proof -
    have "index_of 1 \<le> index_of ?v" using v by (intro index_of_mono) linarith
    then show ?thesis by (simp add: index_of_small)
  qed
  then have u: "256 < u" using "1.prems" v by (cases "256 < u") (auto simp: index_of_small index_of_big)
  have same: "index_of ?u = index_of ?v" using "1.prems"(1) u v by (simp add: index_of_big)
  have le: "?u \<le> ?v" using "1.prems"(2) by (intro div_le_mono) simp
  show ?case
  proof (cases "?u = ?v")
    case True
    then have "v - u \<le> 1" using u v by linarith
    then show ?thesis using u by simp
  next
    case False
    then have "256 * (?v - ?u) < ?u" using "1.IH" [of ?u] same le v by simp
    moreover have "v - u \<le> 2 * (?v - ?u) + 1" using u v le by linarith
    moreover have "2 * ?u \<le> u - 255" using u by linarith
    ultimately show ?thesis using u by linarith
  qed
qed

section \<open>Properties\<close>

text \<open>
  Property C7. \<^verbatim>\<open>domain_value_to_index\<close> returns on exactly the values up to \<open>2^64 - 256\<close>
  (above, its first loop reaches a step that is zero modulo \<open>2^64\<close> and never ends). Where it
  returns, it computes the reference index, which is below the \<^verbatim>\<open>MAX_PAGE_NUM\<close> entries of
  the histogram.
\<close>
theorem domain_value_to_index_correct:
  "case domain_value_to_index value of
     None \<Rightarrow> 2 ^ 64 - 256 < unat value
   | Some i \<Rightarrow> unat value \<le> 2 ^ 64 - 256 \<and> unat i = index_of (unat value) \<and> i < 50000"
proof (cases "unat value \<le> 2 ^ 64 - 256")
  case True
  then show ?thesis using index_of_bound [OF True]
    by (simp add: domain_value_to_index_eq word_less_nat_alt unat_of_nat64)
next
  case False
  then show ?thesis using domain_value_to_index_diverges [of "value"] by simp
qed

text \<open>
  Property C8. The compression keeps the order of reuse distances, is exact up to 256, and
  puts two different distances in one histogram entry only when they differ by less than a
  256th of the smaller.
\<close>
theorem domain_value_to_index_compression:
  assumes "domain_value_to_index u = Some i" "domain_value_to_index v = Some j" "u < v"
  shows "i \<le> j \<and> (u \<le> 256 \<longrightarrow> i = u) \<and> (i = j \<longrightarrow> 256 * (unat v - unat u) < unat u)"
proof -
  have lt: "unat u < unat v" using assms(3) by (simp add: word_less_nat_alt)
  have i: "unat i = index_of (unat u)" and j: "unat j = index_of (unat v)"
    using assms by (simp_all add: domain_value_to_index_SomeD)
  have "i \<le> j" using index_of_mono [of "unat u" "unat v"] lt by (simp add: word_le_nat_alt i j)
  moreover have "i = u" if "u \<le> 256"
    using that i by (intro unsigned_word_eqI) (simp add: word_le_nat_alt index_of_small)
  moreover have "256 * (unat v - unat u) < unat u" if "i = j"
    using that i j lt by (intro index_of_resolution) simp_all
  ultimately show ?thesis by blast
qed

theorem domain_value_to_index_compression_witness:
  "domain_value_to_index 1000 = Some 570 \<and> domain_value_to_index 1100 = Some 595
   \<and> (570::u64) \<le> 595"
proof -
  have a: "domain_value_to_index 1000 = Some 570" "domain_value_to_index 1100 = Some 595"
    by (simp_all add: domain_value_to_index_eq index_of.simps)
  show ?thesis using a domain_value_to_index_compression [OF a] by simp
qed
end
