(* ===== verification/Aet_Pmu.thy ===== *)
theory Aet_Pmu
  imports Prelude
begin

text \<open>
  The performance-monitoring half of \<^verbatim>\<open>xen/arch/x86/xc_reserved_op.c\<close>: programming, reading
  and stopping the counters of a CPU through its model-specific registers. A register is the
  pair of halves that \<^verbatim>\<open>rdmsr\<close> and \<^verbatim>\<open>wrmsr\<close> move through \<^verbatim>\<open>edx:eax\<close>; a state holds the
  registers of every CPU and the two globals of the file. \<^verbatim>\<open>on_selected_cpus\<close> runs its
  function on the one CPU of the mask and waits for it, so it is the call itself.
  An access outside the table of events is \<open>None\<close>. A register holds what was last written to it:
  what the hardware does with a write, such as clearing status bits on a write of ones to the
  overflow-control register, and the counting itself are not modelled.
\<close>

section \<open>Constants and state\<close>

abbreviation (input) IA32_PMC0 :: u32 where "IA32_PMC0 \<equiv> 0xC1"
abbreviation (input) IA32_PERFEVTSEL0 :: u32 where "IA32_PERFEVTSEL0 \<equiv> 0x186"
abbreviation (input) IA32_PERF_GLOBAL_STATUS :: u32 where "IA32_PERF_GLOBAL_STATUS \<equiv> 0x38E"
abbreviation (input) IA32_PERF_GLOBAL_CTRL :: u32 where "IA32_PERF_GLOBAL_CTRL \<equiv> 0x38F"
abbreviation (input) IA32_PERF_GLOBAL_OVF_CTRL :: u32 where "IA32_PERF_GLOBAL_OVF_CTRL \<equiv> 0x390"
abbreviation (input) IA32_FIXED_CTR_CTRL :: u32 where "IA32_FIXED_CTR_CTRL \<equiv> 0x38D"
abbreviation (input) IA32_FIXED_CTR :: u32 where "IA32_FIXED_CTR \<equiv> 0x309"
abbreviation (input) Enable_counters :: nat where "Enable_counters \<equiv> 22"
abbreviation (input) OS :: nat where "OS \<equiv> 17"
abbreviation (input) USR :: nat where "USR \<equiv> 16"
abbreviation (input) PMC_N :: nat where "PMC_N \<equiv> 4"
abbreviation (input) FIXED_N :: nat where "FIXED_N \<equiv> 3"
abbreviation (input) PMC_N_MASK :: u64 where "PMC_N_MASK \<equiv> 0xF"
abbreviation (input) FIXED_N_MASK :: u64 where "FIXED_N_MASK \<equiv> 0x700000000"
abbreviation (input) FIXED_CONTROL :: u64 where "FIXED_CONTROL \<equiv> 7"

record event =
  ev_event :: u32
  ev_umask :: u32
  ev_tmask :: u32

definition mk_event :: "u32 \<Rightarrow> u32 \<Rightarrow> u32 \<Rightarrow> event" where
  "mk_event e u t = \<lparr>ev_event = e, ev_umask = u, ev_tmask = t\<rparr>"

definition events :: "event list list" where
  "events =
     [[mk_event 0x8 0x2 0, mk_event 0xd0 0x81 0, mk_event 0x49 0x2 0, mk_event 0xd0 0x82 0],
      [mk_event 0xd1 0x1 0, mk_event 0xd1 0x2 0, mk_event 0xd1 0x4 0, mk_event 0xd1 0x20 0],
      [mk_event 0x2e 0x4f 0, mk_event 0x2e 0x41 0, mk_event 0x51 0x1 0, mk_event 0xf1 0x7 0],
      [mk_event 0xcd 0x1 0, mk_event 0xa3 0x5 0x5000000, mk_event 0xa3 0xc 0x6000000,
       mk_event 0xa3 0x4 0x4000000],
      [mk_event 0x8 0xe 0, mk_event 0x49 0xe 0, mk_event 0xbd 0x1 0, mk_event 0xbd 0x20 0],
      [mk_event 0x8 0x10 0, mk_event 0x49 0x10 0, mk_event 0xa3 0xc 0x6000000,
       mk_event 0xa3 0x5 0x5000000]]"

record pmu =
  msrs :: "int \<Rightarrow> u32 \<Rightarrow> u32 \<times> u32"
  pmu_base :: u64
  events_selector :: int

section \<open>Register access\<close>

definition trans64to32 :: "u64 \<Rightarrow> u32 \<times> u32" where
  "trans64to32 src = (ucast (drop_bit 32 src), ucast src)"

definition trans32to64 :: "u32 \<Rightarrow> u32 \<Rightarrow> u64" where
  "trans32to64 srch srcl = push_bit 32 (ucast srch) + ucast srcl"

definition rdmsr_on_cpu :: "int \<Rightarrow> u32 \<Rightarrow> pmu \<Rightarrow> u64" where
  "rdmsr_on_cpu cpu msrReg s = (case msrs s cpu msrReg of (valh, vall) \<Rightarrow> trans32to64 valh vall)"

definition wrmsr_on_cpu :: "int \<Rightarrow> u32 \<Rightarrow> u64 \<Rightarrow> pmu \<Rightarrow> pmu" where
  "wrmsr_on_cpu cpu msrReg val s =
     s\<lparr>msrs := (msrs s)(cpu := (msrs s cpu)(msrReg := trans64to32 val))\<rparr>"

section \<open>Starting the counters\<close>

definition init_evtsel :: "int \<Rightarrow> u32 \<Rightarrow> u32 \<Rightarrow> u32 \<Rightarrow> u32 \<Rightarrow> pmu \<Rightarrow> pmu" where
  "init_evtsel cpu counter event umask tmask s =
     (let evtsel = IA32_PERFEVTSEL0 + counter;
          pmc = IA32_PMC0 + counter;
          val = ucast (event OR push_bit 8 umask);
          val = val OR push_bit USR 1;
          val = val XOR ucast tmask;
          s = wrmsr_on_cpu cpu evtsel val s
      in wrmsr_on_cpu cpu pmc (pmu_base s) s)"

definition set_msr_bits :: "int \<Rightarrow> u32 \<Rightarrow> u64 \<Rightarrow> pmu \<Rightarrow> pmu" where
  "set_msr_bits cpu r bits s = wrmsr_on_cpu cpu r (rdmsr_on_cpu cpu r s OR bits) s"

definition start_pmu :: "int \<Rightarrow> int \<Rightarrow> pmu \<Rightarrow> pmu option" where
  "start_pmu cpu arg2 s =
     (let s = set_msr_bits cpu IA32_PERF_GLOBAL_CTRL (PMC_N_MASK OR FIXED_N_MASK) s;
          s = set_msr_bits cpu IA32_PERF_GLOBAL_OVF_CTRL (PMC_N_MASK OR FIXED_N_MASK) s;
          s = s\<lparr>events_selector := arg2\<rparr>
      in if arg2 < 0 \<or> int (length events) \<le> arg2 then None
      else
        (let evs = events ! nat arg2;
             s = fold (\<lambda>i s. init_evtsel cpu (of_nat i) (ev_event (evs ! i)) (ev_umask (evs ! i))
                               (ev_tmask (evs ! i)) s) [0..<PMC_N] s;
             s = fold (\<lambda>i s. set_msr_bits cpu (IA32_PERFEVTSEL0 + of_nat i)
                               (push_bit Enable_counters 1) s) [0..<PMC_N] s;
             (val, s) = fold (\<lambda>i (val, s). (push_bit 4 val OR FIXED_CONTROL,
                               wrmsr_on_cpu cpu (IA32_FIXED_CTR + of_nat i) 0 s)) [0..<FIXED_N] (0, s)
         in Some (wrmsr_on_cpu cpu IA32_FIXED_CTR_CTRL val s)))"

section \<open>Reading and stopping the counters\<close>

text \<open>The loop that reads the four counters, relative to \<^verbatim>\<open>base\<close>.\<close>

definition read_pmc :: "int \<Rightarrow> nat \<Rightarrow> pmu \<Rightarrow> u64" where
  "read_pmc cpu i s =
     (let val = rdmsr_on_cpu cpu (IA32_PMC0 + of_nat i) s - pmu_base s
      in if val + pmu_base s < pmu_base s then val + 0xffffffffffff else val)"

text \<open>The clean-up that \<^verbatim>\<open>arg2\<close> asks for.\<close>

definition disable_counters :: "int \<Rightarrow> pmu \<Rightarrow> pmu" where
  "disable_counters cpu s =
     (let s = fold (\<lambda>i s.
                let val = rdmsr_on_cpu cpu (IA32_PERFEVTSEL0 + of_nat i) s
                            AND NOT (push_bit Enable_counters 1);
                    s = wrmsr_on_cpu cpu (IA32_PERFEVTSEL0 + of_nat i) val s
                in wrmsr_on_cpu cpu (IA32_PMC0 + of_nat i) 0 s) [0..<PMC_N] s;
          s = wrmsr_on_cpu cpu IA32_FIXED_CTR_CTRL 0 s
      in fold (\<lambda>i s. wrmsr_on_cpu cpu (IA32_FIXED_CTR + of_nat i) 0 s) [0..<FIXED_N] s)"

definition stop_pmu :: "int \<Rightarrow> int \<Rightarrow> pmu \<Rightarrow> pmu option" where
  "stop_pmu cpu arg2 s =
     (if events_selector s < 0 \<or> int (length events) \<le> events_selector s then None
      else Some (if arg2 \<noteq> 0 then disable_counters cpu s else s))"

definition stop_pmu_return :: "int \<Rightarrow> int \<Rightarrow> pmu \<Rightarrow> u64 \<times> pmu" where
  "stop_pmu_return cpu arg2 s =
     (let s = s\<lparr>pmu_base := 0\<rparr>;
          pmc_val = map (\<lambda>i. read_pmc cpu i s) [0..<PMC_N];
          s = (if arg2 \<noteq> 0 then disable_counters cpu s else s)
      in (pmc_val ! 0 + pmc_val ! 2, s))"

definition pmu_l3_return :: "int \<Rightarrow> int \<Rightarrow> pmu \<Rightarrow> u64 \<times> pmu" where
  "pmu_l3_return cpu arg2 s =
     (let s = s\<lparr>pmu_base := 0\<rparr>;
          pmc_val = map (\<lambda>i. read_pmc cpu i s) [0..<PMC_N];
          s = (if arg2 \<noteq> 0 then disable_counters cpu s else s)
      in (pmc_val ! 1, s))"

definition pmu_mem_return :: "int \<Rightarrow> int \<Rightarrow> pmu \<Rightarrow> u64 \<times> pmu" where
  "pmu_mem_return cpu arg2 s =
     (let s = s\<lparr>pmu_base := 0\<rparr>;
          pmc_val = map (\<lambda>i. read_pmc cpu i s) [0..<PMC_N];
          s = (if arg2 \<noteq> 0 then disable_counters cpu s else s)
      in (pmc_val ! 1 + pmc_val ! 3, s))"

section \<open>The register file as an interface\<close>

locale msr_file =
  fixes rd :: "'c \<Rightarrow> 'r \<Rightarrow> 's \<Rightarrow> 'v"
    and wr :: "'c \<Rightarrow> 'r \<Rightarrow> 'v \<Rightarrow> 's \<Rightarrow> 's"
  assumes rd_wr_same: "rd c r (wr c r v s) = v"
    and rd_wr_other: "(c', r') \<noteq> (c, r) \<Longrightarrow> rd c' r' (wr c r v s) = rd c' r' s"
begin

lemma rd_wr: "rd c' r' (wr c r v s) = (if c' = c \<and> r' = r then v else rd c' r' s)"
  by (auto simp: rd_wr_same rd_wr_other)

lemma rd_fold_wr:
  "rd c' r' (fold (\<lambda>i s. wr c (r i) v s) is s)
     = (if c' = c \<and> r' \<in> r ` set is then v else rd c' r' s)"
  by (induction "is" arbitrary: s) (auto simp: rd_wr)

lemma rd_fold_modify:
  assumes "inj_on r (set is)" "distinct is"
  shows "rd c' r' (fold (\<lambda>i s. wr c (r i) (f (rd c (r i) s)) s) is s)
     = (if c' = c \<and> r' \<in> r ` set is then f (rd c' r' s) else rd c' r' s)"
  using assms
proof (induction "is" arbitrary: s)
  case (Cons i "is")
  then have "r i \<notin> r ` set is" by (auto simp: inj_on_def)
  with Cons show ?case by (auto simp: rd_wr)
qed simp

end

lemma trans_roundtrip: "(case trans64to32 v of (h, l) \<Rightarrow> trans32to64 h l) = v"
proof -
  have "push_bit 32 (ucast (ucast (drop_bit 32 v) :: u32)) AND (ucast (ucast v :: u32) :: u64) = 0"
    by (rule bit_word_eqI) (auto simp: bit_simps)
  then have "trans32to64 (ucast (drop_bit 32 v)) (ucast v)
      = push_bit 32 (ucast (ucast (drop_bit 32 v) :: u32)) OR (ucast (ucast v :: u32) :: u64)"
    unfolding trans32to64_def by (rule disjunctive_add_eq_or)
  also have "\<dots> = v"
    by (rule bit_word_eqI) (auto simp: bit_simps)
  finally show ?thesis by (simp add: trans64to32_def)
qed

interpretation msr: msr_file rdmsr_on_cpu wrmsr_on_cpu
proof
  fix c r v s
  show "rdmsr_on_cpu c r (wrmsr_on_cpu c r v s) = v"
    using trans_roundtrip [of v] by (simp add: rdmsr_on_cpu_def wrmsr_on_cpu_def)
next
  fix c' c :: int and r' r :: u32 and v s
  assume "(c', r') \<noteq> (c, r)"
  then show "rdmsr_on_cpu c' r' (wrmsr_on_cpu c r v s) = rdmsr_on_cpu c' r' s"
    by (auto simp: rdmsr_on_cpu_def wrmsr_on_cpu_def)
qed

lemma pmu_frame [simp]:
  "pmu_base (wrmsr_on_cpu c r v s) = pmu_base s"
  "events_selector (wrmsr_on_cpu c r v s) = events_selector s"
  "rdmsr_on_cpu c r (s\<lparr>events_selector := e\<rparr>) = rdmsr_on_cpu c r s"
  "rdmsr_on_cpu c r (s\<lparr>pmu_base := b\<rparr>) = rdmsr_on_cpu c r s"
  by (simp_all add: wrmsr_on_cpu_def rdmsr_on_cpu_def)

lemma ball_counters:
  "(\<forall>i\<in>{..<4::nat}. P i) \<longleftrightarrow> P 0 \<and> P 1 \<and> P 2 \<and> P 3"
  "(\<forall>i\<in>{..<3::nat}. P i) \<longleftrightarrow> P 0 \<and> P 1 \<and> P 2"
  by (simp_all add: eval_nat_numeral lessThan_Suc conj_ac)

lemma counter_loops: "[0..<4] = [0, 1, 2, 3]" "[0..<3] = [0, 1, 2]"
  by (simp_all add: upt_rec)

lemmas pmu_ops = init_evtsel_def set_msr_bits_def Let_def counter_loops msr.rd_wr


section \<open>What the operations program\<close>

text \<open>The event-select value that \<^verbatim>\<open>start_pmu\<close> leaves for one event.\<close>

definition evtsel_value :: "event \<Rightarrow> u64" where
  "evtsel_value e = ucast (ev_event e) OR push_bit 8 (ucast (ev_umask e)) OR push_bit 16 1
     OR push_bit 22 1 OR ucast (ev_tmask e)"

definition pmu_programmed :: "int \<Rightarrow> event list \<Rightarrow> pmu \<Rightarrow> pmu \<Rightarrow> bool" where
  "pmu_programmed cpu evs s s' \<longleftrightarrow>
     (\<forall>i\<in>{..<4}. rdmsr_on_cpu cpu (IA32_PERFEVTSEL0 + of_nat i) s' = evtsel_value (evs ! i)
             \<and> rdmsr_on_cpu cpu (IA32_PMC0 + of_nat i) s' = pmu_base s)
     \<and> (\<forall>i\<in>{..<3}. rdmsr_on_cpu cpu (IA32_FIXED_CTR + of_nat i) s' = 0)
     \<and> rdmsr_on_cpu cpu IA32_FIXED_CTR_CTRL s' = 0x777
     \<and> rdmsr_on_cpu cpu IA32_PERF_GLOBAL_CTRL s'
          = rdmsr_on_cpu cpu IA32_PERF_GLOBAL_CTRL s OR 0x70000000F
     \<and> rdmsr_on_cpu cpu IA32_PERF_GLOBAL_OVF_CTRL s'
          = rdmsr_on_cpu cpu IA32_PERF_GLOBAL_OVF_CTRL s OR 0x70000000F"

definition pmu_regs :: "u32 set" where
  "pmu_regs = {0x38F, 0x390, 0x38D} \<union> {0x186, 0x187, 0x188, 0x189} \<union> {0xC1, 0xC2, 0xC3, 0xC4}
     \<union> {0x309, 0x30A, 0x30B}"

text \<open>The registers of a CPU after \<^verbatim>\<open>start_pmu\<close>.\<close>

definition evtsel_written :: "event \<Rightarrow> u64" where
  "evtsel_written e =
     ((ucast (ev_event e OR push_bit 8 (ev_umask e)) OR push_bit USR 1) XOR ucast (ev_tmask e))
     OR push_bit Enable_counters 1"

definition started_msr :: "int \<Rightarrow> event list \<Rightarrow> u32 \<Rightarrow> pmu \<Rightarrow> u64" where
  "started_msr cpu evs r s =
     (if r \<in> {0x38F, 0x390} then rdmsr_on_cpu cpu r s OR 0x70000000F
      else if r = 0x186 then evtsel_written (evs ! 0)
      else if r = 0x187 then evtsel_written (evs ! 1)
      else if r = 0x188 then evtsel_written (evs ! 2)
      else if r = 0x189 then evtsel_written (evs ! 3)
      else if r \<in> {0xC1, 0xC2, 0xC3, 0xC4} then pmu_base s
      else if r \<in> {0x309, 0x30A, 0x30B} then 0
      else if r = 0x38D then 0x777
      else rdmsr_on_cpu cpu r s)"

lemma start_pmu_effect:
  assumes "start_pmu cpu arg2 s = Some s'"
  shows "rdmsr_on_cpu c r s' =
    (if c \<noteq> cpu then rdmsr_on_cpu c r s else started_msr cpu (events ! nat arg2) r s)"
  using assms
  by (simp add: start_pmu_def pmu_ops evtsel_written_def started_msr_def split: if_splits)
     (drule sym, simp add: msr.rd_wr)

lemma start_pmu_frame:
  assumes "start_pmu cpu arg2 s = Some s'" "c \<noteq> cpu \<or> r \<notin> pmu_regs"
  shows "rdmsr_on_cpu c r s' = rdmsr_on_cpu c r s"
  using assms(2) by (auto simp: start_pmu_effect [OF assms(1)] started_msr_def pmu_regs_def)

lemma events_written:
  "\<forall>evs\<in>set events. length evs = 4 \<and> (\<forall>e\<in>set evs. evtsel_written e = evtsel_value e)"
  by (simp add: events_def mk_event_def evtsel_value_def evtsel_written_def)

lemma start_pmu_programs:
  assumes "start_pmu cpu arg2 s = Some s'"
  shows "pmu_programmed cpu (events ! nat arg2) s s'"
proof -
  have "events ! nat arg2 \<in> set events"
    using assms by (intro nth_mem) (auto simp: start_pmu_def Let_def split: if_splits)
  then have "evtsel_written (events ! nat arg2 ! i) = evtsel_value (events ! nat arg2 ! i)" if "i < 4" for i
    using events_written that by (metis nth_mem)
  then show ?thesis
    by (simp add: pmu_programmed_def start_pmu_effect [OF assms] started_msr_def ball_counters)
qed

lemma events_modes:
  "\<forall>evs\<in>set events. length evs = 4 \<and> (\<forall>e\<in>set evs. bit (evtsel_value e) 16 \<and>
     \<not> bit (evtsel_value e) 17 \<and> bit (evtsel_value e) 22 \<and> \<not> bit (evtsel_value e) 20)"
  by (simp add: events_def mk_event_def evtsel_value_def)

lemma evtsel_value_modes:
  assumes "evs \<in> set events" "i < 4"
  shows "bit (evtsel_value (evs ! i)) 16 \<and> \<not> bit (evtsel_value (evs ! i)) 17
    \<and> bit (evtsel_value (evs ! i)) 22 \<and> \<not> bit (evtsel_value (evs ! i)) 20"
proof -
  have "evs ! i \<in> set evs" using assms events_modes by (intro nth_mem) auto
  then show ?thesis using assms(1) events_modes by blast
qed

text \<open>The registers of a CPU whose counters were stopped.\<close>

definition stopped_msr :: "int \<Rightarrow> int \<Rightarrow> u32 \<Rightarrow> pmu \<Rightarrow> u64" where
  "stopped_msr cpu c r s =
     (if c \<noteq> cpu then rdmsr_on_cpu c r s
      else if r \<in> {0x186, 0x187, 0x188, 0x189} then rdmsr_on_cpu c r s AND NOT (push_bit 22 1)
      else if r \<in> {0xC1, 0xC2, 0xC3, 0xC4, 0x38D, 0x309, 0x30A, 0x30B} then 0
      else rdmsr_on_cpu c r s)"

lemma disable_counters_effect:
  "rdmsr_on_cpu c r (disable_counters cpu s) = stopped_msr cpu c r s"
  by (simp add: disable_counters_def stopped_msr_def pmu_ops)

lemma read_pmc_base0 [simp]: "pmu_base s = 0 \<Longrightarrow> read_pmc cpu i s = rdmsr_on_cpu cpu (IA32_PMC0 + of_nat i) s"
  by (simp add: read_pmc_def)

text \<open>
  Property C21. For each of the six event sets, \<^verbatim>\<open>start_pmu\<close> programs the four general
  counters of the CPU with the set's events, restricted to user mode and enabled without
  interrupts, resets them to \<^verbatim>\<open>base\<close>, enables and clears the three fixed counters, and touches
  no other register and no other CPU.
\<close>
theorem start_pmu_correct:
  assumes "0 \<le> arg2" "arg2 < 6"
  shows "\<exists>s'. start_pmu cpu arg2 s = Some s' \<and> pmu_programmed cpu (events ! nat arg2) s s'
    \<and> (\<forall>c r. c \<noteq> cpu \<or> r \<notin> pmu_regs \<longrightarrow> rdmsr_on_cpu c r s' = rdmsr_on_cpu c r s)
    \<and> (\<forall>i<4. let v = rdmsr_on_cpu cpu (IA32_PERFEVTSEL0 + of_nat i) s'
             in bit v USR \<and> \<not> bit v OS \<and> bit v Enable_counters \<and> \<not> bit v 20)"
proof -
  have len: "length events = 6" by (simp add: events_def)
  then have "\<exists>s'. start_pmu cpu arg2 s = Some s'"
    using assms by (simp add: start_pmu_def Let_def split: prod.split)
  then obtain s' where s': "start_pmu cpu arg2 s = Some s'" ..
  moreover have "events ! nat arg2 \<in> set events" using assms len by (intro nth_mem) simp
  ultimately show ?thesis
    using start_pmu_programs [OF s'] start_pmu_frame [OF s'] evtsel_value_modes [of "events ! nat arg2"]
    by (intro exI [of _ s']) (auto simp: pmu_programmed_def Let_def)
qed

theorem start_pmu_correct_witness:
  "\<exists>s'. start_pmu 1 0 \<lparr>msrs = \<lambda>_ _. (0, 0), pmu_base = 0, events_selector = 0\<rparr> = Some s'
     \<and> rdmsr_on_cpu 1 0x187 s' = 0x4181D0"
proof -
  obtain s' where s': "start_pmu 1 0 \<lparr>msrs = \<lambda>_ _. (0, 0), pmu_base = 0, events_selector = 0\<rparr> = Some s'"
    "pmu_programmed 1 (events ! nat 0) \<lparr>msrs = \<lambda>_ _. (0, 0), pmu_base = 0, events_selector = 0\<rparr> s'"
    using start_pmu_correct [of 0 1 "\<lparr>msrs = \<lambda>_ _. (0, 0), pmu_base = 0, events_selector = 0\<rparr>"] by auto
  have "(1::nat) \<in> {..<4}" by simp
  with s'(2) have "rdmsr_on_cpu 1 (0x186 + of_nat 1) s' = evtsel_value (events ! nat 0 ! 1)"
    unfolding pmu_programmed_def by blast
  then show ?thesis using s'(1) by (simp add: evtsel_value_def events_def mk_event_def)
qed

text \<open>
  Property C22. The three readers return the sums of the counters that the source names:
  TLB misses, cache misses and memory operations. With \<^verbatim>\<open>arg2\<close> zero they change no
  register; otherwise they clear the enable bit of every event select, keep its other bits,
  and zero every counter of the CPU.
\<close>
theorem pmu_readers_correct:
  "fst (stop_pmu_return cpu arg2 s) = rdmsr_on_cpu cpu 0xC1 s + rdmsr_on_cpu cpu 0xC3 s
    \<and> fst (pmu_l3_return cpu arg2 s) = rdmsr_on_cpu cpu 0xC2 s
    \<and> fst (pmu_mem_return cpu arg2 s) = rdmsr_on_cpu cpu 0xC2 s + rdmsr_on_cpu cpu 0xC4 s
    \<and> (\<forall>c r. let after = (if arg2 = 0 then rdmsr_on_cpu c r s else stopped_msr cpu c r s)
         in rdmsr_on_cpu c r (snd (stop_pmu_return cpu arg2 s)) = after
         \<and> rdmsr_on_cpu c r (snd (pmu_l3_return cpu arg2 s)) = after
         \<and> rdmsr_on_cpu c r (snd (pmu_mem_return cpu arg2 s)) = after)"
  by (simp add: stop_pmu_return_def pmu_l3_return_def pmu_mem_return_def Let_def
      counter_loops disable_counters_effect stopped_msr_def)
end
