(* ===== verification/Aet.thy ===== *)
theory Aet
  imports Aet_Index Aet_Pmu
begin

text \<open>
  The tracker of average eviction times, \<^verbatim>\<open>xen/arch/x86/aet.c\<close> with the shared structure of
  \<^verbatim>\<open>xen/include/public/aet.h\<close>: counters, the log of tracked addresses, the ring of hot
  shadow entries, the reuse-distance histogram with its hash table of last accesses, the
  pending set of shadow pages and the command interface. Arrays are functions from indices;
  every access checks the bound the C declaration gives, and an access outside it (or a loop
  that never ends) is \<open>None\<close>. Enumerations that a hypercall can set to any 32-bit value
  stay words.
\<close>

section \<open>The shared structure\<close>

abbreviation (input) CONSECUTIVE_SET_PAGE :: nat where "CONSECUTIVE_SET_PAGE \<equiv> 2"
abbreviation (input) MAX_DOM_NR :: nat where "MAX_DOM_NR \<equiv> 2"
abbreviation (input) MAX_PAGE_NUM :: u64 where "MAX_PAGE_NUM \<equiv> 50000"
abbreviation (input) MAX_ARRAY_SIZE :: u64 where "MAX_ARRAY_SIZE \<equiv> 40000"
abbreviation (input) MAX_PENDING_PAGE :: u64 where "MAX_PENDING_PAGE \<equiv> 1000"
abbreviation (input) HOT_SET_SIZE :: u64 where "HOT_SET_SIZE \<equiv> 10"
abbreviation (input) HASH :: u64 where "HASH \<equiv> 49997"
abbreviation (input) HASH_CONFLICT_NUM :: nat where "HASH_CONFLICT_NUM \<equiv> 2"

abbreviation (input) NO_OP :: u32 where "NO_OP \<equiv> 0"
abbreviation (input) SET_OPEN :: u32 where "SET_OPEN \<equiv> 1"
abbreviation (input) SET_TRACK :: u32 where "SET_TRACK \<equiv> 2"
abbreviation (input) L1_TRACK :: u32 where "L1_TRACK \<equiv> 0"
abbreviation (input) L4_TRACK :: u32 where "L4_TRACK \<equiv> 1"
abbreviation (input) PAGE_FAULT_COUNT :: u32 where "PAGE_FAULT_COUNT \<equiv> 2"
abbreviation (input) CLOSED :: u32 where "CLOSED \<equiv> 0"
abbreviation (input) OPEN :: u32 where "OPEN \<equiv> 1"

datatype aet_type = SET | REVERSED | USER_MODE

record tracked_va =
  tv_va :: u64
  tv_l1p :: u64
  tv_l1 :: u64
  tv_type :: aet_type
  tv_ec :: u64
  tv_mc :: u64

record last_pte =
  lp_va :: u64
  lp_sl1mfn :: u64

record hash_node =
  hn_mfn :: u64
  hn_mem_counter :: u64
  hn_pf :: u64

record pending_node =
  pd_sl1mfn :: u64
  pd_va :: u64

record AET_ctrl =
  start' :: int
  open' :: u32
  last_pte_start :: u64
  last_pte_end :: u64
  user_mode_fault :: u64
  reserved_bit_fault :: u64
  both_fault :: u64
  set_aet_magic_count :: u64
  reversed_aet_magic_count :: u64
  tracked_aet_magic_count1 :: u64
  tracked_aet_magic_count2 :: u64
  page_fault_count :: u64
  total_count :: u64
  tvs :: "nat \<Rightarrow> tracked_va"
  lps :: "nat \<Rightarrow> last_pte"
  sl4mfn' :: u64
  track' :: u32
  aet_hist' :: "nat \<Rightarrow> nat \<Rightarrow> u64"
  tot_ref' :: "nat \<Rightarrow> u64"
  node_count' :: "nat \<Rightarrow> u64"
  hns' :: "nat \<Rightarrow> nat \<Rightarrow> nat \<Rightarrow> hash_node"
  hash_conflict_num :: u64
  set_num :: u64
  pds :: "nat \<Rightarrow> pending_node"

section \<open>Modes and counters\<close>

definition set_aet_start :: "u64 \<Rightarrow> AET_ctrl \<Rightarrow> AET_ctrl" where
  "set_aet_start sl4mfn c = c\<lparr>start' := 1, sl4mfn' := sl4mfn\<rparr>"

definition get_aet_start :: "AET_ctrl \<Rightarrow> int \<times> u64" where
  "get_aet_start c = (start' c, sl4mfn' c)"

definition is_aet_track_open :: "AET_ctrl \<Rightarrow> bool" where
  "is_aet_track_open c \<longleftrightarrow> open' c = OPEN"

definition set_aet_track_open :: "u32 \<Rightarrow> u32 \<Rightarrow> AET_ctrl \<Rightarrow> AET_ctrl" where
  "set_aet_track_open op track c =
     (let c = (if op \<noteq> 0 then c\<lparr>track' := track\<rparr> else c\<lparr>track' := CLOSED\<rparr>)
      in c\<lparr>open' := op\<rparr>)"

definition set_track :: "u32 \<Rightarrow> AET_ctrl \<Rightarrow> AET_ctrl" where
  "set_track track c = (if \<not> is_aet_track_open c then c else c\<lparr>track' := track\<rparr>)"

definition get_track :: "AET_ctrl \<Rightarrow> u32" where
  "get_track c = track' c"

definition is_l4_track :: "AET_ctrl \<Rightarrow> bool" where
  "is_l4_track c \<longleftrightarrow> is_aet_track_open c \<and> track' c = L4_TRACK"

definition is_l1_track :: "AET_ctrl \<Rightarrow> bool" where
  "is_l1_track c \<longleftrightarrow> is_aet_track_open c \<and> track' c = L1_TRACK"

definition is_page_fault_count :: "AET_ctrl \<Rightarrow> bool" where
  "is_page_fault_count c \<longleftrightarrow> is_aet_track_open c \<and> track' c = PAGE_FAULT_COUNT"

definition l1_set_over :: "int \<Rightarrow> bool" where
  "l1_set_over count \<longleftrightarrow> int CONSECUTIVE_SET_PAGE \<le> count"

text \<open>The five stores and the increment that two functions share, with the bound of \<^verbatim>\<open>tvs\<close>.\<close>

definition log_tracked :: "tracked_va \<Rightarrow> AET_ctrl \<Rightarrow> AET_ctrl option" where
  "log_tracked tv c =
     (if total_count c + 10 < MAX_ARRAY_SIZE
      then if total_count c < MAX_ARRAY_SIZE
           then Some (c\<lparr>tvs := (tvs c)(unat (total_count c) := tv), total_count := total_count c + 1\<rparr>)
           else None
      else Some c)"

definition add_set_aet_magic_count ::
    "u64 \<Rightarrow> u64 \<Rightarrow> u64 \<Rightarrow> u64 \<Rightarrow> u64 \<Rightarrow> AET_ctrl \<Rightarrow> AET_ctrl option" where
  "add_set_aet_magic_count va l1 l1p ec mc c =
     do {
       c \<leftarrow> log_tracked \<lparr>tv_va = va, tv_l1p = l1p, tv_l1 = l1, tv_type = SET, tv_ec = ec, tv_mc = mc\<rparr> c;
       Some (c\<lparr>set_aet_magic_count := set_aet_magic_count c + 1\<rparr>)
     }"

definition add_reversed_aet_magic_count :: "u64 \<Rightarrow> u64 \<Rightarrow> AET_ctrl \<Rightarrow> AET_ctrl" where
  "add_reversed_aet_magic_count va l1 c =
     c\<lparr>reversed_aet_magic_count := reversed_aet_magic_count c + 1\<rparr>"

definition add_tracked_aet_magic_count1 :: "AET_ctrl \<Rightarrow> AET_ctrl" where
  "add_tracked_aet_magic_count1 c =
     c\<lparr>tracked_aet_magic_count1 := tracked_aet_magic_count1 c + 1\<rparr>"

definition add_tracked_aet_magic_count2 :: "AET_ctrl \<Rightarrow> AET_ctrl" where
  "add_tracked_aet_magic_count2 c =
     c\<lparr>tracked_aet_magic_count2 := tracked_aet_magic_count2 c + 1\<rparr>"

definition add_page_fault_count :: "AET_ctrl \<Rightarrow> AET_ctrl" where
  "add_page_fault_count c = c\<lparr>page_fault_count := page_fault_count c + 1\<rparr>"

definition add_user_mode_fault_count ::
    "u64 \<Rightarrow> u64 \<Rightarrow> u64 \<Rightarrow> u64 \<Rightarrow> u64 \<Rightarrow> AET_ctrl \<Rightarrow> AET_ctrl option" where
  "add_user_mode_fault_count va l1 l1p ec mc c =
     log_tracked \<lparr>tv_va = va, tv_l1p = l1p, tv_l1 = l1, tv_type = USER_MODE, tv_ec = ec, tv_mc = mc\<rparr>
       (c\<lparr>user_mode_fault := user_mode_fault c + 1\<rparr>)"

definition add_reserved_bit_fault_count :: "AET_ctrl \<Rightarrow> AET_ctrl" where
  "add_reserved_bit_fault_count c = c\<lparr>reserved_bit_fault := reserved_bit_fault c + 1\<rparr>"

definition add_both_fault_count :: "AET_ctrl \<Rightarrow> AET_ctrl" where
  "add_both_fault_count c = c\<lparr>both_fault := both_fault c + 1\<rparr>"

section \<open>The ring of hot shadow entries\<close>

text \<open>\<^verbatim>\<open>int pos = ...\<close> truncates to 32 bits; comparing it with an unsigned long extends its sign.\<close>

definition to_int_pos :: "u64 \<Rightarrow> u64" where
  "to_int_pos x = scast (ucast x :: u32)"

partial_function (option) ring_scan :: "(nat \<Rightarrow> last_pte) \<Rightarrow> u64 \<Rightarrow> u64 \<Rightarrow> u64 \<Rightarrow> bool option" where
  "ring_scan ps start va pos =
     (if pos = start then Some False
      else if HOT_SET_SIZE \<le> pos then None
      else if lp_va (ps (unat pos)) = va then Some True
      else ring_scan ps start va ((pos + 1) mod HOT_SET_SIZE))"

definition add_last_shadow_l1e :: "u64 \<Rightarrow> u64 \<Rightarrow> AET_ctrl \<Rightarrow> AET_ctrl option" where
  "add_last_shadow_l1e sl1mfn va c =
     do {
       found \<leftarrow> ring_scan (lps c) (last_pte_start c) va (to_int_pos (last_pte_end c));
       if found then Some c
       else
         (let pos = to_int_pos (last_pte_start c)
          in if HOT_SET_SIZE \<le> pos then None
             else Some (c\<lparr>last_pte_start := (last_pte_start c + 1) mod HOT_SET_SIZE,
                          lps := (lps c)(unat pos := \<lparr>lp_va = va, lp_sl1mfn = sl1mfn\<rparr>)\<rparr>))
     }"

text \<open>The result is the pair of output parameters \<^verbatim>\<open>(sl1mfn, va)\<close>.\<close>

definition get_last_shadow_l1e :: "AET_ctrl \<Rightarrow> ((u64 \<times> u64) \<times> AET_ctrl) option" where
  "get_last_shadow_l1e c =
     (let pos = to_int_pos (last_pte_end c)
      in if (last_pte_start c + 1) mod HOT_SET_SIZE = last_pte_end c
         then if HOT_SET_SIZE \<le> pos then None
              else Some ((lp_sl1mfn (lps c (unat pos)), lp_va (lps c (unat pos))),
                         c\<lparr>last_pte_end := (last_pte_end c + 1) mod HOT_SET_SIZE\<rparr>)
         else Some ((0, 0), c))"

section \<open>The reuse-distance histogram\<close>

definition dom_index :: "int \<Rightarrow> nat option" where
  "dom_index domain_id =
     (if 1 \<le> domain_id \<and> domain_id \<le> int MAX_DOM_NR then Some (nat (domain_id - 1)) else None)"

definition add_to_aet_histogram :: "int \<Rightarrow> u64 \<Rightarrow> u64 \<Rightarrow> AET_ctrl \<Rightarrow> AET_ctrl option" where
  "add_to_aet_histogram domain_id old_mc new_mc c =
     (if new_mc < old_mc then Some c
      else
        do {
          compressed_dis \<leftarrow> domain_value_to_index (new_mc - old_mc);
          if MAX_PAGE_NUM \<le> compressed_dis then Some c
          else
            do {
              d \<leftarrow> dom_index domain_id;
              let i = unat compressed_dis;
              Some (c\<lparr>aet_hist' := (aet_hist' c)(d := (aet_hist' c d)(i := aet_hist' c d i + 1))\<rparr>)
            }
        })"

definition set_node :: "nat \<Rightarrow> nat \<Rightarrow> nat \<Rightarrow> hash_node \<Rightarrow> AET_ctrl \<Rightarrow> AET_ctrl" where
  "set_node d key p n c =
     c\<lparr>hns' := (hns' c)(d := (hns' c d)(key := (hns' c d key)(p := n)))\<rparr>"

definition track_hit :: "int \<Rightarrow> nat \<Rightarrow> nat \<Rightarrow> nat \<Rightarrow> u64 \<Rightarrow> u64 \<Rightarrow> AET_ctrl \<Rightarrow> AET_ctrl option" where
  "track_hit domain_id d key p mfn mem_counter c =
     (let n = hns' c d key p;
          page_fault_diff = page_fault_count c - hn_pf n;
          mc_diff = page_fault_diff * 20
      in do {
        c \<leftarrow> add_to_aet_histogram domain_id (hn_mem_counter n) (mem_counter - mc_diff) c;
        c \<leftarrow> (if hn_mem_counter n < mem_counter
              then do {
                i \<leftarrow> domain_value_to_index (mem_counter - hn_mem_counter n);
                add_user_mode_fault_count mfn 0 mc_diff i (mem_counter - hn_mem_counter n - mc_diff) c
              }
              else Some c);
        let c = set_node d key p (n\<lparr>hn_mem_counter := mem_counter, hn_pf := page_fault_count c\<rparr>) c;
        Some (c\<lparr>tot_ref' := (tot_ref' c)(d := tot_ref' c d + 1)\<rparr>)
      })"

fun track_positions ::
    "int \<Rightarrow> nat \<Rightarrow> nat \<Rightarrow> u64 \<Rightarrow> u64 \<Rightarrow> nat list \<Rightarrow> AET_ctrl \<Rightarrow> AET_ctrl option" where
  "track_positions domain_id d key mfn mem_counter [] c =
     Some (c\<lparr>hash_conflict_num := hash_conflict_num c + 1\<rparr>)"
| "track_positions domain_id d key mfn mem_counter (p # ps) c =
     (if hn_mfn (hns' c d key p) = mfn then track_hit domain_id d key p mfn mem_counter c
      else if hn_mfn (hns' c d key p) = 0
      then let c = set_node d key p
                     \<lparr>hn_mfn = mfn, hn_mem_counter = mem_counter, hn_pf = page_fault_count c\<rparr> c
           in Some (c\<lparr>node_count' := (node_count' c)(d := node_count' c d + 1)\<rparr>)
      else track_positions domain_id d key mfn mem_counter ps c)"

definition track_aet_fault :: "int \<Rightarrow> u64 \<Rightarrow> u64 \<Rightarrow> AET_ctrl \<Rightarrow> AET_ctrl option" where
  "track_aet_fault domain_id mfn mem_counter c =
     do {
       d \<leftarrow> dom_index domain_id;
       track_positions domain_id d (unat (mfn mod HASH)) mfn mem_counter [0..<HASH_CONFLICT_NUM] c
     }"

section \<open>Debug registers\<close>

abbreviation (input) DEBUG_DR6 :: u64 where "DEBUG_DR6 \<equiv> 0xffff0fff"
abbreviation (input) DEBUG_DR7 :: u64 where "DEBUG_DR7 \<equiv> 0xbbbb07ff"

text \<open>
  The debug registers of each CPU and those that \<^verbatim>\<open>set_debugreg\<close> and the VMCS hold for a
  virtual CPU.
\<close>

record debug_state =
  cpu_dr :: "int \<Rightarrow> nat \<Rightarrow> u64"
  vcpu_dr :: "nat \<Rightarrow> nat \<Rightarrow> u64"

definition write_debugreg :: "int \<Rightarrow> nat \<Rightarrow> u64 \<Rightarrow> debug_state \<Rightarrow> debug_state" where
  "write_debugreg cpu r val s = s\<lparr>cpu_dr := (cpu_dr s)(cpu := (cpu_dr s cpu)(r := val))\<rparr>"

record dr_on_cpu =
  doc_dr0 :: u64
  doc_dr6 :: u64
  doc_dr7 :: u64

definition vmx_set_debugreg_for_sampling :: "nat \<Rightarrow> u64 \<Rightarrow> debug_state \<Rightarrow> debug_state" where
  "vmx_set_debugreg_for_sampling v va s =
     s\<lparr>vcpu_dr := (vcpu_dr s)(v := (vcpu_dr s v)(0 := va, 7 := 0xbbbb27ff))\<rparr>"

definition set_debug_reg_on :: "int \<Rightarrow> dr_on_cpu \<Rightarrow> nat \<Rightarrow> debug_state \<Rightarrow> debug_state" where
  "set_debug_reg_on cpu doc v s =
     vmx_set_debugreg_for_sampling v (doc_dr0 doc) (write_debugreg cpu 6 (doc_dr6 doc) s)"

definition set_debug_reg :: "u64 \<Rightarrow> int \<Rightarrow> nat \<Rightarrow> debug_state \<Rightarrow> debug_state" where
  "set_debug_reg va cpu_id v s =
     set_debug_reg_on cpu_id \<lparr>doc_dr0 = va, doc_dr6 = DEBUG_DR6, doc_dr7 = DEBUG_DR7\<rparr> v s"

definition hc_set_debug_reg_on :: "int \<Rightarrow> dr_on_cpu \<Rightarrow> debug_state \<Rightarrow> debug_state" where
  "hc_set_debug_reg_on cpu doc s =
     write_debugreg cpu 7 (doc_dr7 doc)
       (write_debugreg cpu 6 (doc_dr6 doc) (write_debugreg cpu 0 (doc_dr0 doc) s))"

definition hc_set_debug_reg :: "u64 \<Rightarrow> int \<Rightarrow> debug_state \<Rightarrow> debug_state" where
  "hc_set_debug_reg va cpu_id s =
     hc_set_debug_reg_on cpu_id \<lparr>doc_dr0 = va, doc_dr6 = DEBUG_DR6, doc_dr7 = DEBUG_DR7\<rparr> s"

section \<open>The pending set\<close>

abbreviation (input) PAGE_MASK :: u64 where "PAGE_MASK \<equiv> NOT 0xFFF"
abbreviation (input) L1_MASK :: u64 where "L1_MASK \<equiv> 0x1FFFFF"

text \<open>
  The scan for a duplicate runs from \<^verbatim>\<open>(int)(set_num - 1)\<close> down to 0. A start of
  \<^verbatim>\<open>MAX_PENDING_PAGE\<close> or more reads outside \<^verbatim>\<open>pds\<close>.
\<close>

primrec pending_scan :: "(nat \<Rightarrow> pending_node) \<Rightarrow> u64 \<Rightarrow> nat \<Rightarrow> bool" where
  "pending_scan ps sl1mfn 0 = False"
| "pending_scan ps sl1mfn (Suc i) = (pd_sl1mfn (ps i) = sl1mfn \<or> pending_scan ps sl1mfn i)"

definition add_to_pending_page :: "u64 \<Rightarrow> u64 \<Rightarrow> AET_ctrl \<Rightarrow> AET_ctrl option" where
  "add_to_pending_page sl1mfn va c =
     (let va_start = va - (va AND L1_MASK AND PAGE_MASK);
          i = sint (ucast (set_num c - 1) :: u32)
      in if 1000 \<le> i then None
         else if pending_scan (pds c) sl1mfn (nat (i + 1)) then Some c
         else if MAX_PENDING_PAGE \<le> set_num c then Some c
         else Some (c\<lparr>pds := (pds c)(unat (set_num c) := \<lparr>pd_sl1mfn = sl1mfn, pd_va = va_start\<rparr>),
                      set_num := set_num c + 1\<rparr>))"

abbreviation (input) SH_type_l1_shadow :: u32 where "SH_type_l1_shadow \<equiv> 8"
abbreviation (input) SH_type_fl1_shadow :: u32 where "SH_type_fl1_shadow \<equiv> 9"
abbreviation (input) SH_L1E_AET_MAGIC :: u64 where "SH_L1E_AET_MAGIC \<equiv> 0x7ff8000000000400"
abbreviation (input) PAGE_PRESENT :: u32 where "PAGE_PRESENT \<equiv> 1"
abbreviation (input) PAGE_RW :: u32 where "PAGE_RW \<equiv> 2"
abbreviation (input) PAGE_USER :: u32 where "PAGE_USER \<equiv> 4"

definition get_pte_flags :: "u64 \<Rightarrow> u32" where
  "get_pte_flags x = (ucast (drop_bit 40 x) AND NOT 0xFFF) OR (ucast x AND 0xFFF)"

definition shadow_l1e_get_flags :: "u64 \<Rightarrow> u32" where
  "shadow_l1e_get_flags sl1e = get_pte_flags sl1e"

text \<open>
  The machine around the tracker: the shadow pages by frame number (512 entries each), their
  types, the local TLB flushes so far, and the counters. The address at which
  \<^verbatim>\<open>map_domain_page\<close> maps a frame only enters the log, as a parameter.
\<close>

record aet_machine =
  aet :: AET_ctrl
  sh_page :: "u64 \<Rightarrow> nat \<Rightarrow> u64"
  sh_type :: "u64 \<Rightarrow> u32"
  tlb_flushes :: "u64 list"
  aet_pmu :: pmu

definition sl1e_markable :: "u64 \<Rightarrow> bool" where
  "sl1e_markable e \<longleftrightarrow>
     shadow_l1e_get_flags e AND PAGE_USER \<noteq> 0 \<and> shadow_l1e_get_flags e AND PAGE_RW \<noteq> 0
     \<and> shadow_l1e_get_flags e AND PAGE_PRESENT \<noteq> 0 \<and> e AND SH_L1E_AET_MAGIC = 0"

definition sl1e_mark :: "u64 \<Rightarrow> u64" where
  "sl1e_mark e = (e OR SH_L1E_AET_MAGIC) AND NOT 0x4"

definition set_pending_entry ::
    "(u64 \<Rightarrow> u64) \<Rightarrow> u64 \<Rightarrow> u64 \<Rightarrow> u64 \<Rightarrow> nat \<Rightarrow> aet_machine \<Rightarrow> aet_machine option" where
  "set_pending_entry map_va mc sl1mfn va i m =
     (let e = sh_page m sl1mfn i
      in if sl1e_markable e
         then do {
           c \<leftarrow> add_set_aet_magic_count va e (map_va sl1mfn + 8 * of_nat i) 1 mc (aet m);
           Some (m\<lparr>aet := c,
                   sh_page := (sh_page m)(sl1mfn := (sh_page m sl1mfn)(i := sl1e_mark e)),
                   tlb_flushes := tlb_flushes m @ [va]\<rparr>)
         }
         else Some m)"

fun set_pending_entries ::
    "(u64 \<Rightarrow> u64) \<Rightarrow> u64 \<Rightarrow> u64 \<Rightarrow> u64 \<Rightarrow> nat list \<Rightarrow> aet_machine \<Rightarrow> aet_machine option" where
  "set_pending_entries map_va mc sl1mfn va [] m = Some m"
| "set_pending_entries map_va mc sl1mfn va (i # is) m =
     do {
       m \<leftarrow> set_pending_entry map_va mc sl1mfn va i m;
       set_pending_entries map_va mc sl1mfn (va + 0x1000) is m
     }"

fun set_pending_loop :: "(u64 \<Rightarrow> u64) \<Rightarrow> u64 \<Rightarrow> nat list \<Rightarrow> aet_machine \<Rightarrow> aet_machine option" where
  "set_pending_loop map_va mc [] m = Some m"
| "set_pending_loop map_va mc (j # js) m =
     (if 1000 \<le> j then None
      else
        (let sl1mfn = pd_sl1mfn (pds (aet m) j);
             va = pd_va (pds (aet m) j)
         in do {
           m \<leftarrow> (if sh_type m sl1mfn = SH_type_l1_shadow \<or> sh_type m sl1mfn = SH_type_fl1_shadow
                 then set_pending_entries map_va mc sl1mfn va [0..<CONSECUTIVE_SET_PAGE] m
                 else Some m);
           set_pending_loop map_va mc js m
         }))"

definition set_pending_page :: "(u64 \<Rightarrow> u64) \<Rightarrow> aet_machine \<Rightarrow> aet_machine option" where
  "set_pending_page map_va m =
     (if set_num (aet m) = 0 then Some m
      else
        (let (mc, pmu) = pmu_mem_return 1 0 (aet_pmu m);
             m = m\<lparr>aet_pmu := pmu\<rparr>
         in do {
           m \<leftarrow> set_pending_loop map_va mc [0..<unat (set_num (aet m))] m;
           Some (m\<lparr>aet := (aet m)\<lparr>set_num := 0\<rparr>\<rparr>)
         }))"

section \<open>Shared memory and initialisation\<close>

definition PFN_UP :: "u64 \<Rightarrow> u64" where
  "PFN_UP x = drop_bit 12 (x + 0x1000 - 1)"

abbreviation (input) page_step :: u64 where "page_step \<equiv> 512"

record page_mapping =
  pm_va :: u64
  pm_mfn :: u64
  pm_allocated :: u64
  pm_mapped :: u64

text \<open>
  The loop of \<^verbatim>\<open>alloc_shared_memory\<close>. The boot allocator's answers come in as a list;
  a zero answer is the \<^verbatim>\<open>panic\<close>. Each round records what it allocates and what it maps.
\<close>

fun alloc_pages_loop :: "u64 list \<Rightarrow> u64 \<Rightarrow> u64 \<Rightarrow> u64 \<Rightarrow> page_mapping list \<Rightarrow> page_mapping list option" where
  "alloc_pages_loop mfns va page_nr i done =
     (if \<not> i < page_nr then Some done
      else
        (case mfns of
           [] \<Rightarrow> None
         | mfn # mfns' \<Rightarrow>
             (if mfn = 0 then None
              else alloc_pages_loop mfns' va page_nr (i + page_step)
                     (done @ [\<lparr>pm_va = va + push_bit 12 i, pm_mfn = mfn,
                               pm_allocated = min (page_nr - i) page_step,
                               pm_mapped = page_step\<rparr>]))))"

definition sizeof_tracked_va :: u64 where "sizeof_tracked_va = 48"

definition sizeof_AET_ctrl :: u64 where
  "sizeof_AET_ctrl =
     8 + 11 * 8 + MAX_ARRAY_SIZE * sizeof_tracked_va + HOT_SET_SIZE * 16 + 8 + 8
     + of_nat MAX_DOM_NR * MAX_PAGE_NUM * 8 + of_nat MAX_DOM_NR * 8 + of_nat MAX_DOM_NR * 8
     + of_nat MAX_DOM_NR * HASH * of_nat HASH_CONFLICT_NUM * 24 + 8 + 8 + MAX_PENDING_PAGE * 16"

text \<open>The zeroed structure that the \<^verbatim>\<open>memset\<close> of the whole region leaves.\<close>

definition zero_AET_ctrl :: AET_ctrl where
  "zero_AET_ctrl =
     \<lparr>start' = 0, open' = 0, last_pte_start = 0, last_pte_end = 0, user_mode_fault = 0,
      reserved_bit_fault = 0, both_fault = 0, set_aet_magic_count = 0,
      reversed_aet_magic_count = 0, tracked_aet_magic_count1 = 0, tracked_aet_magic_count2 = 0,
      page_fault_count = 0, total_count = 0,
      tvs = (\<lambda>_. \<lparr>tv_va = 0, tv_l1p = 0, tv_l1 = 0, tv_type = SET, tv_ec = 0, tv_mc = 0\<rparr>),
      lps = (\<lambda>_. \<lparr>lp_va = 0, lp_sl1mfn = 0\<rparr>), sl4mfn' = 0, track' = 0,
      aet_hist' = (\<lambda>_ _. 0), tot_ref' = (\<lambda>_. 0), node_count' = (\<lambda>_. 0),
      hns' = (\<lambda>_ _ _. \<lparr>hn_mfn = 0, hn_mem_counter = 0, hn_pf = 0\<rparr>), hash_conflict_num = 0,
      set_num = 0, pds = (\<lambda>_. \<lparr>pd_sl1mfn = 0, pd_va = 0\<rparr>)\<rparr>"

text \<open>
  \<^verbatim>\<open>alloc_shared_memory\<close> ends by giving user access to the first entries of the upper
  tables, by frame number and index, and by clearing the region.
\<close>

definition alloc_shared_memory ::
    "u64 list \<Rightarrow> u64 \<Rightarrow> u64 \<Rightarrow> u64 \<Rightarrow> (u64 \<Rightarrow> nat \<Rightarrow> u64)
     \<Rightarrow> (u64 \<times> page_mapping list \<times> (u64 \<Rightarrow> nat \<Rightarrow> u64)) option" where
  "alloc_shared_memory mfns idle_pg_table sz va pt =
     (let page_nr = PFN_UP sz
      in do {
        maps \<leftarrow> alloc_pages_loop mfns va page_nr 0 [];
        let l4_off = unat (drop_bit 39 va AND 0x1FF);
        let l4e = pt idle_pg_table l4_off OR 4;
        let pt = pt(idle_pg_table := (pt idle_pg_table)(l4_off := l4e));
        let l3mfn = drop_bit 12 (l4e AND 0xFFFFFFFFFF000);
        let pt = pt(l3mfn := (pt l3mfn)(0 := pt l3mfn 0 OR 4));
        Some (page_nr, maps, pt)
      })"

definition aet_init ::
    "u64 list \<Rightarrow> u64 \<Rightarrow> u64 \<Rightarrow> (u64 \<Rightarrow> nat \<Rightarrow> u64)
     \<Rightarrow> (AET_ctrl \<times> page_mapping list \<times> (u64 \<Rightarrow> nat \<Rightarrow> u64)) option" where
  "aet_init mfns idle_pg_table aet_ctrl pt =
     do {
       (page_nr, maps, pt) \<leftarrow> alloc_shared_memory mfns idle_pg_table sizeof_AET_ctrl aet_ctrl pt;
       Some (zero_AET_ctrl, maps, pt)
     }"

section \<open>Commands\<close>

text \<open>Indexing a table of names with a command is an access of that table.\<close>

definition name_at :: "nat \<Rightarrow> u64 \<Rightarrow> unit option" where
  "name_at len i = (if unat i < len then Some () else None)"

definition set_aet_cmd :: "u32 \<Rightarrow> u64 \<Rightarrow> u64 \<Rightarrow> AET_ctrl \<Rightarrow> AET_ctrl option" where
  "set_aet_cmd aet_cmd arg1 arg2 c =
     do {
       name_at 3 (ucast aet_cmd);
       if aet_cmd = NO_OP then Some c
       else if aet_cmd = SET_OPEN
       then do {
         name_at 2 arg1;
         name_at 3 arg2;
         Some (set_aet_track_open (ucast arg1) (ucast arg2) c)
       }
       else if aet_cmd = SET_TRACK
       then do { name_at 3 arg1; Some (set_track (ucast arg1) c) }
       else Some c
     }"

text \<open>\<^verbatim>\<open>do_xc_reserved_op\<close> of \<^verbatim>\<open>xc_reserved_op.c\<close>: the hypercall that reaches all of it.\<close>

abbreviation (input) PMU_CMD :: u32 where "PMU_CMD \<equiv> 1"
abbreviation (input) AET_CMD :: u32 where "AET_CMD \<equiv> 2"
abbreviation (input) DEBUGREG_CMD :: u32 where "DEBUGREG_CMD \<equiv> 3"

record xc_state =
  xc_aet :: AET_ctrl
  xc_pmu :: pmu
  xc_dbg :: debug_state

definition to_int :: "u64 \<Rightarrow> int" where
  "to_int x = sint (ucast x :: u32)"

definition do_xc_reserved_op :: "u32 \<Rightarrow> u64 \<Rightarrow> u64 \<Rightarrow> u64 \<Rightarrow> xc_state \<Rightarrow> (u64 \<times> xc_state) option" where
  "do_xc_reserved_op cmd arg0 arg1 arg2 s =
     do {
       name_at 4 (ucast cmd);
       s \<leftarrow> (if cmd = PMU_CMD
             then if arg1 = 1
                  then map_option (\<lambda>p. s\<lparr>xc_pmu := p\<rparr>) (start_pmu (to_int arg0) (to_int arg2) (xc_pmu s))
                  else if arg1 = 2
                  then map_option (\<lambda>p. s\<lparr>xc_pmu := p\<rparr>) (stop_pmu (to_int arg0) (to_int arg2) (xc_pmu s))
                  else Some s
             else if cmd = AET_CMD
             then map_option (\<lambda>c. s\<lparr>xc_aet := c\<rparr>) (set_aet_cmd (ucast arg0) arg1 arg2 (xc_aet s))
             else if cmd = DEBUGREG_CMD
             then Some (s\<lparr>xc_dbg := hc_set_debug_reg arg0 (to_int arg1) (xc_dbg s)\<rparr>)
             else Some s);
       Some (0, s)
     }"

section \<open>Bounds\<close>

definition counts_ok :: "AET_ctrl \<Rightarrow> bool" where
  "counts_ok c \<longleftrightarrow> total_count c \<le> 39990 \<and> last_pte_start c < 10 \<and> last_pte_end c < 10
     \<and> set_num c \<le> 1000"

lemma log_tracked_ok:
  assumes "total_count c \<le> 39990"
  shows "\<exists>c'. log_tracked tv c = Some c' \<and> total_count c' \<le> 39990"
proof -
  have "total_count c + 10 < 40000 \<longleftrightarrow> total_count c < 39990"
    using assms by (auto simp: word_less_nat_alt word_le_nat_alt unat_word_ariths)
  moreover have "total_count c < 39990 \<Longrightarrow> total_count c + 1 \<le> 39990 \<and> total_count c < 40000"
    by (auto simp: word_less_nat_alt word_le_nat_alt unat_word_ariths)
  ultimately show ?thesis using assms by (auto simp: log_tracked_def)
qed

section \<open>The ring as a queue\<close>

definition ring_len :: "AET_ctrl \<Rightarrow> nat" where
  "ring_len c = (unat (last_pte_start c) + 10 - unat (last_pte_end c)) mod 10"

definition ring_list :: "AET_ctrl \<Rightarrow> last_pte list" where
  "ring_list c = map (\<lambda>k. lps c ((unat (last_pte_end c) + k) mod 10)) [0..<ring_len c]"

lemma to_int_pos_small [simp]: "x < 10 \<Longrightarrow> to_int_pos x = x"
proof -
  assume x: "x < 10"
  have "to_int_pos (of_nat n) = of_nat n" if "n \<in> {0, 1, 2, 3, 4, 5, 6, 7, 8, 9}" for n
    using that by (auto simp: to_int_pos_def)
  moreover have "unat x \<in> {0, 1, 2, 3, 4, 5, 6, 7, 8, 9}"
    using x by (auto simp: word_less_nat_alt)
  ultimately have "to_int_pos (of_nat (unat x)) = of_nat (unat x)" by blast
  then show ?thesis by simp
qed

lemma unat_ring_next: "x < 10 \<Longrightarrow> unat ((x + 1) mod 10 :: u64) = (unat x + 1) mod 10"
  by (simp add: unat_mod_distrib word_less_nat_alt unat_word_ariths)

lemma ring_next_less: "(x :: u64) mod 10 < 10"
  by (simp add: word_less_nat_alt unat_mod_distrib)


lemma ring_dist:
  "s < 10 \<Longrightarrow> e < 10 \<Longrightarrow> (s + 10 - e) mod 10 = (if e \<le> s then s - e else s + 10 - e)" for s e :: nat
  using mod_add_self2 [of "s - e" 10] by (cases "e \<le> s") simp_all

lemma ring_succ: "e < 10 \<Longrightarrow> Suc e mod 10 = (if e = 9 then 0 else Suc e)" for e :: nat
  by auto

lemma ring_scan_eq:
  assumes "start < 10" "pos < 10"
  shows "ring_scan ps start va pos =
    Some (\<exists>k < (unat start + 10 - unat pos) mod 10. lp_va (ps ((unat pos + k) mod 10)) = va)"
  using assms(2)
proof (induction "(unat start + 10 - unat pos) mod 10" arbitrary: pos)
  case 0
  have "unat start < 10" "unat pos < 10" using assms(1) 0 by (simp_all add: word_less_nat_alt)
  with 0(1) have "unat pos = unat start" by (simp add: ring_dist split: if_splits)
  then have "pos = start" by (rule unsigned_word_eqI)
  then show ?case by (subst ring_scan.simps) simp
next
  case (Suc n)
  let ?next = "(pos + 1) mod 10"
  have b: "unat start < 10" "unat pos < 10" using assms(1) Suc.prems by (simp_all add: word_less_nat_alt)
  have u: "unat ?next = (unat pos + 1) mod 10" using Suc.prems by (rule unat_ring_next)
  have n: "n = (unat start + 10 - unat ?next) mod 10"
    using Suc(2) b ring_next_less [of "pos + 1"] unfolding word_less_nat_alt u
    by (auto simp: ring_dist ring_succ split: if_splits)
  have ne: "pos \<noteq> start" using Suc(2) by auto
  have ih: "ring_scan ps start va ?next = Some (\<exists>k<n. lp_va (ps ((unat ?next + k) mod 10)) = va)"
    using Suc(1) [OF n ring_next_less] n by simp
  have sh: "(unat ?next + k) mod 10 = (unat pos + Suc k) mod 10" for k
    unfolding u by (simp add: mod_add_left_eq)
  have "(\<exists>k<Suc n. P k) \<longleftrightarrow> P 0 \<or> (\<exists>k<n. P (Suc k))" for P :: "nat \<Rightarrow> bool"
    by (auto simp: less_Suc_eq_0_disj)
  then show ?case
    using ne Suc.prems b ih by (subst ring_scan.simps) (simp add: Suc(2) [symmetric] sh not_le)
qed

lemma ring_scan_ring_list:
  assumes "counts_ok c"
  shows "ring_scan (lps c) (last_pte_start c) va (to_int_pos (last_pte_end c))
    = Some (va \<in> lp_va ` set (ring_list c))"
  using assms by (auto simp: counts_ok_def ring_scan_eq ring_list_def ring_len_def image_iff)

lemma ring_at: "e < 10 \<Longrightarrow> k < 10 \<Longrightarrow> (e + k) mod 10 = (if e + k < 10 then e + k else e + k - 10)"
  for e k :: nat
  by (simp add: le_mod_geq)

lemma ring_bounds:
  assumes "counts_ok c"
  shows "unat (last_pte_start c) < 10" "unat (last_pte_end c) < 10" "ring_len c < 10"
    "(unat (last_pte_end c) + ring_len c) mod 10 = unat (last_pte_start c)"
proof -
  show b: "unat (last_pte_start c) < 10" "unat (last_pte_end c) < 10" "ring_len c < 10"
    using assms by (simp_all add: counts_ok_def word_less_nat_alt ring_len_def)
  show "(unat (last_pte_end c) + ring_len c) mod 10 = unat (last_pte_start c)"
    using b by (simp add: ring_at ring_dist ring_len_def)
qed

lemma length_ring_list [simp]: "length (ring_list c) = ring_len c"
  by (simp add: ring_list_def)

text \<open>The queue the ring implements, with what the code does when it is full.\<close>

definition hot_add :: "last_pte \<Rightarrow> last_pte list \<Rightarrow> last_pte list" where
  "hot_add e q =
     (if lp_va e \<in> lp_va ` set q then q
      else if length q = 9 then []
      else q @ [e])"

definition hot_get :: "last_pte list \<Rightarrow> (u64 \<times> u64) \<times> last_pte list" where
  "hot_get q =
     (if length q = 9 then ((lp_sl1mfn (hd q), lp_va (hd q)), tl q) else ((0, 0), q))"

lemma ring_push:
  fixes e :: last_pte
  assumes "counts_ok c"
  defines "c' \<equiv> c\<lparr>last_pte_start := (last_pte_start c + 1) mod 10,
                   lps := (lps c)(unat (last_pte_start c) := e)\<rparr>"
  shows "ring_list c' = (if ring_len c = 9 then [] else ring_list c @ [e])"
proof -
  note b = ring_bounds [OF assms(1)]
  have s': "unat (last_pte_start c') = Suc (unat (last_pte_start c)) mod 10"
    using unat_ring_next [of "last_pte_start c"] assms(1) by (simp add: c'_def counts_ok_def)
  have e': "last_pte_end c' = last_pte_end c" by (simp add: c'_def)
  have len: "ring_len c' = (if ring_len c = 9 then 0 else Suc (ring_len c))"
    using b(1,2) unfolding ring_len_def s' e' by (auto simp: ring_dist ring_succ)
  have old: "lps c' ((unat (last_pte_end c) + k) mod 10) = lps c ((unat (last_pte_end c) + k) mod 10)"
    if "k < ring_len c" for k
  proof -
    have "(unat (last_pte_end c) + k) mod 10 \<noteq> (unat (last_pte_end c) + ring_len c) mod 10"
      using that b by (auto simp: ring_at split: if_splits)
    then show ?thesis by (simp add: c'_def b(4))
  qed
  show ?thesis
  proof (cases "ring_len c = 9")
    case True
    then show ?thesis by (simp add: ring_list_def len)
  next
    case False
    then have "ring_list c' = map (\<lambda>k. lps c' ((unat (last_pte_end c) + k) mod 10)) [0..<ring_len c]
        @ [lps c' ((unat (last_pte_end c) + ring_len c) mod 10)]"
      by (simp add: ring_list_def len e')
    also have "\<dots> = ring_list c @ [e]"
      using old by (simp add: ring_list_def b(4)) (simp add: c'_def)
    finally show ?thesis using False by simp
  qed
qed

lemma ring_pop:
  assumes "counts_ok c" "ring_len c = 9"
  shows "ring_list (c\<lparr>last_pte_end := (last_pte_end c + 1) mod 10\<rparr>) = tl (ring_list c)"
    "hd (ring_list c) = lps c (unat (last_pte_end c))"
proof -
  let ?c = "c\<lparr>last_pte_end := (last_pte_end c + 1) mod 10\<rparr>"
  note b = ring_bounds [OF assms(1)]
  have e': "unat (last_pte_end ?c) = Suc (unat (last_pte_end c)) mod 10"
    using unat_ring_next [of "last_pte_end c"] assms(1) by (simp add: counts_ok_def)
  have len: "ring_len ?c = 8"
    using b(1,2) assms(2) unfolding ring_len_def e'
    by (auto simp: ring_dist ring_succ split: if_splits)
  have "(Suc (unat (last_pte_end c)) mod 10 + k) mod 10 = (unat (last_pte_end c) + Suc k) mod 10" for k
    by (simp add: mod_add_left_eq)
  moreover have "tl (map f [0..<9]) = map (f \<circ> Suc) [0..<8]" for f :: "nat \<Rightarrow> last_pte"
    by (simp add: upt_rec)
  ultimately show "ring_list ?c = tl (ring_list c)"
    using e' by (simp add: ring_list_def len assms(2) comp_def del: upt_Suc)
  show "hd (ring_list c) = lps c (unat (last_pte_end c))"
    using b(2) by (simp add: ring_list_def assms(2) hd_map)
qed

lemma ring_full_iff:
  assumes "counts_ok c"
  shows "(last_pte_start c + 1) mod 10 = last_pte_end c \<longleftrightarrow> ring_len c = 9"
proof -
  note b = ring_bounds [OF assms]
  have "(last_pte_start c + 1) mod 10 = last_pte_end c
      \<longleftrightarrow> Suc (unat (last_pte_start c)) mod 10 = unat (last_pte_end c)"
    using unat_ring_next [of "last_pte_start c"] assms
    by (simp add: counts_ok_def word_unat_eq_iff)
  also have "\<dots> \<longleftrightarrow> ring_len c = 9"
    using b(1,2) unfolding ring_len_def by (auto simp: ring_dist ring_succ)
  finally show ?thesis .
qed

lemma add_last_refines:
  assumes "counts_ok c"
  shows "\<exists>c'. add_last_shadow_l1e sl1mfn va c = Some c' \<and> counts_ok c'
    \<and> ring_list c' = hot_add \<lparr>lp_va = va, lp_sl1mfn = sl1mfn\<rparr> (ring_list c)"
proof -
  have "last_pte_start c < 10" using assms by (simp add: counts_ok_def)
  then show ?thesis
    using assms ring_push [OF assms, of "\<lparr>lp_va = va, lp_sl1mfn = sl1mfn\<rparr>"]
    by (auto simp: add_last_shadow_l1e_def ring_scan_ring_list [OF assms] hot_add_def Let_def
        not_le) (simp_all add: counts_ok_def ring_next_less)
qed

lemma get_last_refines:
  assumes "counts_ok c"
  shows "\<exists>r c'. get_last_shadow_l1e c = Some (r, c') \<and> counts_ok c'
    \<and> (r, ring_list c') = hot_get (ring_list c)"
proof (cases "ring_len c = 9")
  case True
  then show ?thesis using assms ring_pop [OF assms True] ring_full_iff [OF assms]
    by (auto simp: get_last_shadow_l1e_def hot_get_def counts_ok_def ring_next_less not_le Let_def)
next
  case False
  then show ?thesis using assms ring_full_iff [OF assms]
    by (simp add: get_last_shadow_l1e_def hot_get_def)
qed

section \<open>The table of last accesses\<close>

abbreviation (input) hkey :: "u64 \<Rightarrow> nat" where "hkey mfn \<equiv> unat (mfn mod HASH)"

definition bucket_ok :: "nat \<Rightarrow> (nat \<Rightarrow> hash_node) \<Rightarrow> bool" where
  "bucket_ok key b \<longleftrightarrow>
     (\<forall>p. hn_mfn (b p) \<noteq> 0 \<longrightarrow> hkey (hn_mfn (b p)) = key)
     \<and> (hn_mfn (b 1) \<noteq> 0 \<longrightarrow> hn_mfn (b 0) \<noteq> 0 \<and> hn_mfn (b 0) \<noteq> hn_mfn (b 1))"

definition hash_ok :: "AET_ctrl \<Rightarrow> bool" where
  "hash_ok c \<longleftrightarrow> (\<forall>d key. bucket_ok key (hns' c d key))"

definition last_access :: "AET_ctrl \<Rightarrow> nat \<Rightarrow> u64 \<Rightarrow> (u64 \<times> u64) option" where
  "last_access c d mfn =
     (if mfn = 0 then None
      else if hn_mfn (hns' c d (hkey mfn) 0) = mfn
      then Some (hn_mem_counter (hns' c d (hkey mfn) 0), hn_pf (hns' c d (hkey mfn) 0))
      else if hn_mfn (hns' c d (hkey mfn) 1) = mfn
      then Some (hn_mem_counter (hns' c d (hkey mfn) 1), hn_pf (hns' c d (hkey mfn) 1))
      else None)"

definition bucket_full :: "AET_ctrl \<Rightarrow> nat \<Rightarrow> u64 \<Rightarrow> bool" where
  "bucket_full c d mfn \<longleftrightarrow> hn_mfn (hns' c d (hkey mfn) 0) \<noteq> 0 \<and> hn_mfn (hns' c d (hkey mfn) 1) \<noteq> 0"

text \<open>The histogram after one recorded reuse.\<close>

definition hist_add :: "(nat \<Rightarrow> u64) \<Rightarrow> u64 \<Rightarrow> u64 \<Rightarrow> (nat \<Rightarrow> u64)" where
  "hist_add h old_mc new_mc =
     (if new_mc < old_mc then h
      else let i = index_of (unat (new_mc - old_mc)) in h(i := h i + 1))"

lemma add_to_aet_histogram_eq:
  assumes "dom_index domain_id = Some d"
    and "add_to_aet_histogram domain_id old_mc new_mc c = Some c'"
  shows "c' = c\<lparr>aet_hist' := (aet_hist' c)(d := hist_add (aet_hist' c d) old_mc new_mc)\<rparr>"
proof (cases "new_mc < old_mc")
  case True
  then show ?thesis using assms by (simp add: add_to_aet_histogram_def hist_add_def)
next
  case False
  then obtain i where i: "domain_value_to_index (new_mc - old_mc) = Some i"
    using assms by (auto simp: add_to_aet_histogram_def split: bind_splits)
  then have "\<not> 50000 \<le> i" "unat i = index_of (unat (new_mc - old_mc))"
    using domain_value_to_index_SomeD [OF i] by (simp_all add: word_le_nat_alt)
  then show ?thesis using assms i False
    by (simp add: add_to_aet_histogram_def hist_add_def Let_def)
qed

lemma set_node_simps [simp]:
  "tot_ref' (set_node d k p n c) = tot_ref' c" "node_count' (set_node d k p n c) = node_count' c"
  "aet_hist' (set_node d k p n c) = aet_hist' c"
  "hash_conflict_num (set_node d k p n c) = hash_conflict_num c"
  "page_fault_count (set_node d k p n c) = page_fault_count c"
  "total_count (set_node d k p n c) = total_count c"
  "last_pte_start (set_node d k p n c) = last_pte_start c"
  "last_pte_end (set_node d k p n c) = last_pte_end c"
  "set_num (set_node d k p n c) = set_num c" "pds (set_node d k p n c) = pds c"
  "hns' (set_node d k p n c) d' k' p' = (if d' = d \<and> k' = k \<and> p' = p then n else hns' c d' k' p')"
  by (simp_all add: set_node_def)

lemma log_tracked_frame:
  "log_tracked tv c = Some c' \<Longrightarrow> c' = c\<lparr>tvs := tvs c', total_count := total_count c'\<rparr>"
  by (auto simp: log_tracked_def split: if_splits)

lemma add_user_mode_fault_count_frame:
  "add_user_mode_fault_count va l1 l1p ec mc c = Some c' \<Longrightarrow>
     c' = c\<lparr>user_mode_fault := user_mode_fault c + 1, total_count := total_count c', tvs := tvs c'\<rparr>"
  by (auto simp: add_user_mode_fault_count_def log_tracked_def split: if_splits)

lemma track_hit_effect:
  assumes "dom_index domain_id = Some d"
    and "track_hit domain_id d key p mfn mem_counter c = Some c'"
  defines "n \<equiv> hns' c d key p"
  shows "hns' c' = (hns' c)(d := (hns' c d)(key := (hns' c d key)
           (p := n\<lparr>hn_mem_counter := mem_counter, hn_pf := page_fault_count c\<rparr>)))"
    "tot_ref' c' = (tot_ref' c)(d := tot_ref' c d + 1)"
    "node_count' c' = node_count' c" "hash_conflict_num c' = hash_conflict_num c"
    "aet_hist' c' = (aet_hist' c)(d := hist_add (aet_hist' c d) (hn_mem_counter n)
           (mem_counter - 20 * (page_fault_count c - hn_pf n)))"
proof -
  let ?mcd = "(page_fault_count c - hn_pf n) * 20"
  obtain c1 where c1: "add_to_aet_histogram domain_id (hn_mem_counter n) (mem_counter - ?mcd) c = Some c1"
    using assms(2) by (auto simp: track_hit_def Let_def n_def split: bind_splits)
  note c1eq = add_to_aet_histogram_eq [OF assms(1) c1]
  obtain c2 t k u where c2: "c2 = c1\<lparr>user_mode_fault := u, total_count := k, tvs := t\<rparr>"
    and c': "c' = (set_node d key p (n\<lparr>hn_mem_counter := mem_counter, hn_pf := page_fault_count c2\<rparr>) c2)
               \<lparr>tot_ref' := (tot_ref' c2)(d := tot_ref' c2 d + 1)\<rparr>"
  proof (cases "hn_mem_counter n < mem_counter")
    case True
    then obtain i c2 where i: "domain_value_to_index (mem_counter - hn_mem_counter n) = Some i"
      and c2: "add_user_mode_fault_count mfn 0 ?mcd i (mem_counter - hn_mem_counter n - ?mcd) c1 = Some c2"
      using assms(2) c1 by (auto simp: track_hit_def Let_def n_def split: bind_splits)
    then show ?thesis using assms(2) c1 True add_user_mode_fault_count_frame [OF c2]
      by (intro that [of c2]) (auto simp: track_hit_def Let_def n_def)
  next
    case False
    then show ?thesis using assms(2) c1
      by (intro that [of c1 "tvs c1" "total_count c1" "user_mode_fault c1"])
        (auto simp: track_hit_def Let_def n_def)
  qed
  show "hns' c' = (hns' c)(d := (hns' c d)(key := (hns' c d key)
           (p := n\<lparr>hn_mem_counter := mem_counter, hn_pf := page_fault_count c\<rparr>)))"
    "tot_ref' c' = (tot_ref' c)(d := tot_ref' c d + 1)"
    "node_count' c' = node_count' c" "hash_conflict_num c' = hash_conflict_num c"
    "aet_hist' c' = (aet_hist' c)(d := hist_add (aet_hist' c d) (hn_mem_counter n)
           (mem_counter - 20 * (page_fault_count c - hn_pf n)))"
    using c2 by (auto simp: c' c1eq set_node_def mult.commute)
qed

text \<open>What one tracked fault does, on the table as a finite map from frames to accesses.\<close>

definition track_spec :: "AET_ctrl \<Rightarrow> nat \<Rightarrow> u64 \<Rightarrow> u64 \<Rightarrow> AET_ctrl \<Rightarrow> bool" where
  "track_spec c d mfn mc c' \<longleftrightarrow>
     (case last_access c d mfn of
        Some (old, pf) \<Rightarrow>
          last_access c' d = (last_access c d)(mfn \<mapsto> (mc, page_fault_count c))
          \<and> aet_hist' c' d = hist_add (aet_hist' c d) old (mc - 20 * (page_fault_count c - pf))
          \<and> tot_ref' c' d = tot_ref' c d + 1 \<and> node_count' c' d = node_count' c d
          \<and> hash_conflict_num c' = hash_conflict_num c
      | None \<Rightarrow>
          aet_hist' c' d = aet_hist' c d \<and> tot_ref' c' d = tot_ref' c d
          \<and> (if bucket_full c d mfn
             then last_access c' d = last_access c d \<and> node_count' c' d = node_count' c d
               \<and> hash_conflict_num c' = hash_conflict_num c + 1
             else last_access c' d = (last_access c d)(mfn \<mapsto> (mc, page_fault_count c))
               \<and> node_count' c' d = node_count' c d + 1
               \<and> hash_conflict_num c' = hash_conflict_num c))
     \<and> (\<forall>d'. d' \<noteq> d \<longrightarrow> last_access c' d' = last_access c d' \<and> aet_hist' c' d' = aet_hist' c d'
          \<and> tot_ref' c' d' = tot_ref' c d' \<and> node_count' c' d' = node_count' c d')"

lemma last_access_upd:
  assumes "hns' c' = (hns' c)(d := (hns' c d)(hkey mfn := (hns' c d (hkey mfn))(p := n)))"
    and "hash_ok c" "mfn \<noteq> 0" "hn_mfn n = mfn" "p = 0 \<or> p = 1"
    and "p = 1 \<Longrightarrow> hn_mfn (hns' c d (hkey mfn) 0) \<noteq> mfn"
    and "hn_mfn (hns' c d (hkey mfn) p) = mfn \<or> hn_mfn (hns' c d (hkey mfn) p) = 0"
  shows "last_access c' d = (last_access c d)(mfn \<mapsto> (hn_mem_counter n, hn_pf n))"
    "d' \<noteq> d \<Longrightarrow> last_access c' d' = last_access c d'"
proof -
  show "last_access c' d = (last_access c d)(mfn \<mapsto> (hn_mem_counter n, hn_pf n))"
  proof
    fix x
    show "last_access c' d x = ((last_access c d)(mfn \<mapsto> (hn_mem_counter n, hn_pf n))) x"
      using assms by (cases "x = mfn") (auto simp: last_access_def)
  qed
  show "d' \<noteq> d \<Longrightarrow> last_access c' d' = last_access c d'"
    using assms(1) by (auto simp: last_access_def fun_eq_iff)
qed

lemma hash_ok_upd:
  assumes "hns' c' = (hns' c)(d := (hns' c d)(hkey mfn := (hns' c d (hkey mfn))(p := n)))"
    and "hash_ok c" "mfn \<noteq> 0" "hn_mfn n = mfn" "p = 0 \<or> p = 1"
    and "p = 1 \<Longrightarrow> hn_mfn (hns' c d (hkey mfn) 0) \<noteq> mfn \<and> hn_mfn (hns' c d (hkey mfn) 0) \<noteq> 0"
    and "hn_mfn (hns' c d (hkey mfn) p) = mfn \<or> hn_mfn (hns' c d (hkey mfn) p) = 0"
  shows "hash_ok c'"
proof -
  have "bucket_ok (hkey mfn) (hns' c d (hkey mfn))" using assms(2) by (simp add: hash_ok_def)
  then have "bucket_ok (hkey mfn) ((hns' c d (hkey mfn))(p := n))"
    using assms(3-7) unfolding bucket_ok_def by (elim disjE) auto
  then show ?thesis using assms(1,2) by (simp add: hash_ok_def)
qed

lemma last_access_cong: "hns' c' = hns' c \<Longrightarrow> last_access c' = last_access c"
  by (simp add: last_access_def fun_eq_iff)

lemma hash_ok_cong: "hns' c' = hns' c \<Longrightarrow> hash_ok c' = hash_ok c"
  by (simp add: hash_ok_def)

lemma track_hit_spec:
  assumes "dom_index domain_id = Some d" "hash_ok c" "mfn \<noteq> 0" "p = 0 \<or> p = 1"
    and "hn_mfn (hns' c d (hkey mfn) p) = mfn"
    and "p = 1 \<Longrightarrow> hn_mfn (hns' c d (hkey mfn) 0) \<noteq> mfn"
    and hit: "track_hit domain_id d (hkey mfn) p mfn mc c = Some c'"
  shows "hash_ok c' \<and> track_spec c d mfn mc c'"
proof -
  let ?n = "hns' c d (hkey mfn) p"
  note eff = track_hit_effect [OF assms(1) hit]
  have la: "last_access c d mfn = Some (hn_mem_counter ?n, hn_pf ?n)"
    using assms by (auto simp: last_access_def)
  have "hash_ok c'"
    using assms by (intro hash_ok_upd [OF eff(1)]) (auto simp: hash_ok_def bucket_ok_def)
  moreover note last_access_upd [OF eff(1) assms(2,3) _ assms(4)]
  ultimately show ?thesis
    using assms eff by (simp add: track_spec_def la)
qed

lemma track_insert_spec:
  fixes mc :: u64
  assumes "hash_ok c" "mfn \<noteq> 0" "p = 0 \<or> p = 1" "hn_mfn (hns' c d (hkey mfn) p) = 0"
    and "p = 1 \<Longrightarrow> hn_mfn (hns' c d (hkey mfn) 0) \<noteq> mfn \<and> hn_mfn (hns' c d (hkey mfn) 0) \<noteq> 0"
  defines "n \<equiv> \<lparr>hn_mfn = mfn, hn_mem_counter = mc, hn_pf = page_fault_count c\<rparr>"
  defines "c' \<equiv> (set_node d (hkey mfn) p n c)\<lparr>node_count' := (node_count' c)(d := node_count' c d + 1)\<rparr>"
  shows "hash_ok c' \<and> track_spec c d mfn mc c'"
proof -
  have eff: "hns' c' = (hns' c)(d := (hns' c d)(hkey mfn := (hns' c d (hkey mfn))(p := n)))"
    by (simp add: c'_def set_node_def)
  have "hn_mfn (hns' c d (hkey mfn) 1) \<noteq> mfn" "p = 0 \<Longrightarrow> hn_mfn (hns' c d (hkey mfn) 1) = 0"
    using assms(1-4) by (auto simp: hash_ok_def bucket_ok_def)
  then have la: "last_access c d mfn = None" "\<not> bucket_full c d mfn"
    using assms by (auto simp: last_access_def bucket_full_def)
  have "hash_ok c'"
    using assms by (intro hash_ok_upd [OF eff]) (auto simp: n_def)
  moreover have "last_access c' d = (last_access c d)(mfn \<mapsto> (mc, page_fault_count c))"
    "d' \<noteq> d \<Longrightarrow> last_access c' d' = last_access c d'" for d'
    using assms last_access_upd [OF eff assms(1,2) _ assms(3)] by (simp_all add: n_def)
  ultimately show ?thesis by (simp add: track_spec_def la c'_def)
qed

lemma track_aet_fault_spec:
  assumes "dom_index domain_id = Some d" "hash_ok c" "mfn \<noteq> 0"
    and "track_aet_fault domain_id mfn mc c = Some c'"
  shows "hash_ok c' \<and> track_spec c d mfn mc c'"
proof -
  let ?m = "\<lambda>p. hn_mfn (hns' c d (hkey mfn) p)"
  have pos: "[0..<2] = [0, 1::nat]" by (simp add: upt_rec)
  have tp: "track_positions domain_id d (hkey mfn) mfn mc [0, 1] c = Some c'"
    using assms(4) unfolding track_aet_fault_def assms(1) pos by simp
  consider "?m 0 = mfn" | "?m 0 \<noteq> mfn" "?m 0 = 0" | "?m 0 \<noteq> mfn" "?m 0 \<noteq> 0" "?m 1 = mfn"
    | "?m 0 \<noteq> mfn" "?m 0 \<noteq> 0" "?m 1 \<noteq> mfn" "?m 1 = 0"
    | "?m 0 \<noteq> mfn" "?m 0 \<noteq> 0" "?m 1 \<noteq> mfn" "?m 1 \<noteq> 0" by blast
  then show ?thesis
  proof cases
    case 1
    with tp have "track_hit domain_id d (hkey mfn) 0 mfn mc c = Some c'" by simp
    then show ?thesis using track_hit_spec [OF assms(1-3), of 0 mc c'] 1 by (metis zero_neq_one)
  next
    case 2
    with tp assms(2,3) track_insert_spec [of c mfn 0 d mc] show ?thesis by (simp add: Let_def)
  next
    case 3
    with tp have "track_hit domain_id d (hkey mfn) 1 mfn mc c = Some c'" by simp
    then show ?thesis using track_hit_spec [OF assms(1-3), of 1 mc c'] 3 by metis
  next
    case 4
    with tp assms(2,3) track_insert_spec [of c mfn 1 d mc] show ?thesis by (simp add: Let_def)
  next
    case 5
    then have "c' = c\<lparr>hash_conflict_num := hash_conflict_num c + 1\<rparr>" using tp by simp
    moreover have "last_access c d mfn = None" "bucket_full c d mfn"
      using 5 by (auto simp: last_access_def bucket_full_def)
    ultimately show ?thesis using assms(2) last_access_cong [of c' c] hash_ok_cong [of c' c]
      by (simp add: track_spec_def)
  qed
qed

text \<open>
  Frame 0 marks an empty node, so a fault on it finds an empty node of its bucket and takes it for its
  own: access times change, the frames in the table do not.
\<close>

lemma hash_ok_mfns:
  assumes "hash_ok c" "\<And>d key p. hn_mfn (hns' c' d key p) = hn_mfn (hns' c d key p)"
  shows "hash_ok c'"
  using assms by (simp add: hash_ok_def bucket_ok_def)

lemma track_zero_hash_ok:
  assumes "dom_index domain_id = Some d" "hash_ok c" "track_positions domain_id d key 0 mc ps c = Some c'"
  shows "hash_ok c'"
  using assms(3)
proof (induction ps)
  case Nil
  then show ?case using assms(2) by (auto intro: hash_ok_mfns)
next
  case (Cons p ps)
  show ?case
  proof (cases "hn_mfn (hns' c d key p) = 0")
    case True
    then have "track_hit domain_id d key p 0 mc c = Some c'" using Cons.prems by simp
    from track_hit_effect(1) [OF assms(1) this] show ?thesis by (intro hash_ok_mfns [OF assms(2)]) simp
  next
    case False
    then show ?thesis using Cons by simp
  qed
qed

lemma track_aet_fault_hash_ok:
  assumes "dom_index domain_id = Some d" "hash_ok c" "track_aet_fault domain_id mfn mc c = Some c'"
  shows "hash_ok c'"
proof (cases "mfn = 0")
  case True
  then have "track_positions domain_id d (hkey 0) 0 mc [0..<HASH_CONFLICT_NUM] c = Some c'"
    using assms(1,3) by (simp add: track_aet_fault_def)
  then show ?thesis by (rule track_zero_hash_ok [OF assms(1,2)])
next
  case False
  then show ?thesis using track_aet_fault_spec [OF assms(1,2) _ assms(3)] by blast
qed

section \<open>The pending set\<close>

definition pending_list :: "AET_ctrl \<Rightarrow> pending_node list" where
  "pending_list c = map (pds c) [0..<unat (set_num c)]"

lemma pending_scan_iff: "pending_scan ps x n \<longleftrightarrow> x \<in> pd_sl1mfn ` ps ` {..<n}"
  by (induction n) (auto simp: lessThan_Suc)

lemma pending_scan_start:
  assumes "set_num c \<le> 1000"
  shows "sint (ucast (set_num c - 1) :: u32) = int (unat (set_num c)) - 1"
proof (cases "set_num c = 0")
  case False
  have n: "uint (set_num c) \<le> 1000" using assms by (simp add: word_le_def)
  have pos: "0 < uint (set_num c)" using False by (simp add: word_gt_0 flip: word_less_def [of 0, simplified])
  have u: "uint (set_num c - 1) = int (unat (set_num c)) - 1"
    using False uint_pred_le [of 0 "set_num c"] by (simp add: word_gt_0)
  have "uint (ucast (set_num c - 1) :: u32) = int (unat (set_num c)) - 1"
    using n pos by (simp add: unsigned_ucast_eq u take_bit_int_eq_self_iff)
  then show ?thesis
    using n pos by (simp add: sint_uint signed_take_bit_int_eq_self)
next
  case True
  have "ucast (- 1 :: u64) = (- 1 :: u32)" by (rule bit_word_eqI) (simp add: bit_simps)
  then show ?thesis using True by simp
qed

lemma add_to_pending_page_refines:
  assumes "counts_ok c"
  defines "node \<equiv> \<lambda>sl1mfn va. \<lparr>pd_sl1mfn = sl1mfn, pd_va = va - (va AND 0x1FFFFF AND NOT 0xFFF)\<rparr>"
  shows "\<exists>c'. add_to_pending_page sl1mfn va c = Some c' \<and> counts_ok c'
    \<and> pending_list c' =
        (if sl1mfn \<in> pd_sl1mfn ` set (pending_list c) \<or> length (pending_list c) = 1000
         then pending_list c else pending_list c @ [node sl1mfn va])"
proof -
  let ?n = "unat (set_num c)"
  have le: "set_num c \<le> 1000" "?n \<le> 1000" using assms(1) by (simp_all add: counts_ok_def word_le_nat_alt)
  have start: "\<not> 1000 \<le> sint (ucast (set_num c - 1) :: u32)"
    "nat (sint (ucast (set_num c - 1) :: u32) + 1) = ?n"
    unfolding pending_scan_start [OF le(1)] using le(2) by linarith+
  have scan: "pending_scan (pds c) sl1mfn ?n \<longleftrightarrow> sl1mfn \<in> pd_sl1mfn ` set (pending_list c)"
    by (auto simp: pending_scan_iff pending_list_def)
  have full: "1000 \<le> set_num c \<longleftrightarrow> length (pending_list c) = 1000"
    using le by (auto simp: pending_list_def word_le_nat_alt)
  have succ: "unat (set_num c + 1) = Suc ?n" "set_num c + 1 \<le> 1000" if "\<not> 1000 \<le> set_num c"
    using that by (simp_all add: word_le_nat_alt unat_word_ariths)
  show ?thesis
  proof (cases "pending_scan (pds c) sl1mfn ?n \<or> 1000 \<le> set_num c")
    case True
    then have "add_to_pending_page sl1mfn va c = Some c"
      using start by (auto simp: add_to_pending_page_def Let_def)
    then show ?thesis using True scan full assms(1) by auto
  next
    case False
    let ?c = "c\<lparr>pds := (pds c)(?n := node sl1mfn va), set_num := set_num c + 1\<rparr>"
    have "add_to_pending_page sl1mfn va c = Some ?c"
      using False start by (simp add: add_to_pending_page_def Let_def node_def)
    moreover have "pending_list ?c = pending_list c @ [node sl1mfn va]"
      using False succ(1) by (simp add: pending_list_def)
    moreover have "counts_ok ?c" using assms(1) False succ(2) by (simp add: counts_ok_def)
    ultimately show ?thesis using False scan full by auto
  qed
qed

lemma pending_distinct_preserved:
  assumes "counts_ok c" "distinct (map pd_sl1mfn (pending_list c))"
    and "add_to_pending_page sl1mfn va c = Some c'"
  shows "distinct (map pd_sl1mfn (pending_list c'))"
  using add_to_pending_page_refines [OF assms(1), of sl1mfn va] assms(2,3) by auto

section \<open>Marking shadow entries\<close>

lemma get_pte_flags_low: "bit (get_pte_flags x) n \<longleftrightarrow> bit x n" if "n < 12"
proof -
  have "(0xFFF :: u32) = mask 12" by (simp add: mask_eq_exp_minus_1)
  then have "bit (0xFFF :: u32) n" using that by (simp only: bit_mask_iff) simp
  then show ?thesis using that by (auto simp: get_pte_flags_def bit_simps)
qed

lemma word_and_bit: "(x AND push_bit n 1) \<noteq> 0 \<longleftrightarrow> bit x n" if "n < LENGTH('a)" for x :: "'a::len word"
  using that by (simp add: and_exp_eq_0_iff_not_bit push_bit_eq_mult)

lemma sl1e_markable_iff:
  "sl1e_markable e \<longleftrightarrow> bit e 0 \<and> bit e 1 \<and> bit e 2 \<and> e AND SH_L1E_AET_MAGIC = 0"
proof -
  have "get_pte_flags e AND 1 \<noteq> 0 \<longleftrightarrow> bit e 0" "get_pte_flags e AND 2 \<noteq> 0 \<longleftrightarrow> bit e 1"
    "get_pte_flags e AND 4 \<noteq> 0 \<longleftrightarrow> bit e 2"
    using word_and_bit [of 0 "get_pte_flags e"] word_and_bit [of 1 "get_pte_flags e"]
      word_and_bit [of 2 "get_pte_flags e"] get_pte_flags_low [of _ e] by simp_all
  then show ?thesis by (auto simp: sl1e_markable_def shadow_l1e_get_flags_def)
qed

lemma mark_not_markable: "\<not> sl1e_markable (sl1e_mark e)"
proof -
  have "\<not> bit (sl1e_mark e) 2" by (simp add: sl1e_mark_def bit_simps)
  then show ?thesis by (simp add: sl1e_markable_iff)
qed

lemma add_set_aet_magic_count_ok:
  assumes "counts_ok c"
  shows "\<exists>c'. add_set_aet_magic_count va l1 l1p ec mc c = Some c' \<and> counts_ok c' \<and> pds c' = pds c
    \<and> set_num c' = set_num c \<and> hns' c' = hns' c \<and> aet_hist' c' = aet_hist' c"
proof -
  let ?tv = "\<lparr>tv_va = va, tv_l1p = l1p, tv_l1 = l1, tv_type = SET, tv_ec = ec, tv_mc = mc\<rparr>"
  have "total_count c \<le> 39990" using assms by (simp add: counts_ok_def)
  then obtain c1 where c1: "log_tracked ?tv c = Some c1" "total_count c1 \<le> 39990"
    using log_tracked_ok by blast
  have fr: "last_pte_start c1 = last_pte_start c" "last_pte_end c1 = last_pte_end c"
    "pds c1 = pds c" "set_num c1 = set_num c" "hns' c1 = hns' c" "aet_hist' c1 = aet_hist' c"
    by (subst log_tracked_frame [OF c1(1)], simp)+
  show ?thesis using c1 assms fr by (simp add: add_set_aet_magic_count_def counts_ok_def)
qed

text \<open>The entries of a page after one visit of the pending loop.\<close>

definition mark_entries :: "nat set \<Rightarrow> (nat \<Rightarrow> u64) \<Rightarrow> nat \<Rightarrow> u64" where
  "mark_entries A pg i = (if i \<in> A \<and> sl1e_markable (pg i) then sl1e_mark (pg i) else pg i)"

lemma mark_entries_twice: "mark_entries A (mark_entries B pg) = mark_entries (A \<union> B) pg"
  by (auto simp: mark_entries_def fun_eq_iff mark_not_markable)

definition pending_frame :: "aet_machine \<Rightarrow> aet_machine \<Rightarrow> bool" where
  "pending_frame m m' \<longleftrightarrow> counts_ok (aet m') \<and> pds (aet m') = pds (aet m)
     \<and> set_num (aet m') = set_num (aet m) \<and> hns' (aet m') = hns' (aet m)
     \<and> aet_hist' (aet m') = aet_hist' (aet m) \<and> sh_type m' = sh_type m \<and> aet_pmu m' = aet_pmu m"

lemma set_pending_entries_effect:
  assumes "counts_ok (aet m)"
  shows "\<exists>m'. set_pending_entries map_va mc sl1mfn va is m = Some m' \<and> pending_frame m m'
    \<and> sh_page m' = (sh_page m)(sl1mfn := mark_entries (set is) (sh_page m sl1mfn))"
  using assms
proof (induction "is" arbitrary: va m)
  case Nil
  then show ?case by (simp add: pending_frame_def mark_entries_def)
next
  case (Cons i "is")
  obtain m1 where m1: "set_pending_entry map_va mc sl1mfn va i m = Some m1" "pending_frame m m1"
    "sh_page m1 = (sh_page m)(sl1mfn := mark_entries {i} (sh_page m sl1mfn))"
  proof (cases "sl1e_markable (sh_page m sl1mfn i)")
    case True
    obtain c where "add_set_aet_magic_count va (sh_page m sl1mfn i) (map_va sl1mfn + 8 * of_nat i) 1 mc (aet m) = Some c"
      "counts_ok c" "pds c = pds (aet m)" "set_num c = set_num (aet m)" "hns' c = hns' (aet m)"
      "aet_hist' c = aet_hist' (aet m)"
      using add_set_aet_magic_count_ok [OF Cons.prems] by blast
    then show ?thesis using True
      by (intro that) (auto simp: set_pending_entry_def pending_frame_def mark_entries_def fun_eq_iff)
  next
    case False
    then show ?thesis using Cons.prems
      by (intro that [of m]) (auto simp: set_pending_entry_def pending_frame_def mark_entries_def fun_eq_iff)
  qed
  have "counts_ok (aet m1)" using m1(2) by (simp add: pending_frame_def)
  then obtain m2 where "set_pending_entries map_va mc sl1mfn (va + 0x1000) is m1 = Some m2"
    "pending_frame m1 m2" "sh_page m2 = (sh_page m1)(sl1mfn := mark_entries (set is) (sh_page m1 sl1mfn))"
    using Cons.IH [of m1 "va + 0x1000"] by blast
  then show ?case using m1
    by (auto simp: mark_entries_twice pending_frame_def Un_commute fun_eq_iff)
qed

text \<open>What the pending loop does to the shadow pages: the first entries of listed L1 shadows.\<close>

definition mark_pages :: "(u64 \<Rightarrow> u32) \<Rightarrow> u64 set \<Rightarrow> (u64 \<Rightarrow> nat \<Rightarrow> u64) \<Rightarrow> u64 \<Rightarrow> nat \<Rightarrow> u64" where
  "mark_pages types F pages f =
     (if f \<in> F \<and> (types f = SH_type_l1_shadow \<or> types f = SH_type_fl1_shadow)
      then mark_entries {0, 1} (pages f) else pages f)"

lemma mark_pages_twice: "mark_pages ty A (mark_pages ty B pg) = mark_pages ty (A \<union> B) pg"
  by (auto simp: mark_pages_def fun_eq_iff mark_entries_twice)

lemma set_pending_loop_effect:
  assumes "counts_ok (aet m)" "\<forall>j\<in>set js. j < 1000"
  shows "\<exists>m'. set_pending_loop map_va mc js m = Some m' \<and> pending_frame m m'
    \<and> sh_page m' = mark_pages (sh_type m) ((\<lambda>j. pd_sl1mfn (pds (aet m) j)) ` set js) (sh_page m)"
  using assms
proof (induction js arbitrary: m)
  case Nil
  then show ?case by (auto simp: pending_frame_def mark_pages_def)
next
  case (Cons j js)
  let ?f = "pd_sl1mfn (pds (aet m) j)" and ?va = "pd_va (pds (aet m) j)"
  let ?l1 = "sh_type m ?f = SH_type_l1_shadow \<or> sh_type m ?f = SH_type_fl1_shadow"
  have two: "set [0..<2] = {0, 1::nat}" by auto
  obtain m1 where m1: "(if ?l1 then set_pending_entries map_va mc ?f ?va [0..<2] m else Some m) = Some m1"
    "pending_frame m m1" "sh_page m1 = mark_pages (sh_type m) {?f} (sh_page m)"
  proof (cases ?l1)
    case True
    obtain m1 where "set_pending_entries map_va mc ?f ?va [0..<2] m = Some m1" "pending_frame m m1"
      "sh_page m1 = (sh_page m)(?f := mark_entries {0, 1} (sh_page m ?f))"
      using set_pending_entries_effect [OF Cons.prems(1), of map_va mc ?f ?va "[0..<2]"]
      unfolding two by blast
    moreover have "(sh_page m)(?f := mark_entries {0, 1} (sh_page m ?f)) = mark_pages (sh_type m) {?f} (sh_page m)"
      using True by (auto simp: mark_pages_def fun_eq_iff)
    ultimately show ?thesis using True by (intro that) simp_all
  next
    case False
    then show ?thesis using Cons.prems(1)
      by (intro that [of m]) (auto simp: pending_frame_def mark_pages_def fun_eq_iff)
  qed
  have "counts_ok (aet m1)" "pds (aet m1) = pds (aet m)" "sh_type m1 = sh_type m"
    using m1(2) by (simp_all add: pending_frame_def)
  then obtain m2 where "set_pending_loop map_va mc js m1 = Some m2" "pending_frame m1 m2"
    "sh_page m2 = mark_pages (sh_type m) ((\<lambda>j. pd_sl1mfn (pds (aet m) j)) ` set js) (sh_page m1)"
    using Cons.IH [of m1] Cons.prems(2) by auto
  then show ?case using m1 Cons.prems(2)
    by (auto simp: Let_def pending_frame_def mark_pages_twice Un_commute not_le)
qed

lemma set_pending_page_effect:
  assumes "counts_ok (aet m)"
  shows "\<exists>m'. set_pending_page map_va m = Some m' \<and> counts_ok (aet m') \<and> pending_list (aet m') = []
    \<and> sh_page m' = mark_pages (sh_type m) (pd_sl1mfn ` set (pending_list (aet m))) (sh_page m)
    \<and> sh_type m' = sh_type m \<and> hns' (aet m') = hns' (aet m) \<and> aet_hist' (aet m') = aet_hist' (aet m)"
proof (cases "set_num (aet m) = 0")
  case True
  then show ?thesis using assms
    by (auto simp: set_pending_page_def pending_list_def mark_pages_def)
next
  case False
  obtain mc pmu where p: "pmu_mem_return 1 0 (aet_pmu m) = (mc, pmu)" by (cases "pmu_mem_return 1 0 (aet_pmu m)")
  let ?m = "m\<lparr>aet_pmu := pmu\<rparr>"
  have "unat (set_num (aet m)) \<le> 1000" using assms by (simp add: counts_ok_def word_le_nat_alt)
  then obtain m' where m': "set_pending_loop map_va mc [0..<unat (set_num (aet m))] ?m = Some m'"
    "pending_frame ?m m'"
    "sh_page m' = mark_pages (sh_type m) ((\<lambda>j. pd_sl1mfn (pds (aet m) j)) ` set [0..<unat (set_num (aet m))]) (sh_page m)"
    using set_pending_loop_effect [of ?m "[0..<unat (set_num (aet m))]" map_va mc] assms by auto
  moreover have "(\<lambda>j. pd_sl1mfn (pds (aet m) j)) ` set [0..<unat (set_num (aet m))] = pd_sl1mfn ` set (pending_list (aet m))"
    by (simp add: pending_list_def image_image)
  ultimately show ?thesis using False
    by (simp add: set_pending_page_def p pending_frame_def counts_ok_def pending_list_def)
qed

section \<open>Reachable states\<close>

definition aet_inv :: "AET_ctrl \<Rightarrow> bool" where
  "aet_inv c \<longleftrightarrow> counts_ok c \<and> hash_ok c \<and> distinct (map pd_sl1mfn (pending_list c))"

text \<open>
  The steps the hypervisor takes on the tracker: commands, fault accounting, the ring, the
  pending set and its processing.
\<close>

inductive aet_step :: "aet_machine \<Rightarrow> aet_machine \<Rightarrow> bool" where
  cmd: "set_aet_cmd cmd arg1 arg2 (aet m) = Some c \<Longrightarrow> aet_step m (m\<lparr>aet := c\<rparr>)"
| track: "track_aet_fault domain_id mfn mc (aet m) = Some c \<Longrightarrow> aet_step m (m\<lparr>aet := c\<rparr>)"
| log_set: "add_set_aet_magic_count va l1 l1p ec mc (aet m) = Some c \<Longrightarrow> aet_step m (m\<lparr>aet := c\<rparr>)"
| log_user: "add_user_mode_fault_count va l1 l1p ec mc (aet m) = Some c \<Longrightarrow> aet_step m (m\<lparr>aet := c\<rparr>)"
| count: "f \<in> {add_reversed_aet_magic_count va l1, add_tracked_aet_magic_count1,
      add_tracked_aet_magic_count2, add_page_fault_count, add_reserved_bit_fault_count,
      add_both_fault_count, set_aet_start sl4mfn} \<Longrightarrow> aet_step m (m\<lparr>aet := f (aet m)\<rparr>)"
| hot_in: "add_last_shadow_l1e sl1mfn va (aet m) = Some c \<Longrightarrow> aet_step m (m\<lparr>aet := c\<rparr>)"
| hot_out: "get_last_shadow_l1e (aet m) = Some (r, c) \<Longrightarrow> aet_step m (m\<lparr>aet := c\<rparr>)"
| pend: "add_to_pending_page sl1mfn va (aet m) = Some c \<Longrightarrow> aet_step m (m\<lparr>aet := c\<rparr>)"
| mark: "set_pending_page map_va m = Some m' \<Longrightarrow> aet_step m m'"

lemma aet_inv_cong:
  assumes "aet_inv c" "total_count c' \<le> 39990"
    and "last_pte_start c' = last_pte_start c" "last_pte_end c' = last_pte_end c"
    and "set_num c' = set_num c" "pds c' = pds c" "hns' c' = hns' c"
  shows "aet_inv c'"
  using assms by (simp add: aet_inv_def counts_ok_def pending_list_def hash_ok_def)

lemma aet_inv_total: "aet_inv c \<Longrightarrow> total_count c \<le> 39990"
  by (simp add: aet_inv_def counts_ok_def)

lemma log_tracked_inv:
  assumes "aet_inv c" "log_tracked tv c = Some c'"
  shows "aet_inv c'"
proof (rule aet_inv_cong [OF assms(1)])
  show "total_count c' \<le> 39990"
    using log_tracked_ok [OF aet_inv_total [OF assms(1)], of tv] assms(2) by simp
qed (subst log_tracked_frame [OF assms(2)], simp)+

lemma add_user_mode_fault_count_inv:
  assumes "aet_inv c" "add_user_mode_fault_count va l1 l1p ec mc c = Some c'"
  shows "aet_inv c'"
proof -
  have "aet_inv (c\<lparr>user_mode_fault := user_mode_fault c + 1\<rparr>)"
    using aet_inv_total [OF assms(1)] by (intro aet_inv_cong [OF assms(1)]) simp_all
  then show ?thesis using assms(2) log_tracked_inv by (auto simp: add_user_mode_fault_count_def)
qed

lemma add_user_mode_fault_count_Some:
  "total_count c \<le> 39990 \<Longrightarrow> \<exists>c'. add_user_mode_fault_count va l1 l1p ec mc c = Some c'"
  using log_tracked_ok [of "c\<lparr>user_mode_fault := user_mode_fault c + 1\<rparr>"]
  by (auto simp: add_user_mode_fault_count_def)

lemma track_hit_bounds:
  assumes "aet_inv c" "dom_index domain_id = Some d"
    and "track_hit domain_id d key p mfn mc c = Some c'"
  shows "total_count c' \<le> 39990 \<and> last_pte_start c' = last_pte_start c \<and> last_pte_end c' = last_pte_end c
    \<and> set_num c' = set_num c \<and> pds c' = pds c"
proof -
  let ?n = "hns' c d key p"
  let ?mcd = "(page_fault_count c - hn_pf ?n) * 20"
  obtain c1 where c1: "add_to_aet_histogram domain_id (hn_mem_counter ?n) (mc - ?mcd) c = Some c1"
    using assms(3) by (auto simp: track_hit_def Let_def split: bind_splits)
  note c1eq = add_to_aet_histogram_eq [OF assms(2) c1]
  have inv1: "aet_inv c1" unfolding c1eq
    using aet_inv_total [OF assms(1)] by (intro aet_inv_cong [OF assms(1)]) simp_all
  show ?thesis
  proof (cases "hn_mem_counter ?n < mc")
    case True
    then obtain i c2 where c2: "add_user_mode_fault_count mfn 0 ?mcd i (mc - hn_mem_counter ?n - ?mcd) c1 = Some c2"
      and c': "c' = (set_node d key p (?n\<lparr>hn_mem_counter := mc, hn_pf := page_fault_count c2\<rparr>) c2)
        \<lparr>tot_ref' := (tot_ref' c2)(d := tot_ref' c2 d + 1)\<rparr>"
      using assms(3) c1 by (auto simp: track_hit_def Let_def split: bind_splits)
    have "aet_inv c2" using inv1 c2 by (rule add_user_mode_fault_count_inv)
    then have t: "total_count c2 \<le> 39990" by (rule aet_inv_total)
    have "last_pte_start c2 = last_pte_start c" "last_pte_end c2 = last_pte_end c"
      "set_num c2 = set_num c" "pds c2 = pds c"
      by (subst add_user_mode_fault_count_frame [OF c2], simp add: c1eq)+
    with t show ?thesis by (simp add: c')
  next
    case False
    then show ?thesis using assms(3) c1 aet_inv_total [OF inv1]
      by (auto simp: track_hit_def Let_def c1eq)
  qed
qed

lemma track_aet_fault_inv:
  assumes "aet_inv c" "track_aet_fault domain_id mfn mc c = Some c'"
  shows "aet_inv c'"
proof -
  obtain d where d: "dom_index domain_id = Some d"
    using assms(2) by (auto simp: track_aet_fault_def split: bind_splits)
  have frame: "total_count c' \<le> 39990 \<and> last_pte_start c' = last_pte_start c
      \<and> last_pte_end c' = last_pte_end c \<and> set_num c' = set_num c \<and> pds c' = pds c"
    if "track_positions domain_id d key mfn mc ps c = Some c'" for key ps
    using that
  proof (induction ps)
    case Nil
    then show ?case using aet_inv_total [OF assms(1)] by auto
  next
    case (Cons p ps)
    then show ?case using track_hit_bounds [OF assms(1) d] aet_inv_total [OF assms(1)]
      by (auto simp: Let_def split: if_splits)
  qed
  have "hash_ok c'" using track_aet_fault_hash_ok [OF d _ assms(2)] assms(1) by (simp add: aet_inv_def)
  then show ?thesis
    using frame assms(1,2) d
    by (auto simp: aet_inv_def counts_ok_def pending_list_def track_aet_fault_def)
qed

lemma ring_ops_frame:
  "add_last_shadow_l1e sl1mfn va c = Some c' \<Longrightarrow>
     c' = c\<lparr>last_pte_start := last_pte_start c', lps := lps c'\<rparr>"
  "get_last_shadow_l1e c = Some (r, c'') \<Longrightarrow> c'' = c\<lparr>last_pte_end := last_pte_end c''\<rparr>"
  by (auto simp: add_last_shadow_l1e_def get_last_shadow_l1e_def Let_def
      split: bind_splits if_splits)

lemma add_to_pending_page_frame:
  "add_to_pending_page sl1mfn va c = Some c' \<Longrightarrow> c' = c\<lparr>set_num := set_num c', pds := pds c'\<rparr>"
  by (auto simp: add_to_pending_page_def Let_def split: if_splits)

lemma set_aet_cmd_frame:
  "set_aet_cmd cmd arg1 arg2 c = Some c' \<Longrightarrow> c' = c\<lparr>open' := open' c', track' := track' c'\<rparr>"
  by (auto simp: set_aet_cmd_def set_aet_track_open_def set_track_def Let_def
      split: bind_splits if_splits)

lemma aet_inv_ring:
  assumes "aet_inv c" "counts_ok c'" "hns' c' = hns' c" "set_num c' = set_num c" "pds c' = pds c"
  shows "aet_inv c'"
  using assms by (simp add: aet_inv_def hash_ok_def pending_list_def)

lemma aet_step_inv:
  assumes "aet_step m m'" "aet_inv (aet m)"
  shows "aet_inv (aet m')"
  using assms
proof (cases rule: aet_step.cases)
  case (cmd cmd arg1 arg2 c)
  have "aet_inv c"
    by (rule aet_inv_cong [OF assms(2)]; subst set_aet_cmd_frame [OF cmd(2)])
      (simp_all add: aet_inv_total [OF assms(2)])
  then show ?thesis using cmd by simp
next
  case (track domain_id mfn mc c)
  then show ?thesis using track_aet_fault_inv [OF assms(2)] by simp
next
  case (log_set va l1 l1p ec mc c)
  then obtain c1 where c1: "log_tracked \<lparr>tv_va = va, tv_l1p = l1p, tv_l1 = l1, tv_type = SET, tv_ec = ec, tv_mc = mc\<rparr> (aet m) = Some c1"
    "c = c1\<lparr>set_aet_magic_count := set_aet_magic_count c1 + 1\<rparr>"
    by (auto simp: add_set_aet_magic_count_def split: bind_splits)
  have i: "aet_inv c1" using log_tracked_inv [OF assms(2) c1(1)] .
  then have "aet_inv c" unfolding c1(2)
    using aet_inv_total [OF i] by (intro aet_inv_cong [OF i]) simp_all
  then show ?thesis using log_set by simp
next
  case (log_user va l1 l1p ec mc c)
  then show ?thesis using add_user_mode_fault_count_inv [OF assms(2)] by simp
next
  case (count f va l1 sl4mfn)
  have "aet_inv (f (aet m))"
    using count(2) aet_inv_total [OF assms(2)]
    by (intro aet_inv_cong [OF assms(2)])
      (auto simp: add_reversed_aet_magic_count_def add_tracked_aet_magic_count1_def
        add_tracked_aet_magic_count2_def add_page_fault_count_def add_reserved_bit_fault_count_def
        add_both_fault_count_def set_aet_start_def)
  then show ?thesis using count by simp
next
  case (hot_in sl1mfn va c)
  have "counts_ok c" using add_last_refines [of "aet m" sl1mfn va] assms(2) hot_in(2) by (auto simp: aet_inv_def)
  then have "aet_inv c"
    by (rule aet_inv_ring [OF assms(2)]; subst ring_ops_frame(1) [OF hot_in(2)]) simp_all
  then show ?thesis using hot_in by simp
next
  case (hot_out r c)
  have "counts_ok c" using get_last_refines [of "aet m"] assms(2) hot_out(2) by (auto simp: aet_inv_def)
  then have "aet_inv c"
    by (rule aet_inv_ring [OF assms(2)]; subst ring_ops_frame(2) [OF hot_out(2)]) simp_all
  then show ?thesis using hot_out by simp
next
  case (pend sl1mfn va c)
  have "counts_ok (aet m)" "distinct (map pd_sl1mfn (pending_list (aet m)))" "hash_ok (aet m)"
    using assms(2) by (simp_all add: aet_inv_def)
  moreover have "hns' c = hns' (aet m)" by (subst add_to_pending_page_frame [OF pend(2)]) simp
  ultimately have "aet_inv c"
    using pending_distinct_preserved [OF _ _ pend(2)] add_to_pending_page_refines [of "aet m" sl1mfn va] pend(2)
    by (auto simp: aet_inv_def hash_ok_def)
  then show ?thesis using pend by simp
next
  case (mark map_va)
  then show ?thesis
    using set_pending_page_effect [of m map_va] assms(2)
    by (auto simp: aet_inv_def hash_ok_def)
qed

lemma aet_inv_zero: "aet_inv zero_AET_ctrl"
  by (simp add: aet_inv_def zero_AET_ctrl_def counts_ok_def hash_ok_def bucket_ok_def pending_list_def)

lemma aet_reachable_inv:
  assumes "aet_step\<^sup>*\<^sup>* m m'" "aet m = zero_AET_ctrl"
  shows "aet_inv (aet m')"
  using assms by (induction rule: rtranclp_induct) (auto simp: aet_inv_zero intro: aet_step_inv)

lemma bind_Some_ex: "(\<exists>z. Option.bind x (\<lambda>a. Some (f a)) = Some z) \<longleftrightarrow> (\<exists>y. x = Some y)"
  by (cases x) simp_all

lemma add_to_aet_histogram_Some:
  assumes "dom_index domain_id = Some d" "old \<le> new \<longrightarrow> unat (new - old) \<le> 2 ^ 64 - 256"
  shows "\<exists>c'. add_to_aet_histogram domain_id old new c = Some c'"
proof (cases "new < old")
  case False
  then have "domain_value_to_index (new - old) = Some (of_nat (index_of (unat (new - old))))"
    using assms(2) by (intro domain_value_to_index_eq) (simp add: not_less)
  then show ?thesis using False assms(1) by (simp add: add_to_aet_histogram_def Let_def)
qed (simp add: add_to_aet_histogram_def)

lemma track_aet_fault_Some:
  assumes "aet_inv c" "dom_index domain_id = Some d" "mfn \<noteq> 0"
    and "\<And>old pf. last_access c d mfn = Some (old, pf) \<Longrightarrow>
      (old < mc \<longrightarrow> unat (mc - old) \<le> 2 ^ 64 - 256)
      \<and> (let new = mc - 20 * (page_fault_count c - pf) in old \<le> new \<longrightarrow> unat (new - old) \<le> 2 ^ 64 - 256)"
  shows "\<exists>c'. track_aet_fault domain_id mfn mc c = Some c'"
proof -
  have hit: "\<exists>c'. track_hit domain_id d (hkey mfn) p mfn mc c = Some c'"
    if p: "last_access c d mfn = Some (hn_mem_counter (hns' c d (hkey mfn) p), hn_pf (hns' c d (hkey mfn) p))" for p
  proof -
    let ?n = "hns' c d (hkey mfn) p"
    let ?new = "mc - (page_fault_count c - hn_pf ?n) * 20"
    have a: "hn_mem_counter ?n < mc \<longrightarrow> unat (mc - hn_mem_counter ?n) \<le> 2 ^ 64 - 256"
      "hn_mem_counter ?n \<le> ?new \<longrightarrow> unat (?new - hn_mem_counter ?n) \<le> 2 ^ 64 - 256"
      using assms(4) [OF p] by (simp_all add: Let_def mult.commute)
    obtain c1 where c1: "add_to_aet_histogram domain_id (hn_mem_counter ?n) ?new c = Some c1"
      using add_to_aet_histogram_Some [OF assms(2) a(2)] by blast
    have "total_count c1 \<le> 39990"
      using aet_inv_total [OF assms(1)] by (simp add: add_to_aet_histogram_eq [OF assms(2) c1])
    then show ?thesis
      using a(1) c1 domain_value_to_index_eq [of "mc - hn_mem_counter ?n"]
        add_user_mode_fault_count_Some [of c1]
      by (cases "hn_mem_counter ?n < mc") (simp_all add: track_hit_def Let_def bind_Some_ex)
  qed
  have pos: "[0..<2] = [0, 1::nat]" by (simp add: upt_rec)
  have "\<exists>c'. track_positions domain_id d (hkey mfn) mfn mc [0, 1] c = Some c'"
    using hit [of 0] hit [of 1] assms(3) by (simp add: Let_def last_access_def)
  then show ?thesis by (simp add: track_aet_fault_def assms(2) pos)
qed

section \<open>Allocation and commands\<close>

lemma chunks_Suc: "0 < n \<Longrightarrow> Suc ((n - 512 + 511) div 512) = (n + 511) div 512" for n :: nat
  using le_div_geq [of 512 "n + 511"] by (cases "n \<le> 512") simp_all

lemma alloc_pages_loop_total:
  assumes "alloc_pages_loop mfns va page_nr i ms = Some ms'" "page_nr \<le> 2 ^ 52" "i \<le> page_nr + 511"
  shows "\<exists>new. ms' = ms @ new \<and> (\<Sum>p\<leftarrow>new. unat (pm_allocated p)) = unat page_nr - unat i
    \<and> (\<forall>p\<in>set new. pm_mapped p = 512 \<and> pm_mfn p \<noteq> 0)
    \<and> length new = (unat page_nr - unat i + 511) div 512"
  using assms
proof (induction mfns va page_nr i ms rule: alloc_pages_loop.induct)
  case (1 mfns va page_nr i ms)
  have nr: "unat page_nr \<le> 2 ^ 52" using "1.prems"(2) by (simp add: word_le_nat_alt)
  show ?case
  proof (cases "i < page_nr")
    case False
    then show ?thesis using "1.prems"(1) by (simp add: not_less word_le_nat_alt)
  next
    case True
    then obtain mfn rest where mf: "mfns = mfn # rest" "mfn \<noteq> 0"
      using "1.prems"(1) by (auto split: list.splits if_splits)
    let ?p = "\<lparr>pm_va = va + push_bit 12 i, pm_mfn = mfn, pm_allocated = min (page_nr - i) 512, pm_mapped = 512\<rparr>"
    have lt: "unat i < unat page_nr" using True by (simp add: word_less_nat_alt)
    have i512: "unat (i + 512) = unat i + 512" using lt nr by (simp add: unat_word_ariths)
    have rec: "alloc_pages_loop rest va page_nr (i + 512) (ms @ [?p]) = Some ms'"
      using "1.prems"(1) True mf by simp
    have "i + 512 \<le> page_nr + 511"
      using lt nr i512 by (simp add: word_le_nat_alt unat_word_ariths)
    then obtain new where new: "ms' = (ms @ [?p]) @ new"
      "(\<Sum>p\<leftarrow>new. unat (pm_allocated p)) = unat page_nr - unat (i + 512)"
      "\<forall>p\<in>set new. pm_mapped p = 512 \<and> pm_mfn p \<noteq> 0"
      "length new = (unat page_nr - unat (i + 512) + 511) div 512"
      using "1.IH" [OF _ mf(1) _ rec "1.prems"(2)] True mf(2) by auto
    have "unat (page_nr - i) = unat page_nr - unat i" using True by (intro unat_sub) simp
    then have "unat (min (page_nr - i) 512) = min (unat page_nr - unat i) 512"
      by (simp add: min_def word_le_nat_alt)
    moreover have "Suc ((unat page_nr - (unat i + 512) + 511) div 512) = (unat page_nr - unat i + 511) div 512"
      using chunks_Suc [of "unat page_nr - unat i"] lt by simp
    ultimately show ?thesis using new mf(2) lt
      by (intro exI [of _ "?p # new"]) (auto simp: i512 min_def)
  qed
qed

lemma set_aet_cmd_Some:
  "set_aet_cmd cmd arg1 arg2 c \<noteq> None
     \<longleftrightarrow> cmd < 3 \<and> (cmd = SET_OPEN \<longrightarrow> arg1 < 2 \<and> arg2 < 3) \<and> (cmd = SET_TRACK \<longrightarrow> arg1 < 3)"
  by (auto simp: set_aet_cmd_def name_at_def word_less_nat_alt unat_ucast_up split: bind_splits if_splits)

section \<open>Properties\<close>

text \<open>
  A distance that the index computation can handle: the time since the last access to the frame, as
  it is and corrected for the page faults in between, is at most \<open>2^64 - 256\<close>.
\<close>

definition distance_ok :: "AET_ctrl \<Rightarrow> nat \<Rightarrow> u64 \<Rightarrow> u64 \<Rightarrow> bool" where
  "distance_ok c d mfn mc \<longleftrightarrow>
     (case last_access c d mfn of
        None \<Rightarrow> True
      | Some (old, pf) \<Rightarrow>
          (old < mc \<longrightarrow> unat (mc - old) \<le> 2 ^ 64 - 256)
          \<and> (let new = mc - 20 * (page_fault_count c - pf) in old \<le> new \<longrightarrow> unat (new - old) \<le> 2 ^ 64 - 256))"

lemma distance_okD:
  assumes "distance_ok c d mfn mc" "last_access c d mfn = Some (old, pf)"
  shows "(old < mc \<longrightarrow> unat (mc - old) \<le> 2 ^ 64 - 256)
    \<and> (let new = mc - 20 * (page_fault_count c - pf) in old \<le> new \<longrightarrow> unat (new - old) \<le> 2 ^ 64 - 256)"
  using assms(1) unfolding distance_ok_def assms(2) option.case prod.case .

text \<open>
  Property C9. Whatever sequence of commands, faults and markings that return runs from the zeroed
  structure, the tracker keeps its invariant: the log, the ring and the pending set stay
  within their arrays, no frame is pending twice, every hash node sits in the bucket of its
  frame and no frame has two nodes. In such a state the operations on the log, the ring and the
  pending set return. A command returns exactly when it and its arguments are inside the tables of
  names that it prints. A tracked fault returns for domains 1 and 2, a frame other than 0 and a
  distance the index computation can handle, and for no domain outside the arrays.
\<close>
theorem aet_reachable_safe:
  assumes "aet_step\<^sup>*\<^sup>* m m'" "aet m = zero_AET_ctrl"
  shows "aet_inv (aet m')
    \<and> add_set_aet_magic_count va l1 l1p ec mc (aet m') \<noteq> None
    \<and> add_user_mode_fault_count va l1 l1p ec mc (aet m') \<noteq> None
    \<and> add_last_shadow_l1e sl1mfn va (aet m') \<noteq> None \<and> get_last_shadow_l1e (aet m') \<noteq> None
    \<and> add_to_pending_page sl1mfn va (aet m') \<noteq> None \<and> set_pending_page map_va m' \<noteq> None
    \<and> (set_aet_cmd cmd arg1 arg2 (aet m') \<noteq> None
         \<longleftrightarrow> cmd < 3 \<and> (cmd = SET_OPEN \<longrightarrow> arg1 < 2 \<and> arg2 < 3) \<and> (cmd = SET_TRACK \<longrightarrow> arg1 < 3))
    \<and> (1 \<le> domain_id \<and> domain_id \<le> 2 \<longrightarrow> mfn \<noteq> 0 \<longrightarrow> distance_ok (aet m') (nat (domain_id - 1)) mfn mc
         \<longrightarrow> track_aet_fault domain_id mfn mc (aet m') \<noteq> None)
    \<and> (domain_id < 1 \<or> 2 < domain_id \<longrightarrow> track_aet_fault domain_id mfn mc (aet m') = None)"
proof -
  have inv: "aet_inv (aet m')" using assms by (rule aet_reachable_inv)
  then have c: "counts_ok (aet m')" by (simp add: aet_inv_def)
  have logs: "add_set_aet_magic_count va l1 l1p ec mc (aet m') \<noteq> None" "add_user_mode_fault_count va l1 l1p ec mc (aet m') \<noteq> None"
    "add_last_shadow_l1e sl1mfn va (aet m') \<noteq> None" "get_last_shadow_l1e (aet m') \<noteq> None"
    "add_to_pending_page sl1mfn va (aet m') \<noteq> None" "set_pending_page map_va m' \<noteq> None"
    using add_set_aet_magic_count_ok [OF c, of va l1 l1p ec mc] add_last_refines [OF c, of sl1mfn va]
      add_user_mode_fault_count_Some [OF aet_inv_total [OF inv], of va l1 l1p ec mc]
      get_last_refines [OF c] add_to_pending_page_refines [OF c, of sl1mfn va]
      set_pending_page_effect [OF c, of map_va] by auto
  have track: "track_aet_fault domain_id mfn mc (aet m') \<noteq> None"
    if d: "1 \<le> domain_id \<and> domain_id \<le> 2" and m: "mfn \<noteq> 0" and dist: "distance_ok (aet m') (nat (domain_id - 1)) mfn mc"
  proof -
    have "dom_index domain_id = Some (nat (domain_id - 1))" using d by (simp add: dom_index_def)
    from track_aet_fault_Some [OF inv this m distance_okD [OF dist]] show ?thesis by blast
  qed
  have "domain_id < 1 \<or> 2 < domain_id \<longrightarrow> track_aet_fault domain_id mfn mc (aet m') = None"
    by (auto simp: track_aet_fault_def dom_index_def)
  with inv logs track set_aet_cmd_Some show ?thesis by blast
qed

definition example_machine :: aet_machine where
  "example_machine =
     \<lparr>aet = zero_AET_ctrl, sh_page = (\<lambda>f i. if f = 7 \<and> i = 1 then 0x12345007 else 0),
      sh_type = (\<lambda>f. if f = 7 then 8 else 0), tlb_flushes = [],
      aet_pmu = \<lparr>msrs = \<lambda>_ _. (0, 0), pmu_base = 0, events_selector = 0\<rparr>\<rparr>"

theorem aet_reachable_safe_witness:
  "\<exists>c. set_aet_cmd 1 1 0 zero_AET_ctrl = Some c \<and> aet_inv c \<and> add_to_pending_page 7 0x201000 c \<noteq> None"
proof -
  let ?c = "set_aet_track_open 1 0 zero_AET_ctrl"
  have c: "set_aet_cmd 1 1 0 (aet example_machine) = Some ?c"
    by (simp add: set_aet_cmd_def name_at_def example_machine_def)
  have "aet_step\<^sup>*\<^sup>* example_machine (example_machine\<lparr>aet := ?c\<rparr>)"
    by (rule r_into_rtranclp) (rule aet_step.cmd [OF c])
  from aet_reachable_safe [OF this, where va = "0x201000" and sl1mfn = 7] c show ?thesis
    by (simp add: example_machine_def)
qed

text \<open>
  Property C10. A fault on a tracked frame of domain 1 or 2 returns, keeps the invariant, and
  acts on the table of last accesses as on a finite map: a known frame gets its reuse
  distance, corrected by twenty references per intervening page fault, counted in exactly
  one histogram entry and its access time renewed; an unknown frame is inserted; with both
  nodes of its bucket taken only the conflict counter moves. The other domain is untouched.
  The distances must be in the range on which the index computation returns.
\<close>
theorem track_aet_fault_correct:
  assumes "aet_inv c" "1 \<le> domain_id" "domain_id \<le> 2" "mfn \<noteq> 0"
    and "\<And>old pf. last_access c (nat (domain_id - 1)) mfn = Some (old, pf) \<Longrightarrow>
      (old < mc \<longrightarrow> unat (mc - old) \<le> 2 ^ 64 - 256)
      \<and> (let new = mc - 20 * (page_fault_count c - pf) in old \<le> new \<longrightarrow> unat (new - old) \<le> 2 ^ 64 - 256)"
  shows "\<exists>c'. track_aet_fault domain_id mfn mc c = Some c' \<and> aet_inv c'
    \<and> track_spec c (nat (domain_id - 1)) mfn mc c'"
proof -
  have d: "dom_index domain_id = Some (nat (domain_id - 1))" using assms(2,3) by (simp add: dom_index_def)
  obtain c' where c': "track_aet_fault domain_id mfn mc c = Some c'"
    using track_aet_fault_Some [OF assms(1) d assms(4,5)] by blast
  moreover have "hash_ok c" using assms(1) by (simp add: aet_inv_def)
  ultimately show ?thesis
    using track_aet_fault_inv [OF assms(1) c'] track_aet_fault_spec [OF d _ assms(4) c'] by blast
qed

theorem track_aet_fault_correct_witness:
  "\<exists>c'. track_aet_fault 1 0x12345 1000 zero_AET_ctrl = Some c' \<and> last_access c' 0 0x12345 = Some (1000, 0)
     \<and> node_count' c' 0 = 1"
proof -
  have la: "last_access zero_AET_ctrl 0 0x12345 = None" "\<not> bucket_full zero_AET_ctrl 0 0x12345"
    by (simp_all add: last_access_def bucket_full_def zero_AET_ctrl_def)
  have n0: "nat (1 - 1) = (0::nat)" by simp
  obtain c' where c': "track_aet_fault 1 0x12345 1000 zero_AET_ctrl = Some c'"
    "track_spec zero_AET_ctrl 0 0x12345 1000 c'"
    using track_aet_fault_correct [OF aet_inv_zero, of 1 "0x12345" 1000] la unfolding n0 by auto
  moreover have "page_fault_count zero_AET_ctrl = 0" "node_count' zero_AET_ctrl 0 = 0"
    by (simp_all add: zero_AET_ctrl_def)
  ultimately show ?thesis by (simp add: track_spec_def la)
qed

text \<open>
  Property C11. The ring of hot entries refines a queue of at most nine: an address already
  queued is not queued again, and the oldest entry is handed out only when nine wait.
  Adding to a full ring without taking one out first empties the whole queue.
\<close>
theorem hot_ring_refines_queue:
  assumes "aet_inv c"
  shows "(\<exists>c'. add_last_shadow_l1e sl1mfn va c = Some c'
            \<and> ring_list c' = hot_add \<lparr>lp_va = va, lp_sl1mfn = sl1mfn\<rparr> (ring_list c))
    \<and> (\<exists>r c'. get_last_shadow_l1e c = Some (r, c') \<and> (r, ring_list c') = hot_get (ring_list c))"
  using add_last_refines [of c sl1mfn va] get_last_refines [of c] assms by (auto simp: aet_inv_def)

theorem hot_ring_refines_queue_witness:
  "\<exists>c'. add_last_shadow_l1e 3 0x5000 zero_AET_ctrl = Some c'
     \<and> ring_list c' = [\<lparr>lp_va = 0x5000, lp_sl1mfn = 3\<rparr>]"
  using hot_ring_refines_queue [OF aet_inv_zero, of 3 "0x5000"]
  by (simp add: hot_add_def ring_list_def ring_len_def zero_AET_ctrl_def)

text \<open>
  Property C12. Processing the pending set returns with the set empty, the histogram and the
  table untouched, and marks exactly the first two entries of the pending frames that are L1
  shadows, where those entries are present, writable, user and unmarked; every other shadow
  entry keeps its value.
\<close>
theorem set_pending_page_marks:
  assumes "aet_inv (aet m)"
  shows "\<exists>m'. set_pending_page map_va m = Some m' \<and> aet_inv (aet m') \<and> pending_list (aet m') = []
    \<and> aet_hist' (aet m') = aet_hist' (aet m) \<and> hns' (aet m') = hns' (aet m)
    \<and> (\<forall>f i. sh_page m' f i =
         (if f \<in> pd_sl1mfn ` set (pending_list (aet m)) \<and> (sh_type m f = 8 \<or> sh_type m f = 9)
             \<and> i < 2 \<and> sl1e_markable (sh_page m f i)
          then sl1e_mark (sh_page m f i) else sh_page m f i))"
proof -
  have "counts_ok (aet m)" using assms by (simp add: aet_inv_def)
  then obtain m' where m': "set_pending_page map_va m = Some m'" "pending_list (aet m') = []"
    "sh_page m' = mark_pages (sh_type m) (pd_sl1mfn ` set (pending_list (aet m))) (sh_page m)"
    "hns' (aet m') = hns' (aet m)" "aet_hist' (aet m') = aet_hist' (aet m)"
    using set_pending_page_effect [of m map_va] by blast
  moreover have "aet_inv (aet m')" using aet_step_inv [OF aet_step.mark [OF m'(1)] assms] .
  ultimately show ?thesis by (auto simp: mark_pages_def mark_entries_def less_2_cases_iff)
qed

theorem set_pending_page_marks_witness:
  "\<exists>c m'. add_to_pending_page 7 0x201000 (aet example_machine) = Some c
     \<and> set_pending_page (\<lambda>x. x) (example_machine\<lparr>aet := c\<rparr>) = Some m'
     \<and> sh_page m' 7 1 = 0x7FF8000012345403"
proof -
  have inv: "aet_inv (aet example_machine)" by (simp add: example_machine_def aet_inv_zero)
  then have "counts_ok (aet example_machine)" by (simp add: aet_inv_def)
  moreover have "pending_list (aet example_machine) = []"
    by (simp add: example_machine_def pending_list_def zero_AET_ctrl_def)
  ultimately obtain c where c: "add_to_pending_page 7 0x201000 (aet example_machine) = Some c"
    "7 \<in> pd_sl1mfn ` set (pending_list c)"
    using add_to_pending_page_refines [of "aet example_machine" 7 "0x201000"] by auto
  let ?m = "example_machine\<lparr>aet := c\<rparr>"
  have "aet_inv (aet ?m)" using aet_step_inv [OF aet_step.pend [OF c(1)] inv] by simp
  from set_pending_page_marks [OF this, of "\<lambda>x. x"] obtain m'
    where m': "set_pending_page (\<lambda>x. x) ?m = Some m'"
      "sh_page m' 7 1 = (if 7 \<in> pd_sl1mfn ` set (pending_list (aet ?m)) \<and> (sh_type ?m 7 = 8 \<or> sh_type ?m 7 = 9)
         \<and> (1::nat) < 2 \<and> sl1e_markable (sh_page ?m 7 1) then sl1e_mark (sh_page ?m 7 1) else sh_page ?m 7 1)"
    by blast
  have "sl1e_markable (sh_page ?m 7 1)" "sl1e_mark (sh_page ?m 7 1) = 0x7FF8000012345403" "sh_type ?m 7 = 8"
    by (simp_all add: example_machine_def sl1e_markable_def shadow_l1e_get_flags_def get_pte_flags_def sl1e_mark_def)
  then show ?thesis using c m' by auto
qed

text \<open>
  Property C13. Setting up the shared structure: when the boot allocator never fails, the
  chunks allocated add up to exactly the pages the structure needs, 1840, but every chunk is
  mapped with 512 pages, so the last mapping exposes 208 frames that were never allocated.
\<close>
theorem aet_init_overmaps:
  assumes "aet_init mfns idle va pt = Some (c, maps, pt')"
  shows "c = zero_AET_ctrl \<and> (\<Sum>p\<leftarrow>maps. unat (pm_allocated p)) = 1840
    \<and> (\<Sum>p\<leftarrow>maps. unat (pm_mapped p)) = 2048"
proof -
  have nr: "PFN_UP sizeof_AET_ctrl = 1840"
    by (simp add: PFN_UP_def sizeof_AET_ctrl_def sizeof_tracked_va_def)
  have ms: "alloc_pages_loop mfns va 1840 0 [] = Some maps" and c: "c = zero_AET_ctrl"
    using assms by (auto simp: aet_init_def alloc_shared_memory_def nr Let_def split: bind_splits)
  from alloc_pages_loop_total [OF ms] have
    "(\<Sum>p\<leftarrow>maps. unat (pm_allocated p)) = 1840" "\<forall>p\<in>set maps. pm_mapped p = 512" "length maps = 4"
    by auto
  moreover have "(\<Sum>p\<leftarrow>maps. unat (pm_mapped p)) = (\<Sum>p\<leftarrow>maps. 512)"
    using calculation(2) by (intro arg_cong [where f = sum_list] map_cong) auto
  ultimately show ?thesis using c by (simp add: sum_list_triv)
qed

theorem aet_init_overmaps_witness:
  "\<exists>maps pt'. aet_init [0x1000, 0x2000, 0x3000, 0x4000] 5 0xFFFF870000000000 (\<lambda>_ _. 0)
       = Some (zero_AET_ctrl, maps, pt') \<and> (\<Sum>p\<leftarrow>maps. unat (pm_mapped p)) = 2048"
proof -
  let ?r = "aet_init [0x1000, 0x2000, 0x3000, 0x4000] 5 0xFFFF870000000000 (\<lambda>_ _. 0)"
  have nr: "PFN_UP sizeof_AET_ctrl = 1840"
    by (simp add: PFN_UP_def sizeof_AET_ctrl_def sizeof_tracked_va_def)
  obtain c maps pt' where r: "?r = Some (c, maps, pt')"
    by (simp add: aet_init_def alloc_shared_memory_def nr Let_def)
  from aet_init_overmaps [OF r] r show ?thesis by auto
qed

end
