(* ===== verification/Aet_Shadow.thy ===== *)
theory Aet_Shadow
  imports Aet
begin

text \<open>
  The hooks of the tracker in the shadow pager (\<^verbatim>\<open>xen/arch/x86/mm/shadow/multi.c\<close> with the
  magic entries of \<^verbatim>\<open>types.h\<close>) and in the VM-exit handler
  (\<^verbatim>\<open>xen/arch/x86/hvm/vmx/vmx.c\<close>): how shadow entries are marked, recognised, accounted on
  a fault and restored. A shadow page is its 512 entries, found by frame number; a pointer to
  an entry is a frame and an index. The pager around the hooks (page walks, reference counts,
  emulation) is not modelled.
\<close>

section \<open>Magic entries\<close>

abbreviation (input) VMX_L4E_AET_MAGIC :: u64 where "VMX_L4E_AET_MAGIC \<equiv> 0xffffff0000000400"

definition sh_l1e_is_aet_magic :: "u64 \<Rightarrow> bool" where
  "sh_l1e_is_aet_magic sl1e \<longleftrightarrow> sl1e AND SH_L1E_AET_MAGIC = SH_L1E_AET_MAGIC"

definition sh_l2e_is_aet_magic :: "u64 \<Rightarrow> bool" where
  "sh_l2e_is_aet_magic sl2e \<longleftrightarrow> sl2e AND SH_L1E_AET_MAGIC = SH_L1E_AET_MAGIC"

definition sh_l3e_is_aet_magic :: "u64 \<Rightarrow> bool" where
  "sh_l3e_is_aet_magic sl3e \<longleftrightarrow> sl3e AND SH_L1E_AET_MAGIC = SH_L1E_AET_MAGIC"

definition sh_l4e_is_aet_magic :: "u64 \<Rightarrow> bool" where
  "sh_l4e_is_aet_magic sl4e \<longleftrightarrow> sl4e AND SH_L1E_AET_MAGIC = SH_L1E_AET_MAGIC"

text \<open>The same test in \<^verbatim>\<open>vmx.c\<close> uses another constant.\<close>

definition vmx_sh_l4e_is_aet_magic :: "u64 \<Rightarrow> bool" where
  "vmx_sh_l4e_is_aet_magic sl4e \<longleftrightarrow> sl4e AND VMX_L4E_AET_MAGIC = VMX_L4E_AET_MAGIC"

abbreviation (input) SH_L1E_MAGIC :: u64 where "SH_L1E_MAGIC \<equiv> 0xffffffff00000001"
abbreviation (input) SH_L1E_MMIO_MAGIC_MASK :: u64 where "SH_L1E_MMIO_MAGIC_MASK \<equiv> 0xffffffff00000009"
abbreviation (input) SH_L1E_MMIO_GFN_MASK :: u64 where "SH_L1E_MMIO_GFN_MASK \<equiv> 0x00000000fffffff0"

definition sh_l1e_is_magic :: "u64 \<Rightarrow> bool" where
  "sh_l1e_is_magic sl1e \<longleftrightarrow> sl1e AND SH_L1E_MAGIC = SH_L1E_MAGIC"

definition sh_l1e_gnp :: u64 where "sh_l1e_gnp = - 1"

definition sh_l1e_is_gnp :: "u64 \<Rightarrow> bool" where
  "sh_l1e_is_gnp sl1e \<longleftrightarrow> sl1e = sh_l1e_gnp"

definition sh_l1e_mmio :: "u64 \<Rightarrow> u32 \<Rightarrow> u64" where
  "sh_l1e_mmio gfn gflags = SH_L1E_MAGIC OR push_bit 4 gfn OR ucast (gflags AND (PAGE_USER OR PAGE_RW))"

definition sh_l1e_is_mmio :: "u64 \<Rightarrow> bool" where
  "sh_l1e_is_mmio sl1e \<longleftrightarrow> sl1e AND SH_L1E_MMIO_MAGIC_MASK = SH_L1E_MAGIC"

definition sh_l1e_mmio_get_gfn :: "u64 \<Rightarrow> u64" where
  "sh_l1e_mmio_get_gfn sl1e = drop_bit 4 (sl1e AND SH_L1E_MMIO_GFN_MASK)"

definition sh_l1e_mmio_get_flags :: "u64 \<Rightarrow> u32" where
  "sh_l1e_mmio_get_flags sl1e = ucast (sl1e AND 6)"

definition shadow_l1e_get_mfn :: "u64 \<Rightarrow> u64" where
  "shadow_l1e_get_mfn sl1e = drop_bit 12 (sl1e AND 0xFFFFFFFFFF000)"

definition l1_table_offset :: "u64 \<Rightarrow> nat" where
  "l1_table_offset a = unat (drop_bit 12 a AND 0x1FF)"

definition l4_table_offset :: "u64 \<Rightarrow> nat" where
  "l4_table_offset a = unat (drop_bit 39 a AND 0x1FF)"

section \<open>State\<close>

record shadow_machine =
  core :: aet_machine
  count_info :: "u64 \<Rightarrow> u64"
  aet_count :: u64

definition get_entry :: "shadow_machine \<Rightarrow> u64 \<Rightarrow> nat \<Rightarrow> u64" where
  "get_entry s f i = sh_page (core s) f i"

definition put_entry :: "u64 \<Rightarrow> nat \<Rightarrow> u64 \<Rightarrow> shadow_machine \<Rightarrow> shadow_machine" where
  "put_entry f i e s =
     s\<lparr>core := (core s)\<lparr>sh_page := (sh_page (core s))(f := (sh_page (core s) f)(i := e))\<rparr>\<rparr>"

definition upd_aet :: "(AET_ctrl \<Rightarrow> AET_ctrl) \<Rightarrow> shadow_machine \<Rightarrow> shadow_machine" where
  "upd_aet g s = s\<lparr>core := (core s)\<lparr>aet := g (aet (core s))\<rparr>\<rparr>"

definition try_aet :: "(AET_ctrl \<Rightarrow> AET_ctrl option) \<Rightarrow> shadow_machine \<Rightarrow> shadow_machine option" where
  "try_aet g s = map_option (\<lambda>c. s\<lparr>core := (core s)\<lparr>aet := c\<rparr>\<rparr>) (g (aet (core s)))"

section \<open>The hooks of the shadow pager\<close>

definition reverse_l4_aet_magic :: "u64 \<Rightarrow> u64 \<Rightarrow> shadow_machine \<Rightarrow> shadow_machine" where
  "reverse_l4_aet_magic va sl4mfn s =
     (let i = l4_table_offset va
      in put_entry sl4mfn i (get_entry s sl4mfn i AND NOT SH_L1E_AET_MAGIC) s)"

text \<open>
  \<^verbatim>\<open>SHADOW_FOREACH_L1E\<close> in \<^verbatim>\<open>set_aet_magic\<close>: the body runs on present entries, until
  \<^verbatim>\<open>done\<close>; it only logs what could be marked.
\<close>

fun set_aet_magic_loop ::
    "(u64 \<Rightarrow> u64) \<Rightarrow> u64 \<Rightarrow> nat list \<Rightarrow> int \<Rightarrow> u64 \<Rightarrow> shadow_machine \<Rightarrow> shadow_machine option" where
  "set_aet_magic_loop map_va sl1mfn [] count va_start s = Some s"
| "set_aet_magic_loop map_va sl1mfn (i # is) count va_start s =
     (let e = get_entry s sl1mfn i
      in if shadow_l1e_get_flags e AND PAGE_PRESENT \<noteq> 0
         then do {
           let dn = l1_set_over count;
           s \<leftarrow> (if sl1e_markable e
                 then try_aet (add_set_aet_magic_count va_start e (map_va sl1mfn + 8 * of_nat i) 0 0) s
                 else Some s);
           if dn then Some s
           else set_aet_magic_loop map_va sl1mfn is (count + 1) (va_start + 0x1000) s
         }
         else set_aet_magic_loop map_va sl1mfn is count va_start s)"

abbreviation (input) PGC_count_mask :: u64 where "PGC_count_mask \<equiv> 0x7FFFFFFFFFFFFF"

definition set_aet_magic :: "(u64 \<Rightarrow> u64) \<Rightarrow> u64 \<Rightarrow> u64 \<Rightarrow> shadow_machine \<Rightarrow> shadow_machine option" where
  "set_aet_magic map_va sl1mfn va s =
     (let va_start = va - (va AND L1_MASK AND PAGE_MASK);
          va_offset = drop_bit 12 (va AND L1_MASK AND PAGE_MASK);
          ty = sh_type (core s) sl1mfn
      in if of_nat CONSECUTIVE_SET_PAGE \<le> va_offset then Some s
         else if count_info s sl1mfn AND PGC_count_mask \<noteq> 0
                 \<or> (ty \<noteq> SH_type_l1_shadow \<and> ty \<noteq> SH_type_fl1_shadow) then Some s
         else do {
           s \<leftarrow> try_aet (add_to_pending_page sl1mfn va) s;
           set_aet_magic_loop map_va sl1mfn [0..<512] 1 va_start s
         })"

definition reverse_l1_aet_magic :: "u64 \<Rightarrow> u64 \<Rightarrow> shadow_machine \<Rightarrow> shadow_machine" where
  "reverse_l1_aet_magic sl1mfn va s =
     (let i = l1_table_offset va;
          e = get_entry s sl1mfn i
      in if sh_l1e_is_aet_magic e
         then put_entry sl1mfn i 0 (upd_aet (add_reversed_aet_magic_count va e) s)
         else s)"

text \<open>The loop of \<^verbatim>\<open>shadow_set_l4e\<close> that clears the mark of an entry about to be replaced.\<close>

definition set_l4e_unmark :: "u64 \<Rightarrow> nat \<Rightarrow> shadow_machine \<Rightarrow> shadow_machine" where
  "set_l4e_unmark sl4mfn j s =
     (if sh_l4e_is_aet_magic (get_entry s sl4mfn j)
      then fold (\<lambda>i s.
             let e = get_entry s sl4mfn i
             in if get_pte_flags e AND PAGE_PRESENT \<noteq> 0 \<and> e = get_entry s sl4mfn j
                then put_entry sl4mfn i (e AND NOT SH_L1E_AET_MAGIC) s
                else s) [0..<512] s
      else s)"

text \<open>
  The slots \<^verbatim>\<open>SHADOW_FOREACH_L4E\<close> visits: all of an external (HVM) domain's table, otherwise those that are
  not Xen's, of which a 32-bit PV domain has the first only.
\<close>

definition is_guest_l4_slot :: "bool \<Rightarrow> nat \<Rightarrow> bool" where
  "is_guest_l4_slot is_pv_32bit i = (if is_pv_32bit then i = 0 else i < 256 \<or> 271 < i)"

definition l4_slot_visited :: "bool \<Rightarrow> bool \<Rightarrow> nat \<Rightarrow> bool" where
  "l4_slot_visited external is_pv_32bit i \<longleftrightarrow> external \<or> is_guest_l4_slot is_pv_32bit i"

text \<open>The head of \<^verbatim>\<open>sh_page_fault\<close>: clearing marks of the L4 table, and counting.\<close>

definition page_fault_head :: "bool \<Rightarrow> bool \<Rightarrow> u64 \<Rightarrow> u64 \<Rightarrow> shadow_machine \<Rightarrow> shadow_machine" where
  "page_fault_head external is_pv_32bit sl4mfn va s =
     (let s = (if is_l4_track (aet (core s))
               then
                 (let i = l4_table_offset va;
                      e = get_entry s sl4mfn i;
                      s = (if e AND SH_L1E_AET_MAGIC \<noteq> 0
                           then put_entry sl4mfn i (e AND NOT SH_L1E_AET_MAGIC) s else s)
                  in fold (\<lambda>i s.
                       let e = get_entry s sl4mfn i
                       in if get_pte_flags e AND PAGE_PRESENT \<noteq> 0 \<and> e AND SH_L1E_AET_MAGIC \<noteq> 0
                          then put_entry sl4mfn i (e AND NOT SH_L1E_AET_MAGIC) s else s)
                     (filter (l4_slot_visited external is_pv_32bit) [0..<512]) s)
               else s)
      in if is_l1_track (aet (core s)) \<or> is_page_fault_count (aet (core s))
         then upd_aet add_page_fault_count s else s)"

abbreviation (input) PFEC_user_mode :: u64 where "PFEC_user_mode \<equiv> 4"
abbreviation (input) PFEC_reserved_bit :: u64 where "PFEC_reserved_bit \<equiv> 8"

text \<open>The head of the accounting, up to the reading of the counters.\<close>

definition account_head :: "u64 \<Rightarrow> shadow_machine \<Rightarrow> u64 \<times> shadow_machine" where
  "account_head error_code s =
     (let s = (if error_code AND PFEC_reserved_bit \<noteq> 0 \<and> error_code AND PFEC_user_mode \<noteq> 0
               then upd_aet add_both_fault_count s else s);
          s = (if error_code AND PFEC_reserved_bit \<noteq> 0
               then upd_aet add_reserved_bit_fault_count s else s);
          (mem_counter, pmu) = pmu_mem_return 1 0 (aet_pmu (core s))
      in (mem_counter, s\<lparr>core := (core s)\<lparr>aet_pmu := pmu\<rparr>\<rparr>))"

text \<open>A fault on a marked entry is logged and tracked; a user fault may queue the page.\<close>

definition account_hit :: "int \<Rightarrow> u64 \<Rightarrow> u64 \<Rightarrow> u64 \<Rightarrow> u64 \<Rightarrow> u64 \<Rightarrow> shadow_machine \<Rightarrow> shadow_machine option" where
  "account_hit domain_id e va ptr error_code mem_counter s =
     (if sh_l1e_is_aet_magic e
      then do {
        s \<leftarrow> try_aet (add_user_mode_fault_count va e ptr error_code mem_counter) s;
        let mfn = shadow_l1e_get_mfn e AND 0x7fffffffff;
        s \<leftarrow> (if mfn \<noteq> 0 then try_aet (track_aet_fault domain_id mfn mem_counter) s else Some s);
        Some (upd_aet add_tracked_aet_magic_count1 s)
      }
      else Some s)"

definition account_queue :: "(u64 \<Rightarrow> u64) \<Rightarrow> u64 \<Rightarrow> u64 \<Rightarrow> u64 \<Rightarrow> bool \<Rightarrow> shadow_machine \<Rightarrow> shadow_machine option" where
  "account_queue map_va sl1mfn va error_code pse s =
     (if error_code AND PFEC_user_mode \<noteq> 0 \<and> is_l1_track (aet (core s)) \<and> \<not> pse
      then set_aet_magic map_va sl1mfn va s else Some s)"

text \<open>
  The accounting of \<^verbatim>\<open>sh_page_fault\<close> once the shadow entry is there. The entry is the one of
  \<^verbatim>\<open>va\<close> in \<^verbatim>\<open>sl1mfn\<close>; its address only enters the log. \<^verbatim>\<open>pse\<close> is the guest's big-page flag,
  and a missing entry (\<^verbatim>\<open>NULL\<close>) is dereferenced all the same.
\<close>

definition page_fault_account ::
    "(u64 \<Rightarrow> u64) \<Rightarrow> int \<Rightarrow> u64 option \<Rightarrow> u64 \<Rightarrow> u64 \<Rightarrow> bool \<Rightarrow> u64 \<Rightarrow> shadow_machine \<Rightarrow> shadow_machine option" where
  "page_fault_account map_va domain_id sl1 va error_code pse ptr s =
     do {
       let (mem_counter, s) = account_head error_code s;
       sl1mfn \<leftarrow> sl1;
       s \<leftarrow> account_hit domain_id (get_entry s sl1mfn (l1_table_offset va)) va ptr error_code mem_counter s;
       s \<leftarrow> account_queue map_va sl1mfn va error_code pse s;
       if sh_l1e_is_aet_magic (get_entry s sl1mfn (l1_table_offset va))
       then Some (reverse_l1_aet_magic sl1mfn va s) else Some s
     }"

definition invlpg_unmark :: "u64 \<Rightarrow> u64 \<Rightarrow> shadow_machine \<Rightarrow> shadow_machine" where
  "invlpg_unmark sl4mfn va s =
     (let i = l4_table_offset va;
          e = get_entry s sl4mfn i
      in if sh_l4e_is_aet_magic e \<and> e AND SH_L1E_AET_MAGIC \<noteq> 0
         then put_entry sl4mfn i (e AND NOT SH_L1E_AET_MAGIC) s else s)"

text \<open>The mark of an L1 entry that maps a frame about to become read-only is taken back.\<close>

definition sl1e_unmark :: "u64 \<Rightarrow> u64" where
  "sl1e_unmark e = (e AND NOT SH_L1E_AET_MAGIC) OR 4"

definition rm_write_unmark :: "u64 \<Rightarrow> u64 \<Rightarrow> nat \<Rightarrow> shadow_machine \<Rightarrow> shadow_machine" where
  "rm_write_unmark sl1mfn readonly_mfn i s =
     (let e = get_entry s sl1mfn i
      in if sh_l1e_is_aet_magic e \<and> shadow_l1e_get_mfn e AND 0x7fffffffff = readonly_mfn
         then put_entry sl1mfn i (sl1e_unmark e) (upd_aet (add_reversed_aet_magic_count 0 e) s)
         else s)"

section \<open>The hooks of the VM-exit handler\<close>

definition shadow_l4e_set_aet_magic :: "u64 \<Rightarrow> shadow_machine \<Rightarrow> nat \<times> shadow_machine" where
  "shadow_l4e_set_aet_magic sl4mfn s =
     fold (\<lambda>i (dn, s).
       let e = get_entry s sl4mfn i
       in if get_pte_flags e AND PAGE_PRESENT \<noteq> 0
             \<and> \<not> vmx_sh_l4e_is_aet_magic e \<and> e AND VMX_L4E_AET_MAGIC = 0
          then (dn + 1, put_entry sl4mfn i (e OR VMX_L4E_AET_MAGIC) s)
          else (dn, s)) [0..<512] (0, s)"

definition vmexit_hook ::
    "(u64 \<Rightarrow> u64) \<Rightarrow> int \<Rightarrow> bool \<Rightarrow> u64 \<Rightarrow> shadow_machine \<Rightarrow> shadow_machine option" where
  "vmexit_hook map_va domain_id shadow_paging sl4mfn s =
     do {
       s \<leftarrow> (if is_l1_track (aet (core s)) \<and> domain_id = 1
             then map_option (\<lambda>m. s\<lparr>core := m, aet_count := aet_count s + 1\<rparr>)
                    (set_pending_page map_va (core s))
             else Some s);
       if is_l4_track (aet (core s)) \<and> domain_id = 1 \<and> shadow_paging
       then
         (let s = s\<lparr>aet_count := aet_count s + 1\<rparr>;
              (start, joe_sl4mfn) = get_aet_start (aet (core s))
          in if joe_sl4mfn = sl4mfn \<and> aet_count s mod 500 = 0
             then Some (snd (shadow_l4e_set_aet_magic sl4mfn s)) else Some s)
       else Some s
     }"

section \<open>Bits of the magic values\<close>

lemma aet_magic_bits: "bit (0x7ff8000000000400 :: u64) k \<longleftrightarrow> k = 10 \<or> 51 \<le> k \<and> k \<le> 62"
proof -
  have eq: "(0x7ff8000000000400 :: u64) = push_bit 51 (mask 12) OR push_bit 10 1"
    by (simp add: mask_eq_exp_minus_1 push_bit_eq_mult)
  show ?thesis unfolding eq bit_or_iff bit_push_bit_iff bit_mask_iff bit_1_iff by auto
qed

lemma user_bit: "bit (4 :: u64) n \<longleftrightarrow> n = 2"
proof -
  have eq: "(4 :: u64) = push_bit 2 1" by simp
  show ?thesis unfolding eq bit_push_bit_iff bit_1_iff by auto
qed

lemma mark_unmark:
  fixes e M u :: "'a::len word"
  assumes "e AND M = 0" "e AND u = u"
  shows "(((e OR M) AND NOT u) AND NOT M) OR u = e"
proof (rule bit_word_eqI)
  fix n assume "n < LENGTH('a)"
  have "\<not> (bit e n \<and> bit M n)" using assms(1) by (metis bit_and_iff bit_0_eq bot_apply bot_bool_def)
  moreover have "bit u n \<longrightarrow> bit e n" using assms(2) by (metis bit_and_iff)
  ultimately show "bit ((((e OR M) AND NOT u) AND NOT M) OR u) n = bit e n"
    using \<open>n < LENGTH('a)\<close> by (auto simp: bit_simps)
qed

lemma and_zero_bits: "(e :: 'a::len word) AND M = 0 \<Longrightarrow> bit e n \<Longrightarrow> \<not> bit M n"
  by (metis bit_and_iff bit_0_eq bot_apply bot_bool_def)

lemma and_not_disjoint:
  fixes e M :: "'a::len word"
  assumes "e AND M = 0"
  shows "e AND NOT M = e"
proof (rule bit_word_eqI)
  fix n assume "n < LENGTH('a)"
  then show "bit (e AND NOT M) n = bit e n" using and_zero_bits [OF assms, of n] by (auto simp: bit_simps)
qed

lemma mark_is_magic: "sh_l1e_is_aet_magic (sl1e_mark e)"
proof -
  have "sl1e_mark e AND SH_L1E_AET_MAGIC = SH_L1E_AET_MAGIC"
    unfolding sl1e_mark_def
  proof (rule bit_word_eqI)
    fix n assume "n < LENGTH(64)"
    show "bit (((e OR 0x7ff8000000000400) AND NOT 4) AND (0x7ff8000000000400 :: u64)) n
        = bit (0x7ff8000000000400 :: u64) n"
      using \<open>n < LENGTH(64)\<close>
      by (simp only: bit_and_iff bit_or_iff bit_not_iff_eq aet_magic_bits user_bit) auto
  qed
  then show ?thesis by (simp add: sh_l1e_is_aet_magic_def)
qed

lemma unmark_mark: "sl1e_markable e \<Longrightarrow> sl1e_unmark (sl1e_mark e) = e"
proof -
  assume "sl1e_markable e"
  then have "e AND SH_L1E_AET_MAGIC = 0" "bit e 2" by (simp_all add: sl1e_markable_iff)
  moreover have "e AND 4 = 4" if "bit e 2"
    using that by (intro bit_word_eqI) (simp only: bit_and_iff user_bit, auto)
  ultimately show ?thesis
    using mark_unmark [of e SH_L1E_AET_MAGIC 4] by (simp add: sl1e_mark_def sl1e_unmark_def)
qed

lemma mask_bits:
  "bit (0xFFFFFFFFFF000 :: u64) n \<longleftrightarrow> 12 \<le> n \<and> n < 52" "bit (0x7fffffffff :: u64) n \<longleftrightarrow> n < 39"
proof -
  have eq: "(0xFFFFFFFFFF000 :: u64) = push_bit 12 (mask 40)" "(0x7fffffffff :: u64) = mask 39"
    by (simp_all add: mask_eq_exp_minus_1 push_bit_eq_mult)
  show "bit (0xFFFFFFFFFF000 :: u64) n \<longleftrightarrow> 12 \<le> n \<and> n < 52" "bit (0x7fffffffff :: u64) n \<longleftrightarrow> n < 39"
    unfolding eq bit_push_bit_iff bit_mask_iff by auto
qed

lemma mark_keeps_mfn:
  assumes "sl1e_markable e"
  shows "shadow_l1e_get_mfn (sl1e_mark e) AND 0x7fffffffff = shadow_l1e_get_mfn e"
proof (rule bit_word_eqI)
  fix n assume "n < LENGTH(64)"
  have "bit e k \<Longrightarrow> \<not> (k = 10 \<or> 51 \<le> k \<and> k \<le> 62)" for k
    using assms and_zero_bits [of e SH_L1E_AET_MAGIC k] unfolding sl1e_markable_iff aet_magic_bits
    by blast
  from this [of "12 + n"] this [of "51"] show "bit (shadow_l1e_get_mfn (sl1e_mark e) AND 0x7fffffffff) n = bit (shadow_l1e_get_mfn e) n"
    unfolding shadow_l1e_get_mfn_def sl1e_mark_def bit_drop_bit_eq comp_apply bit_and_iff bit_or_iff
      bit_not_iff_eq mask_bits aet_magic_bits user_bit by auto
qed

lemma vmx_magic_bits: "bit (0xffffff0000000400 :: u64) k \<longleftrightarrow> k = 10 \<or> 40 \<le> k \<and> k < 64"
proof -
  have eq: "(0xffffff0000000400 :: u64) = push_bit 40 (mask 24) OR push_bit 10 1"
    by (simp add: mask_eq_exp_minus_1 push_bit_eq_mult)
  show ?thesis unfolding eq bit_or_iff bit_push_bit_iff bit_mask_iff bit_1_iff by auto
qed

lemma residue_bits: "bit (0x8007FF0000000000 :: u64) k \<longleftrightarrow> 40 \<le> k \<and> k < 51 \<or> k = 63"
proof -
  have eq: "(0x8007FF0000000000 :: u64) = push_bit 40 (mask 11) OR push_bit 63 1"
    by (simp add: mask_eq_exp_minus_1 push_bit_eq_mult)
  show ?thesis unfolding eq bit_or_iff bit_push_bit_iff bit_mask_iff bit_1_iff by auto
qed

lemma l4_unmark_residue:
  assumes "e AND VMX_L4E_AET_MAGIC = 0"
  shows "(e OR VMX_L4E_AET_MAGIC) AND NOT SH_L1E_AET_MAGIC = e OR 0x8007FF0000000000"
    "e OR 0x8007FF0000000000 \<noteq> e" "(e OR 0x8007FF0000000000) AND SH_L1E_AET_MAGIC = 0"
proof -
  have e: "bit e k \<Longrightarrow> \<not> (k = 10 \<or> 40 \<le> k \<and> k < 64)" for k
    using and_zero_bits [OF assms, of k] unfolding vmx_magic_bits by blast
  show "(e OR VMX_L4E_AET_MAGIC) AND NOT SH_L1E_AET_MAGIC = e OR 0x8007FF0000000000"
  proof (rule bit_word_eqI)
    fix n assume "n < LENGTH(64)"
    then show "bit ((e OR VMX_L4E_AET_MAGIC) AND NOT SH_L1E_AET_MAGIC) n = bit (e OR 0x8007FF0000000000) n"
      using e [of n] unfolding bit_and_iff bit_or_iff bit_not_iff_eq vmx_magic_bits aet_magic_bits residue_bits
      by auto
  qed
  have "\<not> bit e 63" using e [of 63] by auto
  moreover have "bit (e OR 0x8007FF0000000000) 63" unfolding bit_or_iff residue_bits by simp
  ultimately show "e OR 0x8007FF0000000000 \<noteq> e" by metis
  show "(e OR 0x8007FF0000000000) AND SH_L1E_AET_MAGIC = 0"
  proof (rule bit_word_eqI)
    fix n
    show "bit ((e OR 0x8007FF0000000000) AND SH_L1E_AET_MAGIC) n = bit (0 :: u64) n"
      using e [of n] unfolding bit_and_iff bit_or_iff aet_magic_bits residue_bits by auto
  qed
qed

section \<open>Pages as stores\<close>

locale page_store =
  fixes get :: "'s \<Rightarrow> 'f \<Rightarrow> 'i \<Rightarrow> 'e"
    and put :: "'f \<Rightarrow> 'i \<Rightarrow> 'e \<Rightarrow> 's \<Rightarrow> 's"
  assumes get_put: "get (put f i e s) f' i' = (if f' = f \<and> i' = i then e else get s f' i')"
begin

lemma get_fold_modify:
  assumes "distinct is"
  shows "get (fold (\<lambda>i s. if P (get s f i) then put f i (g (get s f i)) s else s) is s) f' i'
    = (if f' = f \<and> i' \<in> set is \<and> P (get s f i') then g (get s f i') else get s f' i')"
  using assms by (induction "is" arbitrary: s) (auto simp: get_put)

end

interpretation pages: page_store get_entry put_entry
  by unfold_locales (simp add: get_entry_def put_entry_def)

lemma put_entry_frame [simp]:
  "aet (core (put_entry f i e s)) = aet (core s)" "aet_pmu (core (put_entry f i e s)) = aet_pmu (core s)"
  "sh_type (core (put_entry f i e s)) = sh_type (core s)" "count_info (put_entry f i e s) = count_info s"
  "aet_count (put_entry f i e s) = aet_count s"
  by (simp_all add: put_entry_def)

lemma upd_aet_frame [simp]:
  "aet (core (upd_aet g s)) = g (aet (core s))" "get_entry (upd_aet g s) = get_entry s"
  "aet_pmu (core (upd_aet g s)) = aet_pmu (core s)" "sh_type (core (upd_aet g s)) = sh_type (core s)"
  "count_info (upd_aet g s) = count_info s"
  by (simp_all add: upd_aet_def get_entry_def fun_eq_iff)

lemma present_bit: "get_pte_flags e AND 1 \<noteq> 0 \<longleftrightarrow> bit e 0"
  using word_and_bit [of 0 "get_pte_flags e"] get_pte_flags_low [of 0 e] by simp

text \<open>What the VM-exit hook and the page-fault hook do to an L4 table.\<close>

lemma fold_snd:
  "snd (fold (\<lambda>i (n, s). if P s i then (n + 1, g s i) else (n, s)) is (n, s))
     = fold (\<lambda>i s. if P s i then g s i else s) is s" for n :: nat
  by (induction "is" arbitrary: n s) auto

lemma set_l4_effect:
  "get_entry (snd (shadow_l4e_set_aet_magic sl4mfn s)) f i =
     (if f = sl4mfn \<and> i < 512 \<and> bit (get_entry s f i) 0 \<and> get_entry s f i AND VMX_L4E_AET_MAGIC = 0
      then get_entry s f i OR VMX_L4E_AET_MAGIC else get_entry s f i)"
proof -
  let ?P = "\<lambda>e. get_pte_flags e AND PAGE_PRESENT \<noteq> 0 \<and> \<not> vmx_sh_l4e_is_aet_magic e \<and> e AND VMX_L4E_AET_MAGIC = 0"
  have "snd (shadow_l4e_set_aet_magic sl4mfn s) = fold (\<lambda>i s. if ?P (get_entry s sl4mfn i)
      then put_entry sl4mfn i (get_entry s sl4mfn i OR VMX_L4E_AET_MAGIC) s else s) [0..<512] s"
    unfolding shadow_l4e_set_aet_magic_def Let_def by (rule fold_snd)
  moreover have "?P e \<longleftrightarrow> bit e 0 \<and> e AND VMX_L4E_AET_MAGIC = 0" for e
    by (auto simp: present_bit vmx_sh_l4e_is_aet_magic_def)
  ultimately show ?thesis
    using pages.get_fold_modify [of "[0..<512]" "\<lambda>e. bit e 0 \<and> e AND VMX_L4E_AET_MAGIC = 0" sl4mfn
        "\<lambda>e. e OR VMX_L4E_AET_MAGIC" s f i] by auto
qed

lemma set_l4_frame: "aet (core (snd (shadow_l4e_set_aet_magic sl4mfn s))) = aet (core s)"
proof -
  have "aet (core (snd (fold (\<lambda>i (dn, s). if P s i then (dn + 1, put_entry f i (g s i) s) else (dn, s)) is (n, s))))
      = aet (core s)" for P g f "is" and n :: nat
    by (induction "is" arbitrary: n s) auto
  then show ?thesis unfolding shadow_l4e_set_aet_magic_def Let_def .
qed

lemma page_fault_head_effect:
  assumes "is_l4_track (aet (core s))"
  shows "get_entry (page_fault_head external is_pv_32bit sl4mfn va s) f i =
     (if f = sl4mfn \<and> (i = l4_table_offset va \<or> i < 512 \<and> l4_slot_visited external is_pv_32bit i \<and> bit (get_entry s f i) 0)
      then get_entry s f i AND NOT SH_L1E_AET_MAGIC else get_entry s f i)"
proof -
  let ?M = "SH_L1E_AET_MAGIC" and ?o = "l4_table_offset va" and ?V = "l4_slot_visited external is_pv_32bit"
  let ?s = "if get_entry s sl4mfn ?o AND ?M \<noteq> 0
            then put_entry sl4mfn ?o (get_entry s sl4mfn ?o AND NOT ?M) s else s"
  note clear = and_not_disjoint [where M = ?M]
  have s1: "get_entry ?s f i = (if f = sl4mfn \<and> i = ?o then get_entry s f i AND NOT ?M else get_entry s f i)" for f i
    using clear by (auto simp: pages.get_put)
  have "\<not> is_l1_track (aet (core s))" "\<not> is_page_fault_count (aet (core s))"
    using assms by (auto simp: is_l4_track_def is_l1_track_def is_page_fault_count_def)
  have "get_entry (page_fault_head external is_pv_32bit sl4mfn va s) f i = get_entry (fold (\<lambda>i s.
      if bit (get_entry s sl4mfn i) 0 \<and> get_entry s sl4mfn i AND ?M \<noteq> 0
      then put_entry sl4mfn i (get_entry s sl4mfn i AND NOT ?M) s else s) (filter ?V [0..<512]) ?s) f i"
    using assms by (simp add: page_fault_head_def Let_def present_bit)
  also have "\<dots> = (if f = sl4mfn \<and> i \<in> set (filter ?V [0..<512]) \<and> (bit (get_entry ?s sl4mfn i) 0 \<and> get_entry ?s sl4mfn i AND ?M \<noteq> 0)
      then get_entry ?s sl4mfn i AND NOT ?M else get_entry ?s f i)"
    by (rule pages.get_fold_modify [of "filter ?V [0..<512]" "\<lambda>e. bit e 0 \<and> e AND ?M \<noteq> 0" sl4mfn "\<lambda>e. e AND NOT ?M"]) simp
  also have "\<dots> = (if f = sl4mfn \<and> (i = ?o \<or> i < 512 \<and> ?V i \<and> bit (get_entry s f i) 0)
      then get_entry s f i AND NOT ?M else get_entry s f i)"
    unfolding s1 using clear by (auto simp: and.assoc)
  finally show ?thesis .
qed

section \<open>Accounting a fault\<close>

text \<open>The parts of the tracker that the table of last accesses and the histogram consist of.\<close>

definition same_table :: "AET_ctrl \<Rightarrow> AET_ctrl \<Rightarrow> bool" where
  "same_table c c' \<longleftrightarrow> hns' c' = hns' c \<and> aet_hist' c' = aet_hist' c \<and> tot_ref' c' = tot_ref' c
     \<and> node_count' c' = node_count' c \<and> hash_conflict_num c' = hash_conflict_num c
     \<and> page_fault_count c' = page_fault_count c"

lemma same_table_refl [simp]: "same_table c c"
  by (simp add: same_table_def)

lemma same_table_trans: "same_table a b \<Longrightarrow> same_table b c \<Longrightarrow> same_table a c"
  by (simp add: same_table_def)

lemma track_spec_same:
  assumes "same_table a b" "same_table c d" "track_spec b k mfn mc c"
  shows "track_spec a k mfn mc d"
proof -
  have la: "last_access a = last_access b" "last_access d = last_access c"
    using assms(1,2) by (auto simp: same_table_def intro: last_access_cong)
  moreover have "bucket_full a = bucket_full b"
    using assms(1) by (auto simp: same_table_def bucket_full_def fun_eq_iff)
  ultimately show ?thesis
    using assms unfolding track_spec_def same_table_def by (simp split: option.splits prod.splits)
qed

lemma try_aet_SomeD:
  assumes "try_aet g s = Some s'"
  obtains c where "g (aet (core s)) = Some c" "aet (core s') = c" "get_entry s' = get_entry s"
    "sh_type (core s') = sh_type (core s)" "count_info s' = count_info s" "aet_pmu (core s') = aet_pmu (core s)"
  using assms by (auto simp: try_aet_def get_entry_def fun_eq_iff)

lemma log_tracked_same: "log_tracked tv c = Some c' \<Longrightarrow> same_table c c'"
  by (subst log_tracked_frame, assumption) (simp add: same_table_def)

lemma add_set_same: "add_set_aet_magic_count va l1 l1p ec mc c = Some c' \<Longrightarrow> same_table c c'"
  using log_tracked_same by (force simp: add_set_aet_magic_count_def same_table_def split: bind_splits)

lemma add_user_same: "add_user_mode_fault_count va l1 l1p ec mc c = Some c' \<Longrightarrow> same_table c c'"
  by (subst add_user_mode_fault_count_frame, assumption) (simp add: same_table_def)

lemma add_pending_same: "add_to_pending_page sl1mfn va c = Some c' \<Longrightarrow> same_table c c'"
  by (subst add_to_pending_page_frame, assumption) (simp add: same_table_def)

lemma core_step_inv:
  assumes "aet_inv c"
  shows "add_set_aet_magic_count va l1 l1p ec mc c = Some c' \<Longrightarrow> aet_inv c'"
    "add_to_pending_page sl1mfn va c = Some c' \<Longrightarrow> aet_inv c'"
  using assms aet_step_inv [OF aet_step.log_set, of va l1 l1p ec mc "undefined\<lparr>aet := c\<rparr>" c']
    aet_step_inv [OF aet_step.pend, of sl1mfn va "undefined\<lparr>aet := c\<rparr>" c'] by simp_all

definition quiet :: "shadow_machine \<Rightarrow> shadow_machine \<Rightarrow> bool" where
  "quiet s s' \<longleftrightarrow> aet_inv (aet (core s')) \<and> same_table (aet (core s)) (aet (core s')) \<and> get_entry s' = get_entry s"

lemma set_aet_magic_loop_quiet:
  assumes "aet_inv (aet (core s))"
  shows "\<exists>s'. set_aet_magic_loop map_va sl1mfn is count va s = Some s' \<and> quiet s s'"
  using assms
proof (induction "is" arbitrary: count va s)
  case Nil
  then show ?case by (simp add: quiet_def)
next
  case (Cons i "is")
  let ?e = "get_entry s sl1mfn i"
  let ?step = "if sl1e_markable ?e then try_aet (add_set_aet_magic_count va ?e (map_va sl1mfn + 8 * of_nat i) 0 0) s
      else Some s"
  obtain s1 where s1: "?step = Some s1" "quiet s s1"
  proof (cases "sl1e_markable ?e")
    case True
    have "counts_ok (aet (core s))" using Cons.prems by (simp add: aet_inv_def)
    then obtain c where c: "add_set_aet_magic_count va ?e (map_va sl1mfn + 8 * of_nat i) 0 0 (aet (core s)) = Some c"
      using add_set_aet_magic_count_ok by blast
    then show ?thesis using True core_step_inv(1) [OF Cons.prems c] add_set_same [OF c] c
      by (intro that) (auto simp: quiet_def get_entry_def fun_eq_iff try_aet_def)
  next
    case False
    then show ?thesis using Cons.prems by (intro that [of s]) (simp_all add: quiet_def)
  qed
  have "\<exists>s'. set_aet_magic_loop map_va sl1mfn is k w s1 = Some s' \<and> quiet s s'" for k w
    using Cons.IH [of s1 k w] s1(2) same_table_trans by (auto simp: quiet_def)
  moreover have "\<exists>s'. set_aet_magic_loop map_va sl1mfn is k w s = Some s' \<and> quiet s s'" for k w
    using Cons.IH [of s k w] Cons.prems by blast
  ultimately show ?case using s1 by (simp add: Let_def)
qed

lemma set_aet_magic_quiet:
  assumes "aet_inv (aet (core s))"
  shows "\<exists>s'. set_aet_magic map_va sl1mfn va s = Some s' \<and> quiet s s'"
proof -
  have "counts_ok (aet (core s))" using assms by (simp add: aet_inv_def)
  then obtain c where c: "add_to_pending_page sl1mfn va (aet (core s)) = Some c"
    using add_to_pending_page_refines by blast
  let ?s = "s\<lparr>core := (core s)\<lparr>aet := c\<rparr>\<rparr>"
  have q: "quiet s ?s" using core_step_inv(2) [OF assms c] add_pending_same [OF c]
    by (simp add: quiet_def get_entry_def fun_eq_iff)
  have "\<exists>s'. set_aet_magic_loop map_va sl1mfn [0..<512] 1 w ?s = Some s' \<and> quiet s s'" for w
    using set_aet_magic_loop_quiet [of ?s map_va sl1mfn "[0..<512]" 1 w] q same_table_trans
    by (auto simp: quiet_def)
  moreover have "quiet s s" using assms by (simp add: quiet_def)
  ultimately show ?thesis
    unfolding set_aet_magic_def Let_def using c by (auto simp: try_aet_def)
qed

lemma quiet_trans: "quiet a b \<Longrightarrow> quiet b c \<Longrightarrow> quiet a c"
  using same_table_trans by (auto simp: quiet_def)

lemma quiet_counters:
  assumes "aet_inv (aet (core s))"
  shows "quiet s (upd_aet add_both_fault_count s)" "quiet s (upd_aet add_reserved_bit_fault_count s)"
    "quiet s (upd_aet add_tracked_aet_magic_count1 s)" "quiet s (upd_aet (add_reversed_aet_magic_count va e) s)"
    "quiet s (s\<lparr>core := (core s)\<lparr>aet_pmu := p\<rparr>\<rparr>)" "quiet s s"
  using assms aet_inv_total [OF assms] aet_inv_cong [OF assms]
  by (auto simp: quiet_def same_table_def get_entry_def fun_eq_iff add_both_fault_count_def
      add_reserved_bit_fault_count_def add_tracked_aet_magic_count1_def add_reversed_aet_magic_count_def)

lemma account_head_quiet:
  assumes "aet_inv (aet (core s))" "account_head error_code s = (mc, s1)"
  shows "quiet s s1" "mc = fst (pmu_mem_return 1 0 (aet_pmu (core s)))"
proof -
  let ?a = "if error_code AND PFEC_reserved_bit \<noteq> 0 \<and> error_code AND PFEC_user_mode \<noteq> 0
               then upd_aet add_both_fault_count s else s"
  let ?b = "if error_code AND PFEC_reserved_bit \<noteq> 0 then upd_aet add_reserved_bit_fault_count ?a else ?a"
  have a: "quiet s ?a" using quiet_counters [OF assms(1)] by auto
  then have "aet_inv (aet (core ?a))" by (simp add: quiet_def)
  then have "quiet ?a ?b" using quiet_counters by auto
  with a have b: "quiet s ?b" by (rule quiet_trans)
  then have "quiet ?b (?b\<lparr>core := (core ?b)\<lparr>aet_pmu := p\<rparr>\<rparr>)" for p
    by (intro quiet_counters) (simp add: quiet_def)
  then have "quiet s (?b\<lparr>core := (core ?b)\<lparr>aet_pmu := p\<rparr>\<rparr>)" for p using b quiet_trans by blast
  moreover have p: "aet_pmu (core ?b) = aet_pmu (core s)" by simp
  ultimately show "quiet s s1" "mc = fst (pmu_mem_return 1 0 (aet_pmu (core s)))"
    using assms(2) unfolding account_head_def Let_def p by (auto split: prod.splits)
qed

lemma if_quiet:
  "\<exists>s'. A = Some s' \<and> quiet s s' \<Longrightarrow> quiet s s \<Longrightarrow> \<exists>s'. (if P then A else Some s) = Some s' \<and> quiet s s'"
  by auto

lemma page_fault_account_marked:
  assumes inv: "aet_inv (aet (core s))" and d: "dom_index domain_id = Some d"
    and e: "get_entry s sl1mfn (l1_table_offset va) = sl1e_mark e" "sl1e_markable e"
    and mfn: "shadow_l1e_get_mfn e \<noteq> 0"
    and dist: "\<And>old pf. last_access (aet (core s)) d (shadow_l1e_get_mfn e) = Some (old, pf) \<Longrightarrow>
      (old < mc \<longrightarrow> unat (mc - old) \<le> 2 ^ 64 - 256)
      \<and> (let new = mc - 20 * (page_fault_count (aet (core s)) - pf) in old \<le> new \<longrightarrow> unat (new - old) \<le> 2 ^ 64 - 256)"
    and mc: "mc = fst (pmu_mem_return 1 0 (aet_pmu (core s)))"
  shows "\<exists>s'. page_fault_account map_va domain_id (Some sl1mfn) va error_code pse ptr s = Some s'
    \<and> aet_inv (aet (core s')) \<and> track_spec (aet (core s)) d (shadow_l1e_get_mfn e) mc (aet (core s'))
    \<and> (\<forall>f i. get_entry s' f i =
         (if f = sl1mfn \<and> i = l1_table_offset va then 0 else get_entry s f i))"
proof -
  let ?mfn = "shadow_l1e_get_mfn e" and ?i = "l1_table_offset va"
  obtain s1 where h: "account_head error_code s = (mc, s1)"
    using account_head_quiet(2) [OF inv] mc by (metis prod.exhaust)
  note q1 = account_head_quiet(1) [OF inv h]
  then have inv1: "aet_inv (aet (core s1))" and e1: "get_entry s1 sl1mfn ?i = sl1e_mark e"
    using e by (simp_all add: quiet_def)
  obtain c2 where c2: "add_user_mode_fault_count va (sl1e_mark e) ptr error_code mc (aet (core s1)) = Some c2"
    using add_user_mode_fault_count_Some [OF aet_inv_total [OF inv1]] by blast
  have inv2: "aet_inv c2" and t12: "same_table (aet (core s)) c2"
    using add_user_mode_fault_count_inv [OF inv1 c2] add_user_same [OF c2] q1 same_table_trans
    by (auto simp: quiet_def)
  then obtain c3 where c3: "track_aet_fault domain_id ?mfn mc c2 = Some c3"
    using track_aet_fault_Some [OF inv2 d mfn, of mc] dist last_access_cong [of c2 "aet (core s)"]
    by (auto simp: same_table_def)
  have inv3: "aet_inv c3" using track_aet_fault_inv [OF inv2 c3] .
  have spec: "track_spec (aet (core s)) d ?mfn mc c" if "same_table c3 c" for c
    using track_spec_same [OF t12 that] track_aet_fault_spec [OF d _ mfn c3] inv2 by (simp add: aet_inv_def)
  let ?s3 = "upd_aet add_tracked_aet_magic_count1 (s1\<lparr>core := (core s1)\<lparr>aet := c3\<rparr>\<rparr>)"
  have hit: "account_hit domain_id (sl1e_mark e) va ptr error_code mc s1 = Some ?s3"
    by (simp add: account_hit_def mark_is_magic try_aet_def c2 mark_keeps_mfn [OF e(2)] mfn c3)
  have q3: "quiet (s1\<lparr>core := (core s1)\<lparr>aet := c3\<rparr>\<rparr>) ?s3" using inv3 by (intro quiet_counters) simp
  then have "aet_inv (aet (core ?s3))" by (simp add: quiet_def)
  then obtain s4 where s4: "account_queue map_va sl1mfn va error_code pse ?s3 = Some s4" "quiet ?s3 s4"
    unfolding account_queue_def
    using if_quiet [OF set_aet_magic_quiet quiet_counters(6)] by blast
  have e4: "get_entry s4 = get_entry s" and inv4: "aet_inv (aet (core s4))"
    and t4: "same_table c3 (aet (core s4))"
    using q1 q3 s4(2) same_table_trans by (auto simp: quiet_def get_entry_def fun_eq_iff)
  have q5: "quiet s4 (upd_aet (add_reversed_aet_magic_count va (sl1e_mark e)) s4)"
    using inv4 by (rule quiet_counters)
  let ?s5 = "put_entry sl1mfn ?i 0 (upd_aet (add_reversed_aet_magic_count va (sl1e_mark e)) s4)"
  have rev: "reverse_l1_aet_magic sl1mfn va s4 = ?s5"
    by (simp add: reverse_l1_aet_magic_def Let_def e4 e mark_is_magic)
  have "page_fault_account map_va domain_id (Some sl1mfn) va error_code pse ptr s = Some ?s5"
    using hit s4(1) by (simp add: page_fault_account_def h e1 e4 e rev mark_is_magic)
  moreover have "same_table c3 (aet (core ?s5))" "aet_inv (aet (core ?s5))"
    using q5 t4 same_table_trans by (auto simp: quiet_def)
  ultimately show ?thesis using spec e4 by (intro exI [of _ ?s5]) (simp add: pages.get_put)
qed

section \<open>Entries that are not present or map devices\<close>

lemma gfn_mask_bits: "bit (0xfffffff0 :: u64) n \<longleftrightarrow> 4 \<le> n \<and> n < 32"
proof -
  have eq: "(0xfffffff0 :: u64) = push_bit 4 (mask 28)"
    by (simp add: mask_eq_exp_minus_1 push_bit_eq_mult)
  show ?thesis unfolding eq bit_push_bit_iff bit_mask_iff by auto
qed

lemma magic_bits: "bit (0xffffffff00000001 :: u64) n \<longleftrightarrow> n = 0 \<or> 32 \<le> n \<and> n < 64"
proof -
  have eq: "(0xffffffff00000001 :: u64) = push_bit 32 (mask 32) OR push_bit 0 1"
    by (simp add: mask_eq_exp_minus_1 push_bit_eq_mult)
  show ?thesis unfolding eq bit_or_iff bit_push_bit_iff bit_mask_iff bit_1_iff by auto
qed

lemma mmio_mask_bits: "bit (0xffffffff00000009 :: u64) n \<longleftrightarrow> n = 0 \<or> n = 3 \<or> 32 \<le> n \<and> n < 64"
proof -
  have eq: "(0xffffffff00000009 :: u64) = push_bit 32 (mask 32) OR (push_bit 0 1 OR push_bit 3 1)"
    by (simp add: mask_eq_exp_minus_1 push_bit_eq_mult)
  show ?thesis unfolding eq bit_or_iff bit_push_bit_iff bit_mask_iff bit_1_iff by auto
qed

lemma flag_bits: "bit (6 :: u64) n \<longleftrightarrow> n = 1 \<or> n = 2" "bit (6 :: u32) n \<longleftrightarrow> n = 1 \<or> n = 2"
proof -
  have eq: "(6 :: u64) = push_bit 1 1 OR push_bit 2 1" "(6 :: u32) = push_bit 1 1 OR push_bit 2 1" by simp_all
  show "bit (6 :: u64) n \<longleftrightarrow> n = 1 \<or> n = 2" "bit (6 :: u32) n \<longleftrightarrow> n = 1 \<or> n = 2"
    unfolding eq bit_or_iff bit_push_bit_iff bit_1_iff by auto
qed

lemma user_or_rw: "(4 OR 2 :: u32) = 6"
  by simp

lemma small_gfn_bits: "take_bit 28 gfn = gfn \<Longrightarrow> bit (gfn :: u64) n \<Longrightarrow> n < 28"
  by (metis bit_take_bit_iff)

lemma mmio_bits:
  assumes "take_bit 28 gfn = gfn" "n < 64"
  shows "bit (sh_l1e_mmio gfn gflags) n \<longleftrightarrow>
    n = 0 \<or> 32 \<le> n \<or> 4 \<le> n \<and> bit gfn (n - 4) \<or> (n = 1 \<or> n = 2) \<and> bit gflags n"
  using assms(2) unfolding sh_l1e_mmio_def user_or_rw bit_or_iff magic_bits bit_push_bit_iff bit_unsigned_iff bit_and_iff flag_bits
  by auto

lemma mmio_roundtrip:
  assumes "take_bit 28 gfn = gfn"
  shows "sh_l1e_is_mmio (sh_l1e_mmio gfn gflags)" "sh_l1e_mmio_get_gfn (sh_l1e_mmio gfn gflags) = gfn"
    "sh_l1e_mmio_get_flags (sh_l1e_mmio gfn gflags) = gflags AND (PAGE_USER OR PAGE_RW)"
    "\<not> sh_l1e_is_gnp (sh_l1e_mmio gfn gflags)"
    "sh_l1e_is_aet_magic (sh_l1e_mmio gfn gflags) \<longleftrightarrow> bit gfn 6"
proof -
  note b = mmio_bits [OF assms]
  show "sh_l1e_is_mmio (sh_l1e_mmio gfn gflags)"
    unfolding sh_l1e_is_mmio_def
  proof (rule bit_word_eqI)
    fix n assume "n < LENGTH(64)"
    then show "bit (sh_l1e_mmio gfn gflags AND SH_L1E_MMIO_MAGIC_MASK) n = bit SH_L1E_MAGIC n"
      using b [of n] unfolding bit_and_iff mmio_mask_bits magic_bits by auto
  qed
  show "sh_l1e_mmio_get_gfn (sh_l1e_mmio gfn gflags) = gfn"
    unfolding sh_l1e_mmio_get_gfn_def
  proof (rule bit_word_eqI)
    fix n assume "n < LENGTH(64)"
    then show "bit (drop_bit 4 (sh_l1e_mmio gfn gflags AND SH_L1E_MMIO_GFN_MASK)) n = bit gfn n"
      using b [of "4 + n"] small_gfn_bits [OF assms, of n]
      unfolding bit_drop_bit_eq comp_apply bit_and_iff gfn_mask_bits by auto
  qed
  show "sh_l1e_mmio_get_flags (sh_l1e_mmio gfn gflags) = gflags AND (PAGE_USER OR PAGE_RW)"
    unfolding sh_l1e_mmio_get_flags_def
  proof (rule bit_word_eqI)
    fix n assume "n < LENGTH(32)"
    then show "bit (ucast (sh_l1e_mmio gfn gflags AND 6) :: u32) n = bit (gflags AND (PAGE_USER OR PAGE_RW)) n"
      using b [of n] unfolding user_or_rw bit_unsigned_iff bit_and_iff flag_bits by auto
  qed
  have "\<not> bit (sh_l1e_mmio gfn gflags) 3" using b [of 3] by simp
  moreover have "bit (- 1 :: u64) 3" by simp
  ultimately show "\<not> sh_l1e_is_gnp (sh_l1e_mmio gfn gflags)"
    unfolding sh_l1e_is_gnp_def sh_l1e_gnp_def by metis
  show "sh_l1e_is_aet_magic (sh_l1e_mmio gfn gflags) \<longleftrightarrow> bit gfn 6"
  proof
    assume "sh_l1e_is_aet_magic (sh_l1e_mmio gfn gflags)"
    moreover have "bit SH_L1E_AET_MAGIC 10" unfolding aet_magic_bits by simp
    ultimately have "bit (sh_l1e_mmio gfn gflags) 10"
      unfolding sh_l1e_is_aet_magic_def by (metis bit_and_iff)
    then show "bit gfn 6" using b [of 10] by simp
  next
    assume g: "bit gfn 6"
    show "sh_l1e_is_aet_magic (sh_l1e_mmio gfn gflags)"
      unfolding sh_l1e_is_aet_magic_def
    proof (rule bit_word_eqI)
      fix n assume "n < LENGTH(64)"
      have "bit (sh_l1e_mmio gfn gflags) 10" using b [of 10] g by simp
      moreover have "51 \<le> n \<Longrightarrow> n \<le> 62 \<Longrightarrow> bit (sh_l1e_mmio gfn gflags) n" using b [of n] by simp
      ultimately show "bit (sh_l1e_mmio gfn gflags AND SH_L1E_AET_MAGIC) n = bit SH_L1E_AET_MAGIC n"
        unfolding bit_and_iff aet_magic_bits by blast
    qed
  qed
qed

section \<open>Properties\<close>

text \<open>
  Property C14. A fault on a marked entry of domain 1 or 2 is accounted and undone in one go:
  the handler returns, the reuse is tracked for the frame the entry mapped before it was
  marked, with the memory-reference count as time, the entry of the faulting address is
  cleared so that the guest's access is resolved anew, and no other shadow entry changes.
\<close>
theorem marked_fault_accounted:
  assumes "aet_inv (aet (core s))" "1 \<le> domain_id" "domain_id \<le> 2"
    and "get_entry s sl1mfn (l1_table_offset va) = sl1e_mark e" "sl1e_markable e"
    and "shadow_l1e_get_mfn e \<noteq> 0"
    and "\<And>old pf. last_access (aet (core s)) (nat (domain_id - 1)) (shadow_l1e_get_mfn e) = Some (old, pf) \<Longrightarrow>
      (old < mc \<longrightarrow> unat (mc - old) \<le> 2 ^ 64 - 256)
      \<and> (let new = mc - 20 * (page_fault_count (aet (core s)) - pf) in old \<le> new \<longrightarrow> unat (new - old) \<le> 2 ^ 64 - 256)"
    and "mc = rdmsr_on_cpu 1 0xC2 (aet_pmu (core s)) + rdmsr_on_cpu 1 0xC4 (aet_pmu (core s))"
  shows "\<exists>s'. page_fault_account map_va domain_id (Some sl1mfn) va error_code pse ptr s = Some s'
    \<and> aet_inv (aet (core s'))
    \<and> track_spec (aet (core s)) (nat (domain_id - 1)) (shadow_l1e_get_mfn e) mc (aet (core s'))
    \<and> (\<forall>f i. get_entry s' f i = (if f = sl1mfn \<and> i = l1_table_offset va then 0 else get_entry s f i))"
proof -
  have "dom_index domain_id = Some (nat (domain_id - 1))" using assms(2,3) by (simp add: dom_index_def)
  moreover have "mc = fst (pmu_mem_return 1 0 (aet_pmu (core s)))"
    using assms(8) by (simp add: pmu_mem_return_def Let_def counter_loops)
  ultimately show ?thesis using page_fault_account_marked [OF assms(1) _ assms(4-7)] by blast
qed

definition example_shadow :: shadow_machine where
  "example_shadow =
     \<lparr>core = example_machine\<lparr>sh_page := \<lambda>f i. if f = 7 \<and> i = 1 then 0x7FF8000012345403 else 0\<rparr>,
      count_info = (\<lambda>_. 0), aet_count = 0\<rparr>"

theorem marked_fault_accounted_witness:
  "\<exists>s'. page_fault_account (\<lambda>x. x) 1 (Some 7) 0x1000 12 False 0 example_shadow = Some s'
     \<and> get_entry s' 7 1 = 0"
proof -
  have e: "get_entry example_shadow 7 (l1_table_offset 0x1000) = sl1e_mark 0x12345007"
    "sl1e_markable 0x12345007" "shadow_l1e_get_mfn 0x12345007 = 0x12345" "l1_table_offset 0x1000 = 1"
    by (simp_all add: example_shadow_def get_entry_def l1_table_offset_def sl1e_mark_def sl1e_markable_def
        shadow_l1e_get_flags_def get_pte_flags_def shadow_l1e_get_mfn_def)
  have a: "aet (core example_shadow) = zero_AET_ctrl" by (simp add: example_shadow_def example_machine_def)
  have la: "last_access zero_AET_ctrl d x = None" for d x by (simp add: last_access_def zero_AET_ctrl_def)
  have inv: "aet_inv (aet (core example_shadow))" by (simp add: a aet_inv_zero)
  have mfn: "shadow_l1e_get_mfn 0x12345007 \<noteq> 0" by (simp add: e(3))
  show ?thesis
    using marked_fault_accounted [OF inv _ _ e(1,2) mfn _ refl, of 1 "\<lambda>x. x" 12 False 0] e(4) by (auto simp: a la)
qed

text \<open>
  Property C15. Marking an L1 entry loses nothing: a marked entry is recognised as such, still
  yields the frame it mapped, and unmarking restores it exactly.
\<close>
theorem sl1e_mark_roundtrip:
  assumes "sl1e_markable e"
  shows "sh_l1e_is_aet_magic (sl1e_mark e) \<and> sl1e_unmark (sl1e_mark e) = e
    \<and> shadow_l1e_get_mfn (sl1e_mark e) AND 0x7fffffffff = shadow_l1e_get_mfn e"
  using assms by (simp add: mark_is_magic unmark_mark mark_keeps_mfn)

theorem sl1e_mark_roundtrip_witness:
  "sl1e_markable 0x12345007 \<and> sl1e_unmark (sl1e_mark 0x12345007) = 0x12345007"
proof -
  have "sl1e_markable 0x12345007"
    by (simp add: sl1e_markable_def shadow_l1e_get_flags_def get_pte_flags_def)
  then show ?thesis using sl1e_mark_roundtrip [of "0x12345007"] by simp
qed

text \<open>
  Property C16. The L4 entries that the VM-exit hook marks are not restored by the page-fault
  hook: the two files disagree on the mark, and after the page-fault hook has cleared what it
  takes for the mark every entry it visits, in an external domain every one, still has bits 40 to 50
  and bit 63 set; the entries of Xen that it skips in other domains keep the whole mark.
\<close>
theorem l4_marks_not_restored:
  assumes "is_l4_track (aet (core s))" "i < 512" "bit (get_entry s sl4mfn i) 0"
    and "get_entry s sl4mfn i AND 0xffffff0000000400 = 0"
  shows "let s' = page_fault_head external is_pv_32bit sl4mfn va (snd (shadow_l4e_set_aet_magic sl4mfn s))
    in get_entry s' sl4mfn i =
         (if external \<or> is_guest_l4_slot is_pv_32bit i \<or> i = l4_table_offset va
          then get_entry s sl4mfn i OR 0x8007FF0000000000 else get_entry s sl4mfn i OR 0xffffff0000000400)
      \<and> get_entry s' sl4mfn i \<noteq> get_entry s sl4mfn i"
proof -
  let ?e = "get_entry s sl4mfn i"
  have "bit (?e OR 0xffffff0000000400) 0" using assms(3) by (simp add: bit_or_iff)
  then have "get_entry (page_fault_head external is_pv_32bit sl4mfn va (snd (shadow_l4e_set_aet_magic sl4mfn s))) sl4mfn i
      = (if external \<or> is_guest_l4_slot is_pv_32bit i \<or> i = l4_table_offset va
         then (?e OR 0xffffff0000000400) AND NOT 0x7ff8000000000400 else ?e OR 0xffffff0000000400)"
    using assms by (subst page_fault_head_effect) (auto simp: set_l4_frame set_l4_effect l4_slot_visited_def)
  moreover have "?e OR 0xffffff0000000400 \<noteq> ?e"
  proof
    assume "?e OR 0xffffff0000000400 = ?e"
    then have "(?e OR 0xffffff0000000400) AND 0xffffff0000000400 = ?e AND 0xffffff0000000400" by (rule arg_cong)
    then show False using assms(4) by (simp add: bit.conj_disj_distrib2)
  qed
  ultimately show ?thesis using l4_unmark_residue [OF assms(4)] by (simp add: Let_def)
qed

theorem l4_marks_not_restored_witness:
  "\<exists>s. is_l4_track (aet (core s)) \<and> get_entry s 9 3 = 0x5067
     \<and> get_entry (page_fault_head True False 9 0 (snd (shadow_l4e_set_aet_magic 9 s))) 9 3 = 0x8007FF0000005067"
proof -
  let ?s = "example_shadow\<lparr>core := example_machine\<lparr>sh_page := \<lambda>f i. if f = 9 \<and> i = 3 then 0x5067 else 0,
      aet := zero_AET_ctrl\<lparr>open' := 1, track' := 1\<rparr>\<rparr>\<rparr>"
  have s: "is_l4_track (aet (core ?s))" "get_entry ?s 9 3 = 0x5067"
    by (simp_all add: is_l4_track_def is_aet_track_open_def get_entry_def)
  have "bit (get_entry ?s 9 3) 0" "get_entry ?s 9 3 AND 0xffffff0000000400 = 0" unfolding s by simp_all
  from l4_marks_not_restored [OF s(1) _ this, of True False 0] s show ?thesis by (intro exI [of _ ?s]) (simp add: Let_def)
qed

text \<open>
  Property C17. The entries that stand for device memory keep a frame number of 28 bits and the
  guest's flags, and are told from not-present entries; but the tracker's test takes the
  not-present entry, and a device entry whenever bit 6 of its frame number is set, for marked.
\<close>
theorem mmio_entries_roundtrip:
  assumes "take_bit 28 gfn = gfn"
  shows "sh_l1e_is_mmio (sh_l1e_mmio gfn gflags) \<and> sh_l1e_mmio_get_gfn (sh_l1e_mmio gfn gflags) = gfn
    \<and> sh_l1e_mmio_get_flags (sh_l1e_mmio gfn gflags) = gflags AND (PAGE_USER OR PAGE_RW)
    \<and> \<not> sh_l1e_is_gnp (sh_l1e_mmio gfn gflags) \<and> sh_l1e_is_aet_magic sh_l1e_gnp
    \<and> (sh_l1e_is_aet_magic (sh_l1e_mmio gfn gflags) \<longleftrightarrow> bit gfn 6)"
  using mmio_roundtrip [OF assms, of gflags] by (simp add: sh_l1e_is_aet_magic_def sh_l1e_gnp_def)

theorem mmio_entries_roundtrip_witness:
  "sh_l1e_mmio_get_gfn (sh_l1e_mmio 0xFEC40 7) = 0xFEC40 \<and> sh_l1e_is_aet_magic (sh_l1e_mmio 0xFEC40 7)"
  using mmio_entries_roundtrip [of "0xFEC40" 7] by simp

end
