(* ===== verification/Aet_Tool.thy ===== *)
theory Aet_Tool
  imports Aet Complex_Main
begin

text \<open>
  The control tool \<^verbatim>\<open>aet_tool/control/myxc.c\<close>: resetting the shared structure and turning a
  domain's histogram into a miss-ratio curve. The integers of \<^verbatim>\<open>aet_process\<close> keep their C
  widths; its doubles are exact rationals, so rounding is not modelled. A curve that is not
  a number (no measured reuse, or as many nodes as accesses, where the C code divides by zero) is
  \<open>None\<close>, as is a loop that never ends. The curve is the list of ratios the tool writes to its file.
\<close>

section \<open>Resetting\<close>

definition reset :: "AET_ctrl \<Rightarrow> AET_ctrl" where
  "reset c =
     c\<lparr>total_count := 0, set_aet_magic_count := 0, tracked_aet_magic_count1 := 0,
       tracked_aet_magic_count2 := 0, reversed_aet_magic_count := 0, page_fault_count := 0,
       user_mode_fault := 0, reserved_bit_fault := 0, both_fault := 0, hash_conflict_num := 0,
       hns' := (\<lambda>_ _ _. \<lparr>hn_mfn = 0, hn_mem_counter = 0, hn_pf = 0\<rparr>),
       aet_hist' := (\<lambda>_ _. 0), node_count' := (\<lambda>_. 0), tot_ref' := (\<lambda>_. 0),
       lps := (\<lambda>_. \<lparr>lp_va = 0, lp_sl1mfn = 0\<rparr>),
       tvs := (\<lambda>_. \<lparr>tv_va = 0, tv_l1p = 0, tv_l1 = 0, tv_type = SET, tv_ec = 0, tv_mc = 0\<rparr>)\<rparr>"

section \<open>The miss-ratio curve\<close>

text \<open>\<^verbatim>\<open>int\<close> arithmetic: a sum is stored modulo \<open>2^32\<close>, as a signed number.\<close>

definition int32 :: "int \<Rightarrow> int" where
  "int32 x = sint (word_of_int x :: u32)"

record mrc =
  m_T :: u64
  m_tot :: rat
  m_sum :: rat
  m_step :: u64
  m_dom :: int
  m_dT :: int
  m_loc :: int

definition mrc_init :: mrc where
  "mrc_init = \<lparr>m_T = 0, m_tot = 0, m_sum = 0, m_step = 1, m_dom = 0, m_dT = 0, m_loc = 0\<rparr>"

text \<open>The bookkeeping of one time step: the time and the histogram entry it falls into.\<close>

definition mrc_advance :: "mrc \<Rightarrow> mrc" where
  "mrc_advance st =
     (let st = st\<lparr>m_T := m_T st + 1\<rparr>
      in if m_T st > word_of_int (m_loc st)
         then
           (let dom = m_dom st + 1;
                st = (if dom > 256 then st\<lparr>m_dom := 1, m_step := m_step st * 2\<rparr> else st\<lparr>m_dom := dom\<rparr>)
            in st\<lparr>m_loc := int32 (m_loc st + uint (m_step st)), m_dT := m_dT st + 1\<rparr>)
         else st)"

partial_function (option) mrc_while :: "u64 \<Rightarrow> rat \<Rightarrow> (nat \<Rightarrow> u64) \<Rightarrow> nat \<Rightarrow> mrc \<Rightarrow> mrc option" where
  "mrc_while n N hist c st =
     (if m_T st \<le> n \<and> m_tot st / N < of_nat c \<and> m_sum st < N
      then
        (let st = mrc_advance (st\<lparr>m_tot := m_tot st + (N - m_sum st)\<rparr>)
         in if 50000 \<le> m_dT st then Some st
            else mrc_while n N hist c
                   (st\<lparr>m_sum := m_sum st + of_nat (unat (hist (nat (m_dT st)))) / of_nat (unat (m_step st))\<rparr>))
      else Some st)"

fun mrc_curve :: "u64 \<Rightarrow> rat \<Rightarrow> (nat \<Rightarrow> u64) \<Rightarrow> nat list \<Rightarrow> mrc \<Rightarrow> rat list \<Rightarrow> rat list option" where
  "mrc_curve n N hist [] st out = Some out"
| "mrc_curve n N hist (c # cs) st out =
     do {
       st \<leftarrow> mrc_while n N hist c st;
       if 50000 \<le> m_dT st then Some out
       else
         (let out = (if c mod 256 = 0
                     then out @ [if m_sum st \<le> N then (N - m_sum st) / N else 0] else out)
          in mrc_curve n N hist cs st out)
     }"

definition mrc_total :: "u64 \<Rightarrow> u64 \<Rightarrow> u64 \<Rightarrow> rat option" where
  "mrc_total tott n m =
     (if n - m = 0 \<or> tott = 0 then None
      else Some (of_nat (unat tott) + of_nat (unat tott) / of_nat (unat (n - m)) * of_nat (unat m)))"

definition aet_process :: "nat \<Rightarrow> u64 \<Rightarrow> AET_ctrl \<Rightarrow> rat list option" where
  "aet_process d n c =
     (let m = node_count' c d * 256;
          tott = tot_ref' c d
      in do {
        N \<leftarrow> mrc_total tott n m;
        mrc_curve n N (aet_hist' c d) [1..<512001] mrc_init []
      })"

section \<open>The histogram walk\<close>

text \<open>The tool is at entry \<open>256 k + r\<close>, whose bucket ends at \<open>m_loc\<close> and has width \<open>2^k\<close>.\<close>

definition walk_at :: "nat \<Rightarrow> nat \<Rightarrow> mrc \<Rightarrow> bool" where
  "walk_at k r st \<longleftrightarrow>
     r \<le> 256 \<and> (r = 0 \<longrightarrow> k = 0 \<and> m_T st = 0) \<and> (m_T st = 0 \<longrightarrow> r = 0)
     \<and> k < 31 \<and> m_step st = 2 ^ k \<and> m_dom st = int r \<and> m_dT st = int (256 * k + r)
     \<and> m_loc st = int (256 * (2 ^ k - 1) + r * 2 ^ k)
     \<and> unat (m_T st) \<le> 256 * (2 ^ k - 1) + r * 2 ^ k
     \<and> (0 < r \<longrightarrow> 256 * (2 ^ k - 1) + r * 2 ^ k < unat (m_T st) + 2 ^ k)"

lemma walk_at_index:
  assumes "walk_at k r st"
  shows "m_dT st = int (index_of (unat (m_T st)))"
proof (cases "r = 0")
  case True
  then show ?thesis using assms by (simp add: walk_at_def index_of_small)
next
  case False
  obtain q :: nat where q: "2 ^ k = q" "1 \<le> q" by simp
  let ?T = "unat (m_T st)"
  have w: "r \<le> 256" "?T \<le> 256 * (q - 1) + r * q" "256 * (q - 1) + r * q < ?T + q"
    using assms False by (simp_all add: walk_at_def q)
  have rq: "r * q \<le> 256 * q" using w(1) by simp
  obtain r' where r': "r = Suc r'" using False not0_implies_Suc by blast
  have lo: "256 * (q - 1) + r' * q < ?T" using w(3) r' by simp
  have "?T \<le> 256 * (2 * q - 1)" "256 * (q - 1) < ?T" using w(2) rq q(2) lo by linarith+
  then have "at_level k ?T" by (simp add: at_level_def q(1))
  moreover have "ceil_div (?T - 256 * (q - 1)) q = r"
  proof -
    have "r' * q < ?T - 256 * (q - 1)" "?T - 256 * (q - 1) \<le> r * q" using lo w(2) by linarith+
    moreover have "ceil_div a q = r" if "r' * q < a" "a \<le> r * q" for a
    proof -
      have "r * q \<le> a + q - 1" "a + q - 1 < Suc r * q" using that r' q(2) by auto
      then show ?thesis unfolding ceil_div_def using q(2) by (intro div_nat_eqI) (auto simp: mult.commute)
    qed
    ultimately show ?thesis by blast
  qed
  ultimately show ?thesis using assms index_of_at_level [of k ?T] by (simp add: walk_at_def q)
qed

lemma int32_small: "0 \<le> x \<Longrightarrow> x < 2 ^ 31 \<Longrightarrow> int32 x = x"
proof -
  assume x: "0 \<le> x" "x < 2 ^ 31"
  then have "uint (word_of_int x :: u32) = x" by (simp add: unsigned_of_int take_bit_int_eq_self)
  with x show ?thesis by (simp add: int32_def sint_uint signed_take_bit_int_eq_self)
qed

lemma uint_pow2: "k < LENGTH('a) \<Longrightarrow> uint (2 ^ k :: 'a::len word) = 2 ^ k"
  by transfer (simp add: take_bit_of_exp)

lemma walk_bounds:
  assumes "walk_at k r st" "unat (m_T st) < 2 ^ 30"
  shows "k \<le> 22" "256 * (2 ^ k - 1) + r * 2 ^ k < (1077936128::nat)"
proof -
  obtain q :: nat where q: "2 ^ k = q" "1 \<le> q" by simp
  have T: "unat (m_T st) < 1073741824" using assms(2) by simp
  have q22: "q \<le> 4194304 \<and> 256 * (q - 1) + r * q < 1077936128 \<or> r = 0 \<and> q = 1"
  proof (cases "r = 0")
    case True
    then show ?thesis using assms(1) q by (auto simp: walk_at_def)
  next
    case False
    then obtain r' where r': "r = Suc r'" using not0_implies_Suc by blast
    have "256 * (q - 1) + r * q < unat (m_T st) + q" using assms(1) False by (simp add: walk_at_def q)
    then show ?thesis using T r' q(2) by auto
  qed
  then have "(2::nat) ^ k \<le> 2 ^ 22" using q by auto
  then show "k \<le> 22" by (rule power_le_imp_le_exp [rotated]) simp
  show "256 * (2 ^ k - 1) + r * 2 ^ k < (1077936128::nat)" using q22 q by auto
qed

lemma mrc_advance_walk:
  assumes "walk_at k r st" "unat (m_T st) < 2 ^ 30"
  shows "\<exists>k r. walk_at k r (mrc_advance st) \<and> m_T (mrc_advance st) = m_T st + 1"
proof -
  let ?T = "unat (m_T st)"
  have T1: "unat (m_T st + 1) = Suc ?T" using assms(2) by (simp add: unat_word_ariths)
  then have T0: "m_T st + 1 \<noteq> 0" by (metis nat.distinct(1) unsigned_0)
  define L where "L = 256 * (2 ^ k - 1) + r * 2 ^ k"
  note b = walk_bounds [OF assms, folded L_def]
  have w: "r \<le> 256" "m_step st = 2 ^ k" "m_dom st = int r" "m_dT st = int (256 * k + r)"
    "m_loc st = int L" "?T \<le> L" "r = 0 \<longrightarrow> k = 0"
    "0 < r \<longrightarrow> L < ?T + 2 ^ k"
    using assms(1) by (auto simp: walk_at_def L_def)
  have "unat (word_of_int (m_loc st) :: u64) = L" using b(2) unfolding w(5) by (simp add: unat_of_nat64)
  then have gt: "m_T st + 1 > word_of_int (m_loc st) \<longleftrightarrow> ?T = L"
    unfolding word_less_nat_alt T1 using w(6) by linarith
  have p: "(2::int) ^ k \<le> 2 ^ 22" using b(1) by (intro power_increasing) auto
  have q1: "(1::nat) \<le> 2 ^ k" by simp
  have u: "uint (2 ^ k :: u64) = 2 ^ k" "uint (2 ^ Suc k :: u64) = 2 ^ Suc k"
    using b(1) by (intro uint_pow2, simp)+
  show ?thesis
  proof (cases "?T = L")
    case False
    then have "walk_at k r (mrc_advance st)"
      using assms(1) gt T1 w(6) T0 by (auto simp: mrc_advance_def Let_def walk_at_def L_def)
    then show ?thesis using gt False by (auto simp: mrc_advance_def Let_def)
  next
    case True
    show ?thesis
    proof (cases "r = 256")
      case r256: True
      have "256 * (2 ^ Suc k - 1) = L" using r256 by (simp add: L_def)
      then have loc': "int32 (m_loc st + 2 ^ Suc k) = int (256 * (2 ^ Suc k - 1) + 1 * 2 ^ Suc k)"
        using b(2) p by (subst int32_small) (simp_all add: w(5))
      have adv: "mrc_advance st = st\<lparr>m_T := m_T st + 1, m_dom := 1, m_step := 2 ^ Suc k,
          m_loc := int (256 * (2 ^ Suc k - 1) + 1 * 2 ^ Suc k), m_dT := m_dT st + 1\<rparr>"
        unfolding loc' [symmetric] using gt True r256 w(2,3) u
        by (simp add: mrc_advance_def Let_def mult.commute)
      have "walk_at (Suc k) 1 (mrc_advance st)"
        using b(1) w T1 T0 True r256 unfolding adv by (simp add: walk_at_def L_def) (insert q1, linarith)
      then show ?thesis unfolding adv by auto
    next
      case r: False
      have loc': "int32 (m_loc st + 2 ^ k) = int (256 * (2 ^ k - 1) + Suc r * 2 ^ k)"
      proof -
        have "int32 (int L + 2 ^ k) = int L + 2 ^ k" using b(2) p by (intro int32_small) simp_all
        also have "\<dots> = int (256 * (2 ^ k - 1) + Suc r * 2 ^ k)" by (simp add: L_def)
        finally show ?thesis by (simp only: w(5))
      qed
      have adv: "mrc_advance st = st\<lparr>m_T := m_T st + 1, m_dom := int (Suc r),
          m_loc := int (256 * (2 ^ k - 1) + Suc r * 2 ^ k), m_dT := m_dT st + 1\<rparr>"
        unfolding loc' [symmetric] using gt True r w(1-3) u
        by (simp add: mrc_advance_def Let_def)
      have "walk_at k (Suc r) (mrc_advance st)"
        using b(1) w T1 T0 True r unfolding adv by (simp add: walk_at_def L_def)
      then show ?thesis unfolding adv by auto
    qed
  qed
qed

lemma walk_init: "walk_at 0 0 mrc_init"
  by (simp add: walk_at_def mrc_init_def)

lemma walk_cong: "walk_at k r (st\<lparr>m_tot := x\<rparr>) = walk_at k r st" "walk_at k r (st\<lparr>m_sum := y\<rparr>) = walk_at k r st"
  by (simp_all add: walk_at_def)

lemma mrc_advance_sum: "m_sum (mrc_advance st) = m_sum st" "m_tot (mrc_advance st) = m_tot st"
  by (simp_all add: mrc_advance_def Let_def)

lemma walk_dT_bound:
  assumes "walk_at k r st"
  shows "m_dT st < 50000"
  using assms by (simp add: walk_at_def)

lemma mrc_while_total:
  assumes "\<exists>k r. walk_at k r st" "unat n < 2 ^ 30" "0 \<le> m_sum st"
  shows "\<exists>st'. mrc_while n N hist c st = Some st' \<and> (\<exists>k r. walk_at k r st') \<and> m_sum st \<le> m_sum st'"
  using assms(1,3)
proof (induction "Suc (unat n) - unat (m_T st)" arbitrary: st rule: less_induct)
  case less
  show ?case
  proof (cases "m_T st \<le> n \<and> m_tot st / N < of_nat c \<and> m_sum st < N")
    case False
    then show ?thesis using less.prems by (subst mrc_while.simps) auto
  next
    case True
    let ?st = "mrc_advance (st\<lparr>m_tot := m_tot st + (N - m_sum st)\<rparr>)"
    let ?inc = "of_nat (unat (hist (nat (m_dT ?st)))) / of_nat (unat (m_step ?st)) :: rat"
    let ?st' = "?st\<lparr>m_sum := m_sum ?st + ?inc\<rparr>"
    have T: "unat (m_T st) \<le> unat n" using True by (simp add: word_le_nat_alt)
    obtain k r where "walk_at k r (st\<lparr>m_tot := m_tot st + (N - m_sum st)\<rparr>)"
      using less.prems(1) by (auto simp: walk_cong)
    then obtain k' r' where w: "walk_at k' r' ?st" "m_T ?st = m_T st + 1"
      using mrc_advance_walk [of k r "st\<lparr>m_tot := m_tot st + (N - m_sum st)\<rparr>"] T assms(2) by auto
    have "unat (m_T ?st') = Suc (unat (m_T st))"
      using T assms(2) by (simp add: w(2) unat_word_ariths)
    then have meas: "Suc (unat n) - unat (m_T ?st') < Suc (unat n) - unat (m_T st)" using T by linarith
    have "\<exists>k r. walk_at k r ?st'" using w(1) by (auto simp: walk_cong)
    moreover have "0 \<le> ?inc" by (rule divide_nonneg_nonneg) (rule of_nat_0_le_iff)+
    then have le: "m_sum st \<le> m_sum ?st'" by (simp add: mrc_advance_sum)
    ultimately obtain st'' where "mrc_while n N hist c ?st' = Some st''" "\<exists>k r. walk_at k r st''" "m_sum ?st' \<le> m_sum st''"
      using less.hyps [OF meas] less.prems(2) le by fastforce
    moreover have "mrc_while n N hist c st = mrc_while n N hist c ?st'"
      using True walk_dT_bound [OF w(1)] by (subst mrc_while.simps) (simp add: Let_def)
    ultimately show ?thesis using le by auto
  qed
qed

definition miss_ratio :: "rat \<Rightarrow> rat \<Rightarrow> rat" where
  "miss_ratio N s = (if s \<le> N then (N - s) / N else 0)"

lemma miss_ratio_props:
  assumes "0 < N"
  shows "0 \<le> s \<Longrightarrow> 0 \<le> miss_ratio N s \<and> miss_ratio N s \<le> 1" "s \<le> t \<Longrightarrow> miss_ratio N t \<le> miss_ratio N s"
  using assms by (auto simp: miss_ratio_def divide_right_mono)

lemma mrc_curve_total:
  assumes "\<exists>k r. walk_at k r st" "unat n < 2 ^ 30" "0 \<le> m_sum st" "0 < N"
    and "sorted_wrt (\<ge>) out" "\<forall>x\<in>set out. miss_ratio N (m_sum st) \<le> x \<and> x \<le> 1"
  shows "\<exists>out'. mrc_curve n N hist cs st out = Some out' \<and> sorted_wrt (\<ge>) out'
    \<and> (\<forall>x\<in>set out'. 0 \<le> x \<and> x \<le> 1) \<and> length out' = length out + length (filter (\<lambda>c. c mod 256 = 0) cs)"
  using assms(1,3,5,6)
proof (induction cs arbitrary: st out)
  case Nil
  then show ?case using miss_ratio_props(1) [OF assms(4) Nil(2)] by fastforce
next
  case (Cons c cs)
  obtain st' where st': "mrc_while n N hist c st = Some st'" "\<exists>k r. walk_at k r st'" "m_sum st \<le> m_sum st'"
    using mrc_while_total [OF Cons.prems(1) assms(2) Cons.prems(2)] by blast
  let ?out = "if c mod 256 = 0 then out @ [miss_ratio N (m_sum st')] else out"
  have pos: "0 \<le> m_sum st'" using st'(3) Cons.prems(2) by simp
  have old: "\<forall>x\<in>set out. miss_ratio N (m_sum st') \<le> x \<and> x \<le> 1"
    using Cons.prems(4) miss_ratio_props(2) [OF assms(4) st'(3)] by fastforce
  then have "sorted_wrt (\<ge>) ?out" using Cons.prems(3) by (auto simp: sorted_wrt_append)
  moreover have "\<forall>x\<in>set ?out. miss_ratio N (m_sum st') \<le> x \<and> x \<le> 1"
    using old miss_ratio_props(1) [OF assms(4) pos] by auto
  ultimately obtain out' where "mrc_curve n N hist cs st' ?out = Some out'" "sorted_wrt (\<ge>) out'"
    "\<forall>x\<in>set out'. 0 \<le> x \<and> x \<le> 1" "length out' = length ?out + length (filter (\<lambda>c. c mod 256 = 0) cs)"
    using Cons.IH [OF st'(2) pos] by blast
  moreover have "\<not> 50000 \<le> m_dT st'" using st'(2) walk_dT_bound by fastforce
  then have "mrc_curve n N hist (c # cs) st out = mrc_curve n N hist cs st' ?out"
    by (simp add: st'(1) Let_def miss_ratio_def)
  ultimately show ?case by simp
qed

lemma mrc_total_pos: "mrc_total tott n m = Some N \<Longrightarrow> 0 < N"
proof -
  assume N: "mrc_total tott n m = Some N"
  then have "0 < unat tott" by (auto simp: mrc_total_def unat_gt_0 split: if_splits)
  then have "0 < (of_nat (unat tott) :: rat)" by (simp del: of_nat_unat)
  moreover have "0 \<le> (of_nat (unat tott) / of_nat (unat (n - m)) * of_nat (unat m) :: rat)"
    by (intro mult_nonneg_nonneg divide_nonneg_nonneg of_nat_0_le_iff)
  moreover have "N = of_nat (unat tott) + of_nat (unat tott) / of_nat (unat (n - m)) * of_nat (unat m)"
    using N unfolding mrc_total_def by (metis option.distinct(1) option.inject)
  ultimately show "0 < N" by linarith
qed

lemma advance_iterate:
  "t \<le> 2 ^ 30 \<Longrightarrow> (\<exists>k r. walk_at k r ((mrc_advance ^^ t) mrc_init)) \<and> m_T ((mrc_advance ^^ t) mrc_init) = of_nat t"
proof (induction t)
  case 0
  then show ?case using walk_init by (auto simp: mrc_init_def)
next
  case (Suc t)
  then obtain k r where w: "walk_at k r ((mrc_advance ^^ t) mrc_init)" "m_T ((mrc_advance ^^ t) mrc_init) = of_nat t"
    by auto
  have "unat (of_nat t :: u64) < 2 ^ 30" using Suc.prems by (simp add: unat_of_nat64)
  then show ?case using mrc_advance_walk [OF w(1)] w(2) by (auto simp: add.commute)
qed

section \<open>Properties\<close>

text \<open>
  Property C19. The tool finds the histogram entry of a time by walking the buckets one time step
  after the other; the hypervisor computes it with \<^verbatim>\<open>domain_value_to_index\<close>. For every time up
  to \<open>2^30\<close> the two agree: after \<open>t\<close> steps the tool reads the entry the hypervisor
  counts a reuse time of \<open>t\<close> in.
\<close>

theorem mrc_index_agrees:
  assumes "t \<le> 2 ^ 30"
  shows "domain_value_to_index (of_nat t) = Some (word_of_int (m_dT ((mrc_advance ^^ t) mrc_init)))"
proof -
  obtain k r where w: "walk_at k r ((mrc_advance ^^ t) mrc_init)" "m_T ((mrc_advance ^^ t) mrc_init) = of_nat t"
    using advance_iterate [OF assms] by blast
  have t: "unat (of_nat t :: u64) = t" using assms by (simp add: unat_of_nat64)
  then have "domain_value_to_index (of_nat t) = Some (of_nat (index_of t))"
    using domain_value_to_index_eq [of "of_nat t"] assms by simp
  then show ?thesis using walk_at_index [OF w(1)] by (simp add: w(2) t)
qed

theorem mrc_index_agrees_witness:
  "domain_value_to_index (of_nat 3) = Some (word_of_int (m_dT ((mrc_advance ^^ 3) mrc_init)))"
  using mrc_index_agrees [of 3] by simp

text \<open>
  Property C18. The miss-ratio curve. For fewer than \<open>2^30\<close> accesses, some measured reuse and
  fewer nodes than accesses, the tool terminates on every histogram, never reaches the end of
  the histogram, writes one ratio for each multiple of 256 pages, and the ratios lie between 0
  and 1 and never grow with the cache size.
\<close>

theorem aet_process_curve:
  assumes "unat n < 2 ^ 30" "tot_ref' c d \<noteq> 0" "n \<noteq> node_count' c d * 256"
  shows "\<exists>curve. aet_process d n c = Some curve \<and> sorted_wrt (\<ge>) curve
    \<and> (\<forall>x\<in>set curve. 0 \<le> x \<and> x \<le> 1)
    \<and> length curve = length (filter (\<lambda>c. c mod 256 = 0) [1..<512001])"
proof -
  obtain N where N: "mrc_total (tot_ref' c d) n (node_count' c d * 256) = Some N"
    using assms(2,3) by (auto simp: mrc_total_def)
  have i: "\<exists>k r. walk_at k r mrc_init" "0 \<le> m_sum mrc_init" using walk_init by (auto simp: mrc_init_def)
  show ?thesis
    unfolding aet_process_def Let_def N bind.bind_lunit
    using mrc_curve_total [OF i(1) assms(1) i(2) mrc_total_pos [OF N], of "[]" "aet_hist' c d" "[1..<512001]"]
    unfolding list.size(3) add_0 by fastforce
qed

theorem aet_process_curve_witness:
  "\<exists>curve. aet_process 1 1000 (zero_AET_ctrl\<lparr>tot_ref' := (\<lambda>_. 5)\<rparr>) = Some curve \<and> sorted_wrt (\<ge>) curve
    \<and> (\<forall>x\<in>set curve. 0 \<le> x \<and> x \<le> 1)
    \<and> length curve = length (filter (\<lambda>c. c mod 256 = 0) [1..<512001])"
  by (rule aet_process_curve) (simp_all add: zero_AET_ctrl_def)

text \<open>
  Property C20. Resetting the structure from the tool keeps the invariant of the hypervisor's
  side, forgets every access and empties the histograms, but leaves the ring of hot entries at
  its length: the entries it still holds are zeroed, not removed.
\<close>

theorem reset_keeps_invariant:
  assumes "aet_inv c"
  shows "aet_inv (reset c) \<and> last_access (reset c) d = Map.empty \<and> aet_hist' (reset c) d = (\<lambda>_. 0)
    \<and> ring_list (reset c) = replicate (ring_len c) \<lparr>lp_va = 0, lp_sl1mfn = 0\<rparr>"
  using assms
  by (auto simp: aet_inv_def reset_def counts_ok_def hash_ok_def last_access_def ring_list_def ring_len_def bucket_ok_def pending_list_def
      fun_eq_iff map_replicate_const)

theorem reset_keeps_invariant_witness:
  "aet_inv (reset zero_AET_ctrl) \<and> last_access (reset zero_AET_ctrl) 1 = Map.empty \<and> aet_hist' (reset zero_AET_ctrl) 1 = (\<lambda>_. 0)
    \<and> ring_list (reset zero_AET_ctrl) = replicate (ring_len zero_AET_ctrl) \<lparr>lp_va = 0, lp_sl1mfn = 0\<rparr>"
  using reset_keeps_invariant [OF aet_inv_zero, of 1] .

end
