(* ===== verification/Timer_Heap.thy ===== *)
theory Timer_Heap
  imports Prelude
begin

text \<open>
  The containers of active timers of \<^verbatim>\<open>xen/common/timer.c\<close>: the per-CPU binary heap and the
  overflow list. A timer is a number, the store \<open>tm\<close> gives its \<^verbatim>\<open>struct timer\<close>; system
  times are integers. The heap is the array of timer pointers from index 1, its size and limit
  (the two 16-bit halves of slot 0 in the code) are fields. The overflow list and the list of
  inactive timers are lists of timers: the pointers that link them share a union with
  \<open>heap_offset\<close>, which the code reads for timers in the heap only.
\<close>

section \<open>Data\<close>

datatype tstatus = TIMER_invalid | TIMER_inactive | TIMER_killed | TIMER_in_heap | TIMER_in_list

record timer =
  expires :: int
  heap_offset :: nat
  callback :: nat
  cb_data :: nat
  tcpu :: nat
  status :: tstatus

type_synonym tstore = "nat \<Rightarrow> timer"

record timers =
  heap :: "nat \<Rightarrow> nat"
  heap_size :: nat
  heap_limit :: nat
  tlist :: "nat list"
  running :: "nat option"
  inactive :: "nat list"

definition SET_HEAP_SIZE :: "nat \<Rightarrow> timers \<Rightarrow> timers" where
  "SET_HEAP_SIZE v ts = ts\<lparr>heap_size := v mod 2 ^ 16\<rparr>"

definition SET_HEAP_LIMIT :: "nat \<Rightarrow> timers \<Rightarrow> timers" where
  "SET_HEAP_LIMIT v ts = ts\<lparr>heap_limit := v mod 2 ^ 16\<rparr>"

definition set_offset :: "nat \<Rightarrow> nat \<Rightarrow> tstore \<Rightarrow> tstore" where
  "set_offset t pos tm = tm(t := (tm t)\<lparr>heap_offset := pos\<rparr>)"

section \<open>Heap operations\<close>

text \<open>Sinking from position 0, the slot of the header, would follow a pointer that is none.\<close>

function down_loop :: "nat \<Rightarrow> nat \<Rightarrow> (nat \<Rightarrow> nat) \<Rightarrow> tstore \<Rightarrow> nat \<Rightarrow> ((nat \<Rightarrow> nat) \<times> tstore \<times> nat) option" where
  "down_loop sz t h tm pos =
     (if pos = 0 then None
      else if pos * 2 \<le> sz
      then
        (let nxt = (if pos * 2 + 1 \<le> sz \<and> expires (tm (h (pos * 2 + 1))) < expires (tm (h (pos * 2)))
                    then pos * 2 + 1 else pos * 2)
         in if expires (tm (h nxt)) > expires (tm t) then Some (h, tm, pos)
            else down_loop sz t (h(pos := h nxt)) (set_offset (h nxt) pos tm) nxt)
      else Some (h, tm, pos))"
  by pat_completeness auto
termination
  by (relation "measure (\<lambda>(sz, t, h, tm, pos). sz - pos)") (auto simp: Let_def split: if_splits)

definition down_heap :: "timers \<Rightarrow> tstore \<Rightarrow> nat \<Rightarrow> (timers \<times> tstore) option" where
  "down_heap ts tm pos =
     (let t = heap ts pos
      in map_option (\<lambda>(h, tm, pos). (ts\<lparr>heap := h(pos := t)\<rparr>, set_offset t pos tm))
           (down_loop (heap_size ts) t (heap ts) tm pos))"

fun up_loop :: "nat \<Rightarrow> (nat \<Rightarrow> nat) \<Rightarrow> tstore \<Rightarrow> nat \<Rightarrow> (nat \<Rightarrow> nat) \<times> tstore \<times> nat" where
  "up_loop t h tm pos =
     (if pos > 1 \<and> expires (tm t) < expires (tm (h (pos div 2)))
      then up_loop t (h(pos := h (pos div 2))) (set_offset (h (pos div 2)) pos tm) (pos div 2)
      else (h, tm, pos))"

definition up_heap :: "timers \<Rightarrow> tstore \<Rightarrow> nat \<Rightarrow> timers \<times> tstore" where
  "up_heap ts tm pos =
     (let t = heap ts pos;
          (h, tm, pos) = up_loop t (heap ts) tm pos
      in (ts\<lparr>heap := h(pos := t)\<rparr>, set_offset t pos tm))"

definition heap_fix :: "timers \<Rightarrow> tstore \<Rightarrow> nat \<Rightarrow> (timers \<times> tstore) option" where
  "heap_fix ts tm pos =
     (if pos > 1 \<and> expires (tm (heap ts pos)) < expires (tm (heap ts (pos div 2)))
      then Some (up_heap ts tm pos) else down_heap ts tm pos)"

definition remove_from_heap :: "timers \<Rightarrow> tstore \<Rightarrow> nat \<Rightarrow> (timers \<times> tstore \<times> bool) option" where
  "remove_from_heap ts tm t =
     (let sz = heap_size ts;
          pos = heap_offset (tm t)
      in if pos = sz then Some (SET_HEAP_SIZE (sz - 1) ts, tm, pos = 1)
         else
           (let ts = ts\<lparr>heap := (heap ts)(pos := heap ts sz)\<rparr>;
                tm = set_offset (heap ts pos) pos tm;
                ts = SET_HEAP_SIZE (sz - 1) ts
            in map_option (\<lambda>(ts, tm). (ts, tm, pos = 1)) (heap_fix ts tm pos)))"

definition add_to_heap :: "timers \<Rightarrow> tstore \<Rightarrow> nat \<Rightarrow> timers \<times> tstore \<times> bool" where
  "add_to_heap ts tm t =
     (let sz = heap_size ts
      in if sz = heap_limit ts then (ts, tm, False)
         else
           (let sz = sz + 1;
                ts = SET_HEAP_SIZE sz ts;
                ts = ts\<lparr>heap := (heap ts)(sz := t)\<rparr>;
                tm = set_offset t sz tm;
                (ts, tm) = up_heap ts tm sz
            in (ts, tm, heap_offset (tm t) = 1)))"

declare down_loop.simps [simp del] up_loop.simps [simp del]

section \<open>List operations\<close>

fun remove_from_list :: "nat list \<Rightarrow> nat \<Rightarrow> (nat list \<times> bool) option" where
  "remove_from_list [] t = None"
| "remove_from_list (cur # rest) t =
     (if cur = t then Some (rest, True)
      else map_option (\<lambda>(rest', _). (cur # rest', False)) (remove_from_list rest t))"

fun add_to_list :: "tstore \<Rightarrow> nat list \<Rightarrow> nat \<Rightarrow> nat list \<times> bool" where
  "add_to_list tm [] t = ([t], True)"
| "add_to_list tm (cur # rest) t =
     (if expires (tm cur) \<le> expires (tm t) then (cur # fst (add_to_list tm rest t), False)
      else (t # cur # rest, True))"

section \<open>The heap invariant\<close>

lemma heap_upd_comm [simp]: "ts\<lparr>heap_size := a, heap := b\<rparr> = ts\<lparr>heap := b, heap_size := a\<rparr>"
  by simp

definition heap_ids :: "timers \<Rightarrow> nat set" where
  "heap_ids ts = heap ts ` {1..heap_size ts}"

definition offsets_ok :: "nat \<Rightarrow> (nat \<Rightarrow> nat) \<Rightarrow> tstore \<Rightarrow> nat set \<Rightarrow> bool" where
  "offsets_ok sz h tm X \<longleftrightarrow> inj_on h {1..sz} \<and> (\<forall>i\<in>{1..sz} - X. heap_offset (tm (h i)) = i)"

definition edge_ok :: "(nat \<Rightarrow> nat) \<Rightarrow> tstore \<Rightarrow> nat \<Rightarrow> nat \<Rightarrow> bool" where
  "edge_ok h tm i j \<longleftrightarrow> expires (tm (h i)) \<le> expires (tm (h j))"

definition heap_inv :: "timers \<Rightarrow> tstore \<Rightarrow> bool" where
  "heap_inv ts tm \<longleftrightarrow> heap_size ts \<le> heap_limit ts \<and> heap_limit ts < 2 ^ 16
     \<and> offsets_ok (heap_size ts) (heap ts) tm {}
     \<and> (\<forall>i\<in>{2..heap_size ts}. edge_ok (heap ts) tm (i div 2) i)"

text \<open>Two stores that differ in the offsets of a set of timers only.\<close>

definition same_but_offsets :: "nat set \<Rightarrow> tstore \<Rightarrow> tstore \<Rightarrow> bool" where
  "same_but_offsets X tm tm' \<longleftrightarrow>
     (\<forall>x. tm' x = (tm x)\<lparr>heap_offset := heap_offset (tm' x)\<rparr>) \<and> (\<forall>x. x \<notin> X \<longrightarrow> tm' x = tm x)"

lemma same_but_offsets_refl [simp]: "same_but_offsets X tm tm"
  by (simp add: same_but_offsets_def)

lemma same_but_offsets_set [simp]: "t \<in> X \<Longrightarrow> same_but_offsets X tm (set_offset t p tm)"
  by (auto simp: same_but_offsets_def set_offset_def)

lemma same_but_offsets_fields:
  assumes "same_but_offsets X tm tm'"
  shows "expires (tm' x) = expires (tm x)" "callback (tm' x) = callback (tm x)"
    "cb_data (tm' x) = cb_data (tm x)" "tcpu (tm' x) = tcpu (tm x)" "status (tm' x) = status (tm x)"
proof -
  have "tm' x = (tm x)\<lparr>heap_offset := heap_offset (tm' x)\<rparr>" using assms by (simp add: same_but_offsets_def)
  then obtain o' where eq: "tm' x = (tm x)\<lparr>heap_offset := o'\<rparr>" ..
  show "expires (tm' x) = expires (tm x)" "callback (tm' x) = callback (tm x)"
    "cb_data (tm' x) = cb_data (tm x)" "tcpu (tm' x) = tcpu (tm x)" "status (tm' x) = status (tm x)"
    by (simp_all add: eq)
qed

lemma same_but_offsets_trans:
  assumes "same_but_offsets X tm tm'" "same_but_offsets X tm' tm''"
  shows "same_but_offsets X tm tm''"
  unfolding same_but_offsets_def
proof (intro conjI allI impI)
  fix x
  have "tm'' x = (tm' x)\<lparr>heap_offset := heap_offset (tm'' x)\<rparr>" "tm' x = (tm x)\<lparr>heap_offset := heap_offset (tm' x)\<rparr>"
    using assms by (simp_all add: same_but_offsets_def)
  then show "tm'' x = (tm x)\<lparr>heap_offset := heap_offset (tm'' x)\<rparr>"
    by (metis timer.update_convs(2) timer.surjective timer.select_convs)
  show "x \<notin> X \<Longrightarrow> tm'' x = tm x" using assms by (simp add: same_but_offsets_def)
qed

lemma edge_ok_same: "same_but_offsets X tm tm' \<Longrightarrow> edge_ok h tm' i j = edge_ok h tm i j"
  by (simp add: edge_ok_def same_but_offsets_fields)

text \<open>Swapping two positions.\<close>

lemma swap_image:
  assumes "p \<in> S" "q \<in> S" "p \<noteq> q"
  shows "(g(p := g q, q := g p)) ` S = g ` S"
proof (intro subset_antisym subsetI)
  fix x assume "x \<in> (g(p := g q, q := g p)) ` S"
  then show "x \<in> g ` S" using assms by auto
next
  fix x assume "x \<in> g ` S"
  then obtain i where i: "i \<in> S" "x = g i" by auto
  then have "x = (g(p := g q, q := g p)) (if i = p then q else if i = q then p else i)"
    using assms by auto
  moreover have "(if i = p then q else if i = q then p else i) \<in> S" using i assms by simp
  ultimately show "x \<in> (g(p := g q, q := g p)) ` S" by (rule image_eqI)
qed

lemma swap_inj:
  assumes "p \<in> S" "q \<in> S" "inj_on g S"
  shows "inj_on (g(p := g q, q := g p)) S"
  using assms by (auto simp: inj_on_def)

section \<open>Sinking\<close>

text \<open>
  The loops keep a hole at \<open>pos\<close>, into which \<open>t\<close> is written at the end. A loop
  state is described by the array with the hole filled.
\<close>

definition down_pre :: "nat \<Rightarrow> (nat \<Rightarrow> nat) \<Rightarrow> tstore \<Rightarrow> nat \<Rightarrow> bool" where
  "down_pre sz g tm pos \<longleftrightarrow> pos \<in> {1..sz} \<and> offsets_ok sz g tm {pos}
     \<and> (\<forall>i\<in>{2..sz}. i div 2 \<noteq> pos \<longrightarrow> edge_ok g tm (i div 2) i)
     \<and> (\<forall>i\<in>{2..sz}. i div 2 = pos \<longrightarrow> 2 \<le> pos \<longrightarrow> edge_ok g tm (pos div 2) i)"

definition loop_post :: "nat \<Rightarrow> (nat \<Rightarrow> nat) \<Rightarrow> tstore \<Rightarrow> (nat \<Rightarrow> nat) \<Rightarrow> tstore \<Rightarrow> nat \<Rightarrow> bool" where
  "loop_post sz g tm g' tm' pos \<longleftrightarrow> pos \<in> {1..sz} \<and> offsets_ok sz g' tm' {pos}
     \<and> (\<forall>i\<in>{2..sz}. edge_ok g' tm' (i div 2) i) \<and> g' ` {1..sz} = g ` {1..sz}
     \<and> (\<forall>i. i \<notin> {1..sz} \<longrightarrow> g' i = g i) \<and> same_but_offsets (g ` {1..sz}) tm tm'"

lemma loop_post_trans:
  assumes "loop_post sz g1 tm1 g' tm' pos" "g1 ` {1..sz} = g ` {1..sz}"
    "\<forall>i. i \<notin> {1..sz} \<longrightarrow> g1 i = g i" "same_but_offsets (g ` {1..sz}) tm tm1"
  shows "loop_post sz g tm g' tm' pos"
  using assms same_but_offsets_trans [of "g ` {1..sz}" tm tm1 tm'] unfolding loop_post_def by metis

lemma offsets_ok_swap:
  assumes "offsets_ok sz g tm {p}" "p \<in> {1..sz}" "q \<in> {1..sz}" "p \<noteq> q"
  shows "offsets_ok sz (g(p := g q, q := g p)) (set_offset (g q) p tm) {q}"
proof -
  have inj: "inj_on g {1..sz}" and off: "\<And>i. i \<in> {1..sz} \<Longrightarrow> i \<noteq> p \<Longrightarrow> heap_offset (tm (g i)) = i"
    using assms(1) by (auto simp: offsets_ok_def)
  have "heap_offset (set_offset (g q) p tm ((g(p := g q, q := g p)) i)) = i" if "i \<in> {1..sz} - {q}" for i
  proof (cases "i = p")
    case False
    then have "g i \<noteq> g q" using that inj assms(3) by (auto dest: inj_onD)
    then show ?thesis using off that False by (auto simp: set_offset_def)
  qed (simp add: set_offset_def assms(4))
  then show ?thesis using swap_inj [OF assms(2,3) inj] unfolding offsets_ok_def by blast
qed

lemma edge_set_offset [simp]: "edge_ok g (set_offset x p tm) i j = edge_ok g tm i j"
  by (simp add: edge_ok_def set_offset_def)

lemma down_pre_step:
  assumes "down_pre sz g tm pos" "pos * 2 \<le> sz"
    and nxt: "nxt = (if pos * 2 + 1 \<le> sz \<and> expires (tm (g (pos * 2 + 1))) < expires (tm (g (pos * 2)))
                then pos * 2 + 1 else pos * 2)"
    and "expires (tm (g nxt)) \<le> expires (tm (g pos))"
  shows "down_pre sz (g(pos := g nxt, nxt := g pos)) (set_offset (g nxt) pos tm) nxt"
proof -
  have pos: "pos \<in> {1..sz}" and nx: "nxt \<in> {1..sz}" "nxt div 2 = pos" "pos < nxt" "2 \<le> nxt"
    using assms(1-3) by (auto simp: down_pre_def)
  have min: "edge_ok g tm nxt i" if "i \<in> {2..sz}" "i div 2 = pos" for i
  proof -
    have "i = pos * 2 \<or> i = pos * 2 + 1" using that(2) by auto
    then show ?thesis using that(1) unfolding nxt edge_ok_def by (auto split: if_splits)
  qed
  have down: "edge_ok g tm (i div 2) i" if "i \<in> {2..sz}" "i div 2 \<noteq> pos" for i
    using assms(1) that by (simp add: down_pre_def)
  have gp: "edge_ok g tm (pos div 2) i" if "i \<in> {2..sz}" "i div 2 = pos" "2 \<le> pos" for i
    using assms(1) that by (simp add: down_pre_def)
  let ?g = "g(pos := g nxt, nxt := g pos)"
  have 1: "edge_ok ?g tm (i div 2) i" if i: "i \<in> {2..sz}" "i div 2 \<noteq> nxt" for i
  proof (cases "i = nxt")
    case True
    then show ?thesis using nx assms(4) by (auto simp: edge_ok_def)
  next
    case False
    then show ?thesis
      using i min [of i] down [of i] gp [of nxt] nx pos by (cases "i div 2 = pos"; cases "i = pos") (auto simp: edge_ok_def)
  qed
  have 2: "edge_ok ?g tm (nxt div 2) i" if "i \<in> {2..sz}" "i div 2 = nxt" for i
    using down [of i] that nx by (auto simp: edge_ok_def)
  show ?thesis
    unfolding down_pre_def edge_set_offset
    using 1 2 nx(1) offsets_ok_swap [of sz g tm pos nxt] assms(1) pos nx(3) by (auto simp: down_pre_def)
qed

lemma down_stop:
  assumes "down_pre sz g tm pos" "\<And>i. i \<in> {2..sz} \<Longrightarrow> i div 2 = pos \<Longrightarrow> edge_ok g tm pos i"
  shows "loop_post sz g tm g tm pos"
  using assms by (auto simp: down_pre_def loop_post_def)

lemma down_loop_correct:
  assumes "down_pre sz (h(pos := t)) tm pos"
  shows "\<exists>h' tm' pos'. down_loop sz t h tm pos = Some (h', tm', pos')
    \<and> loop_post sz (h(pos := t)) tm (h'(pos' := t)) tm' pos'"
  using assms
proof (induction sz t h tm pos rule: down_loop.induct)
  case (1 sz t h tm pos)
  let ?g = "h(pos := t)"
  define nxt where "nxt = (if pos * 2 + 1 \<le> sz \<and> expires (tm (h (pos * 2 + 1))) < expires (tm (h (pos * 2)))
                then pos * 2 + 1 else pos * 2)"
  have pos: "pos \<in> {1..sz}" using 1(2) by (simp add: down_pre_def)
  have stop: "loop_post sz ?g tm ?g tm pos"
    if "\<And>i. i \<in> {2..sz} \<Longrightarrow> i div 2 = pos \<Longrightarrow> edge_ok ?g tm pos i"
    using down_stop [OF 1(2)] that by blast
  show ?case
  proof (cases "pos * 2 \<le> sz")
    case False
    then have "down_loop sz t h tm pos = Some (h, tm, pos)" using pos by (simp add: down_loop.simps)
    moreover have "loop_post sz ?g tm ?g tm pos" using False by (intro stop) auto
    ultimately show ?thesis by blast
  next
    case le: True
    have nx: "nxt \<in> {1..sz}" "nxt \<noteq> pos" using le pos by (auto simp: nxt_def)
    show ?thesis
    proof (cases "expires (tm (h nxt)) > expires (tm t)")
      case True
      then have "down_loop sz t h tm pos = Some (h, tm, pos)"
        using pos le by (simp add: down_loop.simps nxt_def Let_def)
      moreover have "loop_post sz ?g tm ?g tm pos"
      proof (rule stop)
        fix i assume "i \<in> {2..sz}" "i div 2 = pos"
        then have "i = pos * 2 \<or> i = pos * 2 + 1" "i \<noteq> pos" by auto
        then show "edge_ok ?g tm pos i"
          using True \<open>i \<in> {2..sz}\<close> by (auto simp: edge_ok_def nxt_def split: if_splits)
      qed
      ultimately show ?thesis by blast
    next
      case False
      have eq: "down_loop sz t h tm pos = down_loop sz t (h(pos := h nxt)) (set_offset (h nxt) pos tm) nxt"
        using pos le False by (subst down_loop.simps) (simp add: nxt_def Let_def)
      have g: "(h(pos := h nxt))(nxt := t) = ?g(pos := ?g nxt, nxt := ?g pos)" using nx(2) by (auto simp: fun_eq_iff)
      have "down_pre sz (?g(pos := ?g nxt, nxt := ?g pos)) (set_offset (?g nxt) pos tm) nxt"
      proof (rule down_pre_step [OF 1(2) le])
        show "nxt = (if pos * 2 + 1 \<le> sz \<and> expires (tm (?g (pos * 2 + 1))) < expires (tm (?g (pos * 2)))
                then pos * 2 + 1 else pos * 2)" using pos by (simp add: nxt_def)
        show "expires (tm (?g nxt)) \<le> expires (tm (?g pos))" using False nx(2) by simp
      qed
      then have "down_pre sz ((h(pos := h nxt))(nxt := t)) (set_offset (h nxt) pos tm) nxt"
        unfolding g using nx(2) by simp
      then obtain h' tm' pos' where *: "down_loop sz t (h(pos := h nxt)) (set_offset (h nxt) pos tm) nxt = Some (h', tm', pos')"
        "loop_post sz ((h(pos := h nxt))(nxt := t)) (set_offset (h nxt) pos tm) (h'(pos' := t)) tm' pos'"
        using 1(1) [OF _ le nxt_def False] pos by fastforce
      have "loop_post sz ?g tm (h'(pos' := t)) tm' pos'"
      proof (rule loop_post_trans [OF *(2)])
        show "((h(pos := h nxt))(nxt := t)) ` {1..sz} = ?g ` {1..sz}"
          unfolding g using swap_image [of pos "{1..sz}" nxt ?g] pos nx by simp
        have "h nxt \<in> ?g ` {1..sz}" using nx by (metis fun_upd_apply image_eqI)
        then show "same_but_offsets (?g ` {1..sz}) tm (set_offset (h nxt) pos tm)" by simp
      qed (use pos nx in auto)
      then show ?thesis unfolding eq *(1) by blast
    qed
  qed
qed

section \<open>Floating\<close>

definition up_pre :: "nat \<Rightarrow> (nat \<Rightarrow> nat) \<Rightarrow> tstore \<Rightarrow> nat \<Rightarrow> bool" where
  "up_pre sz g tm pos \<longleftrightarrow> pos \<in> {1..sz} \<and> offsets_ok sz g tm {pos}
     \<and> (\<forall>i\<in>{2..sz}. i \<noteq> pos \<longrightarrow> edge_ok g tm (i div 2) i)
     \<and> (\<forall>i\<in>{2..sz}. i div 2 = pos \<longrightarrow> 2 \<le> pos \<longrightarrow> edge_ok g tm (pos div 2) i)"

lemma up_pre_step:
  assumes "up_pre sz g tm pos" "1 < pos" "expires (tm (g pos)) < expires (tm (g (pos div 2)))"
  shows "up_pre sz (g(pos := g (pos div 2), pos div 2 := g pos)) (set_offset (g (pos div 2)) pos tm) (pos div 2)"
proof -
  define par where "par = pos div 2"
  have pos: "pos \<in> {2..sz}" and par: "par \<in> {1..sz}" "par < pos" "par \<noteq> pos"
    using assms(1,2) by (auto simp: up_pre_def par_def)
  have up: "edge_ok g tm (i div 2) i" if "i \<in> {2..sz}" "i \<noteq> pos" for i
    using assms(1) that by (simp add: up_pre_def)
  have gp: "edge_ok g tm par i" if "i \<in> {2..sz}" "i div 2 = pos" for i
    using assms(1) that pos by (simp add: up_pre_def par_def)
  let ?g = "g(pos := g par, par := g pos)"
  have lt: "expires (tm (g pos)) < expires (tm (g par))" using assms(3) by (simp add: par_def)
  have 1: "edge_ok ?g tm (i div 2) i" if i: "i \<in> {2..sz}" "i \<noteq> par" for i
  proof (cases "i = pos")
    case True
    then show ?thesis using par lt by (simp add: edge_ok_def par_def [symmetric])
  next
    case False
    then show ?thesis
      using i up [of i] gp [of i] lt par by (cases "i div 2 = pos"; cases "i div 2 = par") (auto simp: edge_ok_def)
  qed
  have 2: "edge_ok ?g tm (par div 2) i" if i: "i \<in> {2..sz}" "i div 2 = par" "2 \<le> par" for i
  proof -
    have a: "edge_ok g tm (par div 2) par" using up [of par] par i(3) by auto
    have "par div 2 < par" using i(3) by auto
    then show ?thesis using a up [of i] i par by (cases "i = pos") (auto simp: edge_ok_def)
  qed
  have "offsets_ok sz ?g (set_offset (g par) pos tm) {par}"
    using offsets_ok_swap [of sz g tm pos par] assms(1) par by (auto simp: up_pre_def)
  then show ?thesis
    unfolding up_pre_def edge_set_offset par_def [symmetric] using 1 2 par(1) by blast
qed

lemma up_stop:
  assumes "up_pre sz g tm pos" "\<not> (1 < pos \<and> expires (tm (g pos)) < expires (tm (g (pos div 2))))"
  shows "loop_post sz g tm g tm pos"
  using assms by (auto simp: up_pre_def loop_post_def edge_ok_def)

lemma up_loop_correct:
  assumes "up_pre sz (h(pos := t)) tm pos"
  shows "\<exists>h' tm' pos'. up_loop t h tm pos = (h', tm', pos')
    \<and> loop_post sz (h(pos := t)) tm (h'(pos' := t)) tm' pos'"
  using assms
proof (induction t h tm pos rule: up_loop.induct)
  case (1 t h tm pos)
  let ?g = "h(pos := t)" and ?par = "pos div 2"
  show ?case
  proof (cases "1 < pos \<and> expires (tm t) < expires (tm (h ?par))")
    case False
    then have "loop_post sz ?g tm ?g tm pos" by (intro up_stop [OF 1(2)]) auto
    moreover have "up_loop t h tm pos = (h, tm, pos)" using False by (subst up_loop.simps) auto
    ultimately show ?thesis by blast
  next
    case True
    have pos: "pos \<in> {1..sz}" "?par \<in> {1..sz}" "?par \<noteq> pos" using 1(2) True by (auto simp: up_pre_def)
    have eq: "up_loop t h tm pos = up_loop t (h(pos := h ?par)) (set_offset (h ?par) pos tm) ?par"
      using True by (subst up_loop.simps) simp
    have g: "(h(pos := h ?par))(?par := t) = ?g(pos := ?g ?par, ?par := ?g pos)" using pos by (auto simp: fun_eq_iff)
    have "up_pre sz (?g(pos := ?g ?par, ?par := ?g pos)) (set_offset (?g ?par) pos tm) ?par"
      using True pos by (intro up_pre_step [OF 1(2)]) simp_all
    then have "up_pre sz ((h(pos := h ?par))(?par := t)) (set_offset (h ?par) pos tm) ?par"
      unfolding g using pos by simp
    then obtain h' tm' pos' where *: "up_loop t (h(pos := h ?par)) (set_offset (h ?par) pos tm) ?par = (h', tm', pos')"
      "loop_post sz ((h(pos := h ?par))(?par := t)) (set_offset (h ?par) pos tm) (h'(pos' := t)) tm' pos'"
      using 1(1) [OF True] by blast
    have "loop_post sz ?g tm (h'(pos' := t)) tm' pos'"
    proof (rule loop_post_trans [OF *(2)])
      show "((h(pos := h ?par))(?par := t)) ` {1..sz} = ?g ` {1..sz}"
        unfolding g using swap_image [of pos "{1..sz}" ?par ?g] pos by simp
      have "h ?par \<in> ?g ` {1..sz}" using pos by (metis fun_upd_apply image_eqI)
      then show "same_but_offsets (?g ` {1..sz}) tm (set_offset (h ?par) pos tm)" by simp
    qed (use pos in auto)
    then show ?thesis unfolding eq *(1) by blast
  qed
qed

text \<open>Writing the element into the hole completes the heap.\<close>

lemma loop_post_close:
  assumes "loop_post (heap_size ts) (heap ts) tm (h(pos := t)) tm' pos"
    and "heap_size ts \<le> heap_limit ts" "heap_limit ts < 2 ^ 16"
  defines "ts' \<equiv> ts\<lparr>heap := h(pos := t)\<rparr>" and "tm'' \<equiv> set_offset t pos tm'"
  shows "heap_inv ts' tm'' \<and> heap_ids ts' = heap_ids ts \<and> same_but_offsets (heap_ids ts) tm tm''
    \<and> (\<forall>i. i \<notin> {1..heap_size ts} \<longrightarrow> heap ts' i = heap ts i)"
proof -
  let ?sz = "heap_size ts" and ?g = "h(pos := t)"
  have pos: "pos \<in> {1..?sz}" and off: "offsets_ok ?sz ?g tm' {pos}" and im: "?g ` {1..?sz} = heap ts ` {1..?sz}"
    and same: "same_but_offsets (heap ts ` {1..?sz}) tm tm'"
    and edges: "\<forall>i\<in>{2..?sz}. edge_ok ?g tm' (i div 2) i"
    using assms(1) by (auto simp: loop_post_def)
  have "heap_offset (tm'' (?g i)) = i" if "i \<in> {1..?sz}" for i
  proof (cases "i = pos")
    case False
    then have "?g i \<noteq> ?g pos" using off that pos by (meson inj_onD offsets_ok_def)
    then show ?thesis using off that False by (simp add: offsets_ok_def tm''_def set_offset_def)
  qed (simp add: tm''_def set_offset_def)
  then have "offsets_ok ?sz ?g tm'' {}" using off by (simp add: offsets_ok_def)
  moreover have "t \<in> heap ts ` {1..?sz}" using im pos by (metis fun_upd_same image_eqI)
  then have "same_but_offsets (heap ts ` {1..?sz}) tm tm''"
    using same_but_offsets_trans [OF same] by (simp add: tm''_def)
  ultimately show ?thesis
    using assms(1-3) edges im
    by (auto simp: heap_inv_def heap_ids_def ts'_def loop_post_def tm''_def simp del: fun_upd_apply)
qed

lemma up_heap_correct:
  assumes "up_pre (heap_size ts) (heap ts) tm pos" "heap_size ts \<le> heap_limit ts" "heap_limit ts < 2 ^ 16"
  shows "\<exists>ts' tm'. up_heap ts tm pos = (ts', tm') \<and> heap_inv ts' tm' \<and> heap_ids ts' = heap_ids ts
    \<and> same_but_offsets (heap_ids ts) tm tm' \<and> ts' = ts\<lparr>heap := heap ts'\<rparr>"
proof -
  have "up_pre (heap_size ts) ((heap ts)(pos := heap ts pos)) tm pos" using assms(1) by simp
  from up_loop_correct [OF this] obtain h' tm' pos' where
    *: "up_loop (heap ts pos) (heap ts) tm pos = (h', tm', pos')"
      "loop_post (heap_size ts) (heap ts) tm (h'(pos' := heap ts pos)) tm' pos'" by auto
  then show ?thesis using loop_post_close [OF *(2) assms(2,3)] by (simp add: up_heap_def Let_def)
qed

lemma down_heap_correct:
  assumes "down_pre (heap_size ts) (heap ts) tm pos" "heap_size ts \<le> heap_limit ts" "heap_limit ts < 2 ^ 16"
  shows "\<exists>ts' tm'. down_heap ts tm pos = Some (ts', tm') \<and> heap_inv ts' tm' \<and> heap_ids ts' = heap_ids ts
    \<and> same_but_offsets (heap_ids ts) tm tm' \<and> ts' = ts\<lparr>heap := heap ts'\<rparr>"
proof -
  have "down_pre (heap_size ts) ((heap ts)(pos := heap ts pos)) tm pos" using assms(1) by simp
  from down_loop_correct [OF this] obtain h' tm' pos' where
    *: "down_loop (heap_size ts) (heap ts pos) (heap ts) tm pos = Some (h', tm', pos')"
      "loop_post (heap_size ts) (heap ts) tm (h'(pos' := heap ts pos)) tm' pos'" by auto
  then show ?thesis using loop_post_close [OF *(2) assms(2,3)] by (simp add: down_heap_def Let_def)
qed

section \<open>Adding and removing\<close>

lemma heap_offset_id:
  assumes "heap_inv ts tm" "t \<in> heap_ids ts"
  shows "heap_offset (tm t) \<in> {1..heap_size ts}" "heap ts (heap_offset (tm t)) = t"
  using assms by (auto simp: heap_inv_def heap_ids_def offsets_ok_def)

lemma offset_top:
  assumes "heap_inv ts tm" "t \<in> heap_ids ts"
  shows "heap_offset (tm t) = 1 \<longleftrightarrow> heap ts 1 = t"
proof
  show "heap_offset (tm t) = 1 \<Longrightarrow> heap ts 1 = t" using heap_offset_id(2) [OF assms] by simp
  assume "heap ts 1 = t"
  moreover have "1 \<in> {1..heap_size ts}" using heap_offset_id(1) [OF assms] by auto
  ultimately show "heap_offset (tm t) = 1"
    using assms(1) by (auto simp: heap_inv_def offsets_ok_def simp del: One_nat_def)
qed

lemma heap_top_min:
  assumes "heap_inv ts tm" "x \<in> heap_ids ts"
  shows "expires (tm (heap ts 1)) \<le> expires (tm x)"
proof -
  have "edge_ok (heap ts) tm 1 i" if "i \<in> {1..heap_size ts}" for i
    using that
  proof (induction i rule: less_induct)
    case (less i)
    show ?case
    proof (cases "i = 1")
      case False
      then have "edge_ok (heap ts) tm 1 (i div 2)" "edge_ok (heap ts) tm (i div 2) i"
        using less assms(1) by (auto simp: heap_inv_def)
      then show ?thesis by (simp add: edge_ok_def)
    qed (simp add: edge_ok_def)
  qed
  then show ?thesis using assms(2) by (auto simp: heap_ids_def edge_ok_def)
qed

definition heap_frame :: "timers \<Rightarrow> timers \<Rightarrow> bool" where
  "heap_frame ts ts' \<longleftrightarrow> ts' = ts\<lparr>heap := heap ts', heap_size := heap_size ts'\<rparr>"

lemma add_to_heap_full: "heap_size ts = heap_limit ts \<Longrightarrow> add_to_heap ts tm t = (ts, tm, False)"
  by (simp add: add_to_heap_def)

lemma add_to_heap_correct:
  assumes inv: "heap_inv ts tm" and t: "t \<notin> heap_ids ts" and sz: "heap_size ts \<noteq> heap_limit ts"
  shows "\<exists>ts' tm'. add_to_heap ts tm t = (ts', tm', heap ts' 1 = t) \<and> heap_inv ts' tm'
    \<and> heap_ids ts' = insert t (heap_ids ts) \<and> same_but_offsets (insert t (heap_ids ts)) tm tm'
    \<and> heap_frame ts ts' \<and> heap_size ts' = Suc (heap_size ts)"
proof -
  let ?n = "Suc (heap_size ts)" and ?tm = "set_offset t (Suc (heap_size ts)) tm"
  define ts1 where "ts1 = ts\<lparr>heap := (heap ts)(?n := t), heap_size := ?n\<rparr>"
  have lim: "?n \<le> heap_limit ts" "heap_limit ts < 2 ^ 16" using inv sz by (auto simp: heap_inv_def)
  have ids: "heap_ids ts1 = insert t (heap_ids ts)"
    by (auto simp: heap_ids_def ts1_def atLeastAtMostSuc_conv)
  have old: "inj_on (heap ts) {1..heap_size ts}" "\<And>i. i \<in> {1..heap_size ts} \<Longrightarrow> heap_offset (tm (heap ts i)) = i"
    using inv by (auto simp: heap_inv_def offsets_ok_def)
  have "inj_on ((heap ts)(?n := t)) {1..heap_size ts}"
    using old(1) t by (intro inj_on_fun_updI) (simp_all add: heap_ids_def)
  moreover have "t \<notin> ((heap ts)(?n := t)) ` {1..heap_size ts}" using t by (auto simp: heap_ids_def)
  ultimately have inj: "inj_on (heap ts1) {1..?n}" by (simp add: ts1_def atLeastAtMostSuc_conv)
  have "heap_offset (?tm (heap ts1 i)) = i" if "i \<in> {1..?n} - {?n}" for i
  proof -
    have i: "i \<in> {1..heap_size ts}" using that by auto
    then have "heap ts i \<noteq> t" using t by (auto simp: heap_ids_def)
    then show ?thesis using old(2) [OF i] i by (simp add: ts1_def set_offset_def)
  qed
  then have off: "offsets_ok ?n (heap ts1) ?tm {?n}" using inj by (simp add: offsets_ok_def)
  have "up_pre ?n (heap ts1) ?tm ?n"
    unfolding up_pre_def edge_set_offset
    using off inv by (auto simp: heap_inv_def edge_ok_def ts1_def)
  then obtain ts' tm' where u: "up_heap ts1 ?tm ?n = (ts', tm')" "heap_inv ts' tm'" "heap_ids ts' = heap_ids ts1"
    "same_but_offsets (heap_ids ts1) ?tm tm'" "ts' = ts1\<lparr>heap := heap ts'\<rparr>"
    using up_heap_correct [of ts1 ?tm ?n] lim by (auto simp: ts1_def)
  have "add_to_heap ts tm t = (ts', tm', heap_offset (tm' t) = 1)"
    using u(1) sz lim by (simp add: add_to_heap_def Let_def SET_HEAP_SIZE_def ts1_def)
  moreover have "same_but_offsets (insert t (heap_ids ts)) tm tm'"
    using same_but_offsets_trans [OF _ u(4), of tm] by (simp add: ids)
  moreover have "ts' = ts\<lparr>heap := heap ts', heap_size := ?n\<rparr>" using u(5) by (simp add: ts1_def)
  then have "heap_frame ts ts'" "heap_size ts' = ?n"
    unfolding heap_frame_def by (metis timers.select_convs(2) timers.surjective timers.update_convs(1,2))+
  ultimately show ?thesis using u(2,3) ids offset_top [OF u(2)] by auto
qed

lemma remove_last:
  assumes inv: "heap_inv ts tm" and t: "t \<in> heap_ids ts" "heap_offset (tm t) = heap_size ts"
  defines "ts' \<equiv> ts\<lparr>heap_size := heap_size ts - 1\<rparr>"
  shows "heap_inv ts' tm \<and> heap_ids ts' = heap_ids ts - {t}"
proof -
  obtain n where n: "heap_size ts = Suc n" using heap_offset_id(1) [OF inv t(1)] t(2) by (cases "heap_size ts") auto
  have ht: "heap ts (Suc n) = t" using heap_offset_id(2) [OF inv t(1)] t(2) n by simp
  have inj: "inj_on (heap ts) {1..Suc n}" using inv n by (simp add: heap_inv_def offsets_ok_def)
  then have "t \<notin> heap ts ` {1..n}" using ht by (fastforce dest: inj_onD)
  then have "heap_ids ts' = heap_ids ts - {t}"
    using n ht by (auto simp: heap_ids_def ts'_def atLeastAtMostSuc_conv)
  moreover have "inj_on (heap ts) {1..n}" using inj by (rule inj_on_subset) auto
  ultimately show ?thesis using inv n by (auto simp: heap_inv_def ts'_def offsets_ok_def edge_ok_def)
qed

text \<open>
  A timer that is not in the last slot is overwritten with the timer of the last slot, which
  then floats or sinks.
\<close>

lemma remove_move:
  assumes inv: "heap_inv ts tm" and t: "t \<in> heap_ids ts" "heap_offset (tm t) \<noteq> heap_size ts"
  defines "pos \<equiv> heap_offset (tm t)" and "n \<equiv> heap_size ts - 1"
  defines "g \<equiv> (heap ts)(pos := heap ts (heap_size ts))"
  defines "tm1 \<equiv> set_offset (g pos) pos tm"
  shows "g ` {1..n} = heap_ids ts - {t}" "offsets_ok n g tm1 {}" "pos \<in> {1..n}"
    "\<forall>i\<in>{2..n}. i \<noteq> pos \<longrightarrow> i div 2 \<noteq> pos \<longrightarrow> edge_ok g tm1 (i div 2) i"
    "\<forall>i\<in>{2..n}. i div 2 = pos \<longrightarrow> edge_ok (heap ts) tm1 pos i \<and> (2 \<le> pos \<longrightarrow> edge_ok g tm1 (pos div 2) i)"
proof -
  have n: "heap_size ts = Suc n" and pos: "pos \<in> {1..n}" and hp: "heap ts pos = t"
    using heap_offset_id [OF inv t(1)] t(2) by (auto simp: n_def pos_def)
  have inj: "inj_on (heap ts) {1..Suc n}"
    and off: "\<And>i. i \<in> {1..Suc n} \<Longrightarrow> heap_offset (tm (heap ts i)) = i"
    and edge: "\<And>i. i \<in> {2..Suc n} \<Longrightarrow> edge_ok (heap ts) tm (i div 2) i"
    using inv n by (auto simp: heap_inv_def offsets_ok_def)
  have ne: "heap ts i = heap ts j \<longleftrightarrow> i = j" if "i \<in> {1..Suc n}" "j \<in> {1..Suc n}" for i j
    using inj_on_eq_iff [OF inj that] .
  show "pos \<in> {1..n}" by (fact pos)
  have g: "g = (heap ts)(pos := heap ts (Suc n))" by (simp add: g_def n)
  have "g ` {1..n} = heap ts ` ({1..Suc n} - {pos})"
  proof (intro subset_antisym subsetI)
    fix x assume "x \<in> g ` {1..n}"
    then show "x \<in> heap ts ` ({1..Suc n} - {pos})" using pos by (auto simp: g split: if_splits)
  next
    fix x assume "x \<in> heap ts ` ({1..Suc n} - {pos})"
    then obtain i where "i \<in> {1..Suc n}" "i \<noteq> pos" "x = heap ts i" by blast
    then have "x = g (if i = Suc n then pos else i)" "(if i = Suc n then pos else i) \<in> {1..n}" using pos by (auto simp: g)
    then show "x \<in> g ` {1..n}" by blast
  qed
  also have "\<dots> = heap_ids ts - {t}"
    using inj_on_image_set_diff [OF inj, of "{1..Suc n}" "{pos}"] pos hp by (auto simp: heap_ids_def n)
  finally show "g ` {1..n} = heap_ids ts - {t}" .
  have "inj_on g {1..n}"
    using ne pos by (auto simp: g inj_on_def)
  moreover have "heap_offset (tm1 (g i)) = i" if "i \<in> {1..n}" for i
    using that off [of i] ne [of i "Suc n"] pos by (auto simp: tm1_def g set_offset_def)
  ultimately show "offsets_ok n g tm1 {}" by (simp add: offsets_ok_def)
  show "\<forall>i\<in>{2..n}. i \<noteq> pos \<longrightarrow> i div 2 \<noteq> pos \<longrightarrow> edge_ok g tm1 (i div 2) i"
    unfolding tm1_def edge_set_offset using edge by (auto simp: edge_ok_def g)
  show "\<forall>i\<in>{2..n}. i div 2 = pos \<longrightarrow> edge_ok (heap ts) tm1 pos i \<and> (2 \<le> pos \<longrightarrow> edge_ok g tm1 (pos div 2) i)"
  proof (intro ballI impI)
    fix i assume i: "i \<in> {2..n}" "i div 2 = pos"
    have 1: "edge_ok (heap ts) tm pos i" using edge [of i] i by auto
    have 2: "edge_ok (heap ts) tm (pos div 2) pos" if "2 \<le> pos" using edge [of pos] pos that by auto
    have "i \<noteq> pos" "2 \<le> pos \<Longrightarrow> pos div 2 \<noteq> pos" using i pos by auto
    then show "edge_ok (heap ts) tm1 pos i \<and> (2 \<le> pos \<longrightarrow> edge_ok g tm1 (pos div 2) i)"
      unfolding tm1_def edge_set_offset using 1 2 by (auto simp: edge_ok_def g)
  qed
qed

lemma remove_from_heap_correct:
  assumes inv: "heap_inv ts tm" and t: "t \<in> heap_ids ts"
  shows "\<exists>ts' tm'. remove_from_heap ts tm t = Some (ts', tm', heap ts 1 = t) \<and> heap_inv ts' tm'
    \<and> heap_ids ts' = heap_ids ts - {t} \<and> same_but_offsets (heap_ids ts - {t}) tm tm'
    \<and> heap_frame ts ts' \<and> Suc (heap_size ts') = heap_size ts"
proof (cases "heap_offset (tm t) = heap_size ts")
  case True
  have "0 < heap_size ts" "heap_size ts < 2 ^ 16" using heap_offset_id(1) [OF inv t] inv by (auto simp: heap_inv_def)
  then show ?thesis
    using remove_last [OF inv t True] offset_top [OF inv t] True
    by (auto simp: remove_from_heap_def Let_def SET_HEAP_SIZE_def heap_frame_def)
next
  case False
  let ?pos = "heap_offset (tm t)" and ?n = "heap_size ts - 1"
  let ?g = "(heap ts)(?pos := heap ts (heap_size ts))"
  let ?tm = "set_offset (?g ?pos) ?pos tm"
  define ts1 where "ts1 = ts\<lparr>heap := ?g, heap_size := ?n\<rparr>"
  note mv = remove_move [OF inv t False]
  have lim: "heap_size ts1 \<le> heap_limit ts1" "heap_limit ts1 < 2 ^ 16" "heap_size ts < 2 ^ 16" "0 < heap_size ts"
    using inv heap_offset_id(1) [OF inv t] by (auto simp: heap_inv_def ts1_def)
  have ids: "heap_ids ts1 = heap_ids ts - {t}" using mv(1) by (simp add: heap_ids_def ts1_def del: fun_upd_apply)
  have off: "offsets_ok (heap_size ts1) (heap ts1) ?tm {?pos}"
    using mv(2) by (simp add: offsets_ok_def ts1_def del: fun_upd_apply)
  let ?up = "?pos > 1 \<and> expires (?tm (heap ts1 ?pos)) < expires (?tm (heap ts1 (?pos div 2)))"
  have up: "up_pre (heap_size ts1) (heap ts1) ?tm ?pos" if up: ?up
  proof -
    have "edge_ok (heap ts1) ?tm (i div 2) i" if i: "i \<in> {2..?n}" "i div 2 = ?pos" for i
    proof -
      have "edge_ok (heap ts1) ?tm (?pos div 2) i" using mv(5) i up by (simp add: ts1_def del: fun_upd_apply)
      then show ?thesis using up i(2) by (auto simp: edge_ok_def)
    qed
    then show ?thesis using mv off unfolding up_pre_def by (auto simp: ts1_def simp del: fun_upd_apply)
  qed
  have down: "down_pre (heap_size ts1) (heap ts1) ?tm ?pos" if nup: "\<not> ?up"
  proof -
    have "edge_ok (heap ts1) ?tm (?pos div 2) ?pos" if "2 \<le> ?pos" using nup that by (auto simp: edge_ok_def)
    then show ?thesis using mv off unfolding down_pre_def by (auto simp: ts1_def simp del: fun_upd_apply)
  qed
  obtain ts' tm' where *: "heap_fix ts1 ?tm ?pos = Some (ts', tm')"
    "heap_inv ts' tm'" "heap_ids ts' = heap_ids ts1" "same_but_offsets (heap_ids ts1) ?tm tm'" "ts' = ts1\<lparr>heap := heap ts'\<rparr>"
  proof (cases ?up)
    case True
    then show ?thesis using up_heap_correct [OF up lim(1,2)] that unfolding heap_fix_def by auto
  next
    case False
    then show ?thesis using down_heap_correct [OF down lim(1,2)] that unfolding heap_fix_def by auto
  qed
  have "SET_HEAP_SIZE (heap_size ts - 1) (ts\<lparr>heap := ?g\<rparr>) = ts1" using lim(3) by (simp add: SET_HEAP_SIZE_def ts1_def)
  then have "remove_from_heap ts tm t = Some (ts', tm', ?pos = 1)"
    using *(1) False unfolding remove_from_heap_def Let_def by simp
  moreover have "?g ?pos \<in> heap_ids ts - {t}" using mv(1,3) by blast
  then have "same_but_offsets (heap_ids ts - {t}) tm tm'"
    using same_but_offsets_trans [OF _ *(4), of tm] ids by simp
  moreover have fr: "ts' = ts\<lparr>heap := heap ts', heap_size := ?n\<rparr>" using *(5) by (simp add: ts1_def)
  then have "heap_size ts' = ?n" by (metis timers.select_convs(2) timers.surjective timers.update_convs(1,2))
  ultimately show ?thesis
    using *(2,3) ids fr lim(4) offset_top [OF inv t] by (auto simp: heap_frame_def)
qed

section \<open>The overflow list\<close>

definition sorted_list :: "tstore \<Rightarrow> nat list \<Rightarrow> bool" where
  "sorted_list tm l \<longleftrightarrow> sorted (map (\<lambda>t. expires (tm t)) l)"

lemma sorted_list_Cons [simp]:
  "sorted_list tm (t # l) \<longleftrightarrow> (\<forall>x\<in>set l. expires (tm t) \<le> expires (tm x)) \<and> sorted_list tm l"
  by (auto simp: sorted_list_def)

lemma sorted_list_Nil [simp]: "sorted_list tm []"
  by (simp add: sorted_list_def)

lemma remove_from_list_correct:
  "t \<in> set l \<Longrightarrow> remove_from_list l t = Some (remove1 t l, hd l = t)"
  by (induction l) auto

lemma sorted_list_remove1: "sorted_list tm l \<Longrightarrow> sorted_list tm (remove1 t l)"
  unfolding sorted_list_def by (metis sorted_map_remove1)

lemma add_to_list_set [simp]: "set (fst (add_to_list tm l t)) = insert t (set l)"
  by (induction l) auto

lemma add_to_list_length [simp]: "length (fst (add_to_list tm l t)) = Suc (length l)"
  by (induction l) auto

lemma add_to_list_distinct: "distinct l \<Longrightarrow> t \<notin> set l \<Longrightarrow> distinct (fst (add_to_list tm l t))"
  by (induction l) auto

lemma add_to_list_sorted: "sorted_list tm l \<Longrightarrow> sorted_list tm (fst (add_to_list tm l t))"
  by (induction l) fastforce+

lemma add_to_list_head: "t \<notin> set l \<Longrightarrow> snd (add_to_list tm l t) \<longleftrightarrow> hd (fst (add_to_list tm l t)) = t"
  by (cases l) auto

lemma add_to_list_earliest:
  "\<forall>x\<in>set l. expires (tm t) < expires (tm x) \<Longrightarrow> snd (add_to_list tm l t)"
  by (cases l) auto

section \<open>Draining a queue\<close>

text \<open>
  The softirq handler takes the first timer out of the heap, and then of the list, as long as it
  has expired. Both containers are deadline queues; what a drain delivers is proved once, from
  the laws of the interface.
\<close>

fun drain :: "('q \<Rightarrow> nat option) \<Rightarrow> ('q \<Rightarrow> nat \<Rightarrow> int) \<Rightarrow> ('q \<Rightarrow> 'q option) \<Rightarrow> int \<Rightarrow> nat \<Rightarrow> 'q \<Rightarrow> nat list \<times> 'q" where
  "drain top1 key pop now 0 q = ([], q)"
| "drain top1 key pop now (Suc n) q =
     (case top1 q of
        None \<Rightarrow> ([], q)
      | Some t \<Rightarrow>
          if key q t < now
          then (case pop q of
                  None \<Rightarrow> ([], q)
                | Some q' \<Rightarrow> (let (ts, q'') = drain top1 key pop now n q' in (t # ts, q'')))
          else ([], q))"

locale deadline_queue =
  fixes ok :: "'q \<Rightarrow> bool"
    and ids :: "'q \<Rightarrow> nat set"
    and key :: "'q \<Rightarrow> nat \<Rightarrow> int"
    and top1 :: "'q \<Rightarrow> nat option"
    and pop :: "'q \<Rightarrow> 'q option"
  assumes fin: "ok q \<Longrightarrow> finite (ids q)"
    and top_None: "ok q \<Longrightarrow> top1 q = None \<longleftrightarrow> ids q = {}"
    and top_in: "ok q \<Longrightarrow> top1 q = Some t \<Longrightarrow> t \<in> ids q"
    and top_le: "ok q \<Longrightarrow> top1 q = Some t \<Longrightarrow> x \<in> ids q \<Longrightarrow> key q t \<le> key q x"
    and pop_ok: "ok q \<Longrightarrow> top1 q = Some t \<Longrightarrow> \<exists>q'. pop q = Some q' \<and> ok q' \<and> ids q' = ids q - {t} \<and> key q' = key q"
begin

lemma drain_correct:
  assumes "ok q" "card (ids q) \<le> n"
  shows "\<exists>ts q'. drain top1 key pop now n q = (ts, q') \<and> ok q' \<and> distinct ts \<and> sorted (map (key q) ts)
    \<and> set ts = {x \<in> ids q. key q x < now} \<and> ids q' = {x \<in> ids q. now \<le> key q x} \<and> key q' = key q"
  using assms
proof (induction n arbitrary: q)
  case 0
  then have "ids q = {}" using fin by simp
  then show ?case using 0 by simp
next
  case (Suc n)
  show ?case
  proof (cases "top1 q")
    case None
    then have "ids q = {}" using top_None [OF Suc.prems(1)] by simp
    then show ?thesis using None Suc.prems(1) by simp
  next
    case (Some t)
    note t = top_in [OF Suc.prems(1) Some] and le = top_le [OF Suc.prems(1) Some]
    show ?thesis
    proof (cases "key q t < now")
      case False
      then have "\<not> key q x < now" if "x \<in> ids q" for x using le [OF that] by linarith
      then show ?thesis using False Some Suc.prems by (auto simp: not_less)
    next
      case True
      obtain q' where q': "pop q = Some q'" "ok q'" "ids q' = ids q - {t}" "key q' = key q"
        using pop_ok [OF Suc.prems(1) Some] by blast
      then have "card (ids q') \<le> n" using Suc.prems t fin [OF Suc.prems(1)] by simp
      from Suc.IH [OF q'(2) this] obtain ts q'' where *: "drain top1 key pop now n q' = (ts, q'')" "ok q''"
        "distinct ts" "sorted (map (key q) ts)" "set ts = {x \<in> ids q - {t}. key q x < now}"
        "ids q'' = {x \<in> ids q - {t}. now \<le> key q x}" "key q'' = key q" unfolding q'(3,4) by blast
      have "drain top1 key pop now (Suc n) q = (t # ts, q'')" using Some True q'(1) *(1) by simp
      moreover have "distinct (t # ts)" "sorted (map (key q) (t # ts))" using * le by auto
      moreover have "set (t # ts) = {x \<in> ids q. key q x < now}" using *(5) t True by auto
      moreover have "ids q'' = {x \<in> ids q. now \<le> key q x}" unfolding *(6) using True by auto
      ultimately show ?thesis using *(2,7) by blast
    qed
  qed
qed

end

definition heap_top :: "timers \<times> tstore \<Rightarrow> nat option" where
  "heap_top q = (if heap_size (fst q) \<noteq> 0 then Some (heap (fst q) 1) else None)"

definition heap_pop :: "timers \<times> tstore \<Rightarrow> (timers \<times> tstore) option" where
  "heap_pop q = map_option (\<lambda>(ts, tm, _). (ts, tm)) (remove_from_heap (fst q) (snd q) (heap (fst q) 1))"

interpretation heapq: deadline_queue "\<lambda>(ts, tm). heap_inv ts tm" "\<lambda>(ts, tm). heap_ids ts" "\<lambda>(ts, tm) t. expires (tm t)"
  heap_top heap_pop
proof
  fix q :: "timers \<times> tstore" and t x :: nat
  obtain ts tm where q: "q = (ts, tm)" by (cases q)
  assume "case q of (ts, tm) \<Rightarrow> heap_inv ts tm"
  then have inv: "heap_inv ts tm" by (simp add: q)
  show "finite (case q of (ts, tm) \<Rightarrow> heap_ids ts)" by (simp add: q heap_ids_def)
  show "heap_top q = None \<longleftrightarrow> (case q of (ts, tm) \<Rightarrow> heap_ids ts) = {}" by (auto simp: q heap_top_def heap_ids_def)
  assume top1: "heap_top q = Some t"
  then have h1: "heap ts 1 = t" and sz: "heap_size ts \<noteq> 0" by (auto simp: q heap_top_def split: if_splits)
  then have t: "t \<in> heap_ids ts" by (auto simp: heap_ids_def Suc_le_eq)
  then show "t \<in> (case q of (ts, tm) \<Rightarrow> heap_ids ts)" by (simp add: q)
  show "\<exists>q'. heap_pop q = Some q' \<and> (case q' of (ts, tm) \<Rightarrow> heap_inv ts tm) \<and>
    (case q' of (ts, tm) \<Rightarrow> heap_ids ts) = (case q of (ts, tm) \<Rightarrow> heap_ids ts) - {t} \<and>
    (case q' of (ts, tm) \<Rightarrow> \<lambda>t. expires (tm t)) = (case q of (ts, tm) \<Rightarrow> \<lambda>t. expires (tm t))"
    using remove_from_heap_correct [OF inv t] h1 by (auto simp: q heap_pop_def same_but_offsets_fields)
  assume "x \<in> (case q of (ts, tm) \<Rightarrow> heap_ids ts)"
  then show "(case q of (ts, tm) \<Rightarrow> \<lambda>t. expires (tm t)) t \<le> (case q of (ts, tm) \<Rightarrow> \<lambda>t. expires (tm t)) x"
    using heap_top_min [OF inv] h1 by (simp add: q)
qed

definition list_top :: "nat list \<times> tstore \<Rightarrow> nat option" where
  "list_top q = (case fst q of [] \<Rightarrow> None | t # _ \<Rightarrow> Some t)"

definition list_pop :: "nat list \<times> tstore \<Rightarrow> (nat list \<times> tstore) option" where
  "list_pop q = (case fst q of [] \<Rightarrow> None | _ # l \<Rightarrow> Some (l, snd q))"

interpretation listq: deadline_queue "\<lambda>(l, tm). distinct l \<and> sorted_list tm l" "\<lambda>(l, tm). set l"
  "\<lambda>(l, tm) t. expires (tm t)" list_top list_pop
  by unfold_locales (auto simp: list_top_def list_pop_def split: list.splits)

section \<open>Properties\<close>

definition example_store :: tstore where
  "example_store t = \<lparr>expires = int (100 - t), heap_offset = 1, callback = 0, cb_data = 0, tcpu = 0, status = TIMER_invalid\<rparr>"

definition example_heap :: timers where
  "example_heap = \<lparr>heap = (\<lambda>_. 7), heap_size = 1, heap_limit = 15, tlist = [], running = None, inactive = []\<rparr>"

lemma example_heap_inv: "heap_inv example_heap example_store" "heap_ids example_heap = {7}"
  by (auto simp: heap_inv_def example_heap_def example_store_def offsets_ok_def heap_ids_def)

text \<open>
  Property C27. The timer heap implements a set of timers with a minimum. In a heap that is in order,
  adding a timer below the limit adds exactly that timer and reports whether it is the new top;
  removing a timer, wherever it is, removes exactly that timer and reports whether it was the
  top; the array stays a heap, every timer keeps the offset of its slot, the rest of every timer
  is unchanged, and the top is a timer of the earliest deadline.
\<close>

theorem heap_refines_set:
  assumes "heap_inv ts tm"
  shows "(t \<notin> heap_ids ts \<longrightarrow> heap_size ts \<noteq> heap_limit ts \<longrightarrow>
      (\<exists>ts' tm'. add_to_heap ts tm t = (ts', tm', heap ts' 1 = t) \<and> heap_inv ts' tm'
        \<and> heap_ids ts' = insert t (heap_ids ts) \<and> same_but_offsets (insert t (heap_ids ts)) tm tm'))
    \<and> (t \<in> heap_ids ts \<longrightarrow>
      (\<exists>ts' tm'. remove_from_heap ts tm t = Some (ts', tm', heap ts 1 = t) \<and> heap_inv ts' tm'
        \<and> heap_ids ts' = heap_ids ts - {t} \<and> same_but_offsets (heap_ids ts - {t}) tm tm'))
    \<and> (t \<in> heap_ids ts \<longrightarrow> expires (tm (heap ts 1)) \<le> expires (tm t))"
  using add_to_heap_correct [OF assms] remove_from_heap_correct [OF assms] heap_top_min [OF assms] by blast

theorem heap_refines_set_witness:
  "\<exists>ts' tm'. add_to_heap example_heap example_store 9 = (ts', tm', heap ts' 1 = 9) \<and> heap_inv ts' tm'
     \<and> heap_ids ts' = {9, 7} \<and> same_but_offsets {9, 7} example_store tm'"
  using heap_refines_set [OF example_heap_inv(1), of 9] unfolding example_heap_inv(2)
  by (simp add: example_heap_def)

text \<open>
  Draining the heap in the way the softirq handler does, taking the top out as long
  as it has expired, delivers exactly the expired timers, once each and in the order of their
  deadlines, and leaves exactly the others in the heap.
\<close>

theorem heap_drain_in_order:
  assumes "heap_inv ts tm"
  shows "\<exists>l ts' tm'. drain heap_top (\<lambda>(ts, tm) t. expires (tm t)) heap_pop now (heap_size ts) (ts, tm) = (l, (ts', tm'))
    \<and> heap_inv ts' tm' \<and> distinct l \<and> sorted (map (\<lambda>t. expires (tm t)) l)
    \<and> set l = {t \<in> heap_ids ts. expires (tm t) < now} \<and> heap_ids ts' = {t \<in> heap_ids ts. now \<le> expires (tm t)}"
proof -
  have "card (heap_ids ts) \<le> heap_size ts" unfolding heap_ids_def by (metis card_atLeastAtMost card_image_le diff_Suc_1 finite_atLeastAtMost)
  then show ?thesis using heapq.drain_correct [of "(ts, tm)" "heap_size ts" now] assms by auto
qed

theorem heap_drain_in_order_witness:
  "\<exists>l ts' tm'. drain heap_top (\<lambda>(ts, tm) t. expires (tm t)) heap_pop 95 (heap_size example_heap) (example_heap, example_store) = (l, (ts', tm'))
    \<and> heap_inv ts' tm' \<and> distinct l \<and> sorted (map (\<lambda>t. expires (example_store t)) l)
    \<and> set l = {t \<in> heap_ids example_heap. expires (example_store t) < 95}
    \<and> heap_ids ts' = {t \<in> heap_ids example_heap. 95 \<le> expires (example_store t)}"
  using heap_drain_in_order [OF example_heap_inv(1), of 95] .
end
