(* ===== verification/Timer.thy ===== *)
theory Timer
  imports Timer_Heap "HOL-Library.Monad_Syntax"
begin

text \<open>
  The timer operations of \<^verbatim>\<open>xen/common/timer.c\<close> on the state of all CPUs: the store of timers,
  each CPU's containers, the deadline each CPU's hardware is programmed for and the pending timer
  softirqs. An operation runs under the lock of its CPU and is one step; \<open>None\<close> is a \<^verbatim>\<open>BUG\<close>,
  a failed assertion, a null pointer, or a wait that never ends. The expiry functions are a
  parameter: what a callback does is the list of timer operations it performs.
\<close>

section \<open>State and primitives\<close>

record tsys =
  tmr :: tstore
  cpus :: "nat \<Rightarrow> timers"
  timer_deadline :: "nat \<Rightarrow> int"
  softirq :: "nat \<Rightarrow> bool"

definition TIMER_CPU_killed :: nat where
  "TIMER_CPU_killed = 0xffff"

definition upd_timer :: "nat \<Rightarrow> (timer \<Rightarrow> timer) \<Rightarrow> tsys \<Rightarrow> tsys" where
  "upd_timer t f s = s\<lparr>tmr := (tmr s)(t := f (tmr s t))\<rparr>"

definition upd_cpu :: "nat \<Rightarrow> (timers \<Rightarrow> timers) \<Rightarrow> tsys \<Rightarrow> tsys" where
  "upd_cpu c f s = s\<lparr>cpus := (cpus s)(c := f (cpus s c))\<rparr>"

definition raise_softirq :: "nat \<Rightarrow> tsys \<Rightarrow> tsys" where
  "raise_softirq c s = s\<lparr>softirq := (softirq s)(c := True)\<rparr>"

text \<open>\<^verbatim>\<open>list_add\<close> and \<^verbatim>\<open>list_del\<close> on a CPU's list of inactive timers.\<close>

definition inactive_add :: "nat \<Rightarrow> nat \<Rightarrow> tsys \<Rightarrow> tsys" where
  "inactive_add c t = upd_cpu c (\<lambda>ts. ts\<lparr>inactive := t # inactive ts\<rparr>)"

definition inactive_del :: "nat \<Rightarrow> nat \<Rightarrow> tsys \<Rightarrow> tsys option" where
  "inactive_del c t s =
     (if t \<in> set (inactive (cpus s c))
      then Some (upd_cpu c (\<lambda>ts. ts\<lparr>inactive := remove1 t (inactive ts)\<rparr>) s) else None)"

section \<open>Entries\<close>

definition remove_entry :: "nat \<Rightarrow> tsys \<Rightarrow> (bool \<times> tsys) option" where
  "remove_entry t s =
     (let c = tcpu (tmr s t); ts = cpus s c
      in do {
        (rc, s) \<leftarrow>
          (case status (tmr s t) of
             TIMER_in_heap \<Rightarrow>
               map_option (\<lambda>(ts', tm', rc). (rc, s\<lparr>tmr := tm', cpus := (cpus s)(c := ts')\<rparr>))
                 (remove_from_heap ts (tmr s) t)
           | TIMER_in_list \<Rightarrow>
               map_option (\<lambda>(l, rc). (rc, upd_cpu c (\<lambda>ts. ts\<lparr>tlist := l\<rparr>) s)) (remove_from_list (tlist ts) t)
           | _ \<Rightarrow> None);
        Some (rc, upd_timer t (\<lambda>r. r\<lparr>status := TIMER_invalid\<rparr>) s)
      })"

definition add_entry :: "nat \<Rightarrow> tsys \<Rightarrow> (bool \<times> tsys) option" where
  "add_entry t s =
     (if status (tmr s t) \<noteq> TIMER_invalid then None
      else
        (let c = tcpu (tmr s t);
             s = upd_timer t (\<lambda>r. r\<lparr>heap_offset := 0, status := TIMER_in_heap\<rparr>) s;
             (ts', tm', rc) = add_to_heap (cpus s c) (tmr s) t;
             s = s\<lparr>tmr := tm', cpus := (cpus s)(c := ts')\<rparr>
         in if heap_offset (tmr s t) \<noteq> 0 then Some (rc, s)
            else
              (let s = upd_timer t (\<lambda>r. r\<lparr>status := TIMER_in_list\<rparr>) s;
                   (l, rc) = add_to_list (tmr s) (tlist (cpus s c)) t
               in Some (rc, upd_cpu c (\<lambda>ts. ts\<lparr>tlist := l\<rparr>) s))))"

definition activate_timer :: "nat \<Rightarrow> tsys \<Rightarrow> tsys option" where
  "activate_timer t s =
     (if status (tmr s t) \<noteq> TIMER_inactive then None
      else do {
        let s = upd_timer t (\<lambda>r. r\<lparr>status := TIMER_invalid\<rparr>) s;
        s \<leftarrow> inactive_del (tcpu (tmr s t)) t s;
        (rc, s) \<leftarrow> add_entry t s;
        Some (if rc then raise_softirq (tcpu (tmr s t)) s else s)
      })"

definition deactivate_timer :: "nat \<Rightarrow> tsys \<Rightarrow> tsys option" where
  "deactivate_timer t s =
     do {
       (rc, s) \<leftarrow> remove_entry t s;
       let s = (if rc then raise_softirq (tcpu (tmr s t)) s else s);
       let s = upd_timer t (\<lambda>r. r\<lparr>status := TIMER_inactive\<rparr>) s;
       Some (inactive_add (tcpu (tmr s t)) t s)
     }"

definition timer_lock :: "nat \<Rightarrow> tsys \<Rightarrow> bool" where
  "timer_lock t s \<longleftrightarrow> tcpu (tmr s t) \<noteq> TIMER_CPU_killed"

definition active_timer :: "nat \<Rightarrow> tsys \<Rightarrow> bool option" where
  "active_timer t s =
     (case status (tmr s t) of
        TIMER_invalid \<Rightarrow> None | TIMER_in_heap \<Rightarrow> Some True | TIMER_in_list \<Rightarrow> Some True | _ \<Rightarrow> Some False)"

definition deactivate_if_active :: "nat \<Rightarrow> tsys \<Rightarrow> (bool \<times> tsys) option" where
  "deactivate_if_active t s =
     do {
       active \<leftarrow> active_timer t s;
       s \<leftarrow> (if active then deactivate_timer t s else Some s);
       Some (active, s)
     }"

section \<open>Operations\<close>

definition init_timer :: "nat \<Rightarrow> nat \<Rightarrow> nat \<Rightarrow> nat \<Rightarrow> tsys \<Rightarrow> tsys option" where
  "init_timer t fn data c s =
     (let s = upd_timer t (\<lambda>_. \<lparr>expires = 0, heap_offset = 0, callback = fn, cb_data = data,
                                tcpu = c mod 2 ^ 16, status = TIMER_inactive\<rparr>) s
      in if timer_lock t s then Some (inactive_add c t s) else None)"

definition set_timer :: "nat \<Rightarrow> int \<Rightarrow> tsys \<Rightarrow> tsys option" where
  "set_timer t e s =
     (if \<not> timer_lock t s then Some s
      else do {
        (_, s) \<leftarrow> deactivate_if_active t s;
        activate_timer t (upd_timer t (\<lambda>r. r\<lparr>expires := e\<rparr>) s)
      })"

definition stop_timer :: "nat \<Rightarrow> tsys \<Rightarrow> tsys option" where
  "stop_timer t s =
     (if \<not> timer_lock t s then Some s else map_option snd (deactivate_if_active t s))"

definition migrate_timer :: "nat \<Rightarrow> nat \<Rightarrow> tsys \<Rightarrow> tsys option" where
  "migrate_timer t new s =
     (let old = tcpu (tmr s t)
      in if old = new \<or> old = TIMER_CPU_killed then Some s
         else do {
           (active, s) \<leftarrow> deactivate_if_active t s;
           s \<leftarrow> inactive_del old t s;
           let s = upd_timer t (\<lambda>r. r\<lparr>tcpu := new mod 2 ^ 16\<rparr>) s;
           let s = inactive_add new t s;
           if active then activate_timer t s else Some s
         })"

text \<open>
  Killing a timer waits until no online CPU runs its callback. Callbacks run to their end inside the
  step of their softirq, so the only CPU that can be inside one is the caller's, where the code has a
  \<^verbatim>\<open>BUG_ON\<close>; a callback left running elsewhere would make the wait endless.
\<close>

definition kill_timer :: "nat \<Rightarrow> nat list \<Rightarrow> nat \<Rightarrow> tsys \<Rightarrow> tsys option" where
  "kill_timer this online t s =
     (if running (cpus s this) = Some t then None
      else if \<not> timer_lock t s then Some s
      else do {
        (_, s) \<leftarrow> deactivate_if_active t s;
        s \<leftarrow> inactive_del (tcpu (tmr s t)) t s;
        let s = upd_timer t (\<lambda>r. r\<lparr>status := TIMER_killed, tcpu := TIMER_CPU_killed\<rparr>) s;
        if \<exists>c\<in>set online. running (cpus s c) = Some t then None else Some s
      })"

text \<open>What an expiry function may do: the timer operations, in the order it performs them.\<close>

datatype timer_op = Op_init nat nat nat nat | Op_set nat int | Op_stop nat | Op_migrate nat nat | Op_kill nat

fun run_op :: "nat \<Rightarrow> nat list \<Rightarrow> timer_op \<Rightarrow> tsys \<Rightarrow> tsys option" where
  "run_op this online (Op_init t fn data c) s = init_timer t fn data c s"
| "run_op this online (Op_set t e) s = set_timer t e s"
| "run_op this online (Op_stop t) s = stop_timer t s"
| "run_op this online (Op_migrate t c) s = migrate_timer t c s"
| "run_op this online (Op_kill t) s = kill_timer this online t s"

fun run_ops :: "nat \<Rightarrow> nat list \<Rightarrow> timer_op list \<Rightarrow> tsys \<Rightarrow> tsys option" where
  "run_ops this online [] s = Some s"
| "run_ops this online (op # ops) s = do { s \<leftarrow> run_op this online op s; run_ops this online ops s }"

type_synonym callbacks = "nat \<Rightarrow> nat \<Rightarrow> tsys \<Rightarrow> timer_op list"

section \<open>The softirq handler\<close>

definition execute_timer :: "callbacks \<Rightarrow> nat list \<Rightarrow> nat \<Rightarrow> nat \<Rightarrow> tsys \<Rightarrow> tsys option" where
  "execute_timer cb online c t s =
     (let fn = callback (tmr s t);
          data = cb_data (tmr s t);
          s = upd_timer t (\<lambda>r. r\<lparr>status := TIMER_inactive\<rparr>) s;
          s = inactive_add c t s;
          s = upd_cpu c (\<lambda>ts. ts\<lparr>running := Some t\<rparr>) s
      in do {
        s \<leftarrow> run_ops c online (cb fn data s) s;
        Some (upd_cpu c (\<lambda>ts. ts\<lparr>running := None\<rparr>) s)
      })"

text \<open>
  The input \<open>alloc\<close> is the array \<^verbatim>\<open>xmalloc_array\<close> returns, with whatever its slots hold, or
  \<open>None\<close> when the allocation fails. The copy starts with slot 0, so the size comes along.
\<close>

definition grow_heap :: "(nat \<Rightarrow> nat) option \<Rightarrow> nat \<Rightarrow> tsys \<Rightarrow> tsys" where
  "grow_heap alloc c s =
     (if tlist (cpus s c) \<noteq> []
      then
        (let old_limit = heap_limit (cpus s c);
             new_limit = (old_limit + 1) * 16 - 1
         in case alloc of
              None \<Rightarrow> s
            | Some newheap \<Rightarrow>
                upd_cpu c (\<lambda>ts. SET_HEAP_LIMIT new_limit
                  (ts\<lparr>heap := memcpy newheap (heap ts) (old_limit + 1)\<rparr>)) s)
      else s)"

partial_function (option) run_heap :: "callbacks \<Rightarrow> nat list \<Rightarrow> nat \<Rightarrow> int \<Rightarrow> tsys \<Rightarrow> tsys option" where
  "run_heap cb online c now s =
     (let ts = cpus s c; t = heap ts 1
      in if heap_size ts \<noteq> 0 \<and> expires (tmr s t) < now
         then do {
           (ts, tm, _) \<leftarrow> remove_from_heap ts (tmr s) t;
           s \<leftarrow> execute_timer cb online c t (s\<lparr>tmr := tm, cpus := (cpus s)(c := ts)\<rparr>);
           run_heap cb online c now s
         }
         else Some s)"

partial_function (option) run_list :: "callbacks \<Rightarrow> nat list \<Rightarrow> nat \<Rightarrow> int \<Rightarrow> tsys \<Rightarrow> tsys option" where
  "run_list cb online c now s =
     (case tlist (cpus s c) of
        [] \<Rightarrow> Some s
      | t # l \<Rightarrow>
          if expires (tmr s t) < now
          then do {
            s \<leftarrow> execute_timer cb online c t (upd_cpu c (\<lambda>ts. ts\<lparr>tlist := l\<rparr>) s);
            run_list cb online c now s
          }
          else Some s)"

fun requeue :: "nat list \<Rightarrow> tsys \<Rightarrow> tsys option" where
  "requeue [] s = Some s"
| "requeue (t # next) s =
     do {
       (_, s) \<leftarrow> add_entry t (upd_timer t (\<lambda>r. r\<lparr>status := TIMER_invalid\<rparr>) s);
       requeue next s
     }"

definition list_to_heap :: "nat \<Rightarrow> tsys \<Rightarrow> tsys option" where
  "list_to_heap c s = requeue (tlist (cpus s c)) (upd_cpu c (\<lambda>ts. ts\<lparr>tlist := []\<rparr>) s)"

definition STIME_MAX :: int where
  "STIME_MAX = 2 ^ 63 - 1"

definition next_deadline :: "nat \<Rightarrow> tsys \<Rightarrow> int" where
  "next_deadline c s =
     (let ts = cpus s c;
          deadline = (if heap_size ts \<noteq> 0 then expires (tmr s (heap ts 1)) else STIME_MAX)
      in case tlist ts of
           [] \<Rightarrow> deadline
         | t # _ \<Rightarrow> if expires (tmr s t) < deadline then expires (tmr s t) else deadline)"

definition program_deadline :: "nat \<Rightarrow> int \<Rightarrow> int \<Rightarrow> (int \<Rightarrow> bool) \<Rightarrow> tsys \<Rightarrow> tsys" where
  "program_deadline c now slop reprogram_timer s =
     (let deadline = next_deadline c s;
          d = (if deadline = STIME_MAX then 0 else max deadline (now + slop));
          s = s\<lparr>timer_deadline := (timer_deadline s)(c := d)\<rparr>
      in if reprogram_timer d then s else raise_softirq c s)"

definition timer_softirq_action :: "callbacks \<Rightarrow> nat list \<Rightarrow> nat \<Rightarrow> (nat \<Rightarrow> nat) option \<Rightarrow> int \<Rightarrow> int \<Rightarrow> int \<Rightarrow> (int \<Rightarrow> bool) \<Rightarrow> tsys \<Rightarrow> tsys option" where
  "timer_softirq_action cb online c alloc now now' slop reprogram_timer s =
     do {
       s \<leftarrow> run_heap cb online c now (grow_heap alloc c s);
       s \<leftarrow> run_list cb online c now s;
       s \<leftarrow> list_to_heap c s;
       Some (program_deadline c now' slop reprogram_timer s)
     }"

definition align_timer :: "u64 \<Rightarrow> u64 \<Rightarrow> u64" where
  "align_timer firsttick period =
     (if period = 0 then firsttick else firsttick + (period - 1) - ((firsttick - 1) mod period))"

section \<open>CPU hotplug\<close>

partial_function (option) migrate_active :: "nat \<Rightarrow> nat \<Rightarrow> bool \<Rightarrow> tsys \<Rightarrow> (bool \<times> tsys) option" where
  "migrate_active old new notify s =
     (let ts = cpus s old
      in case (if heap_size ts \<noteq> 0 then Some (heap ts 1)
               else case tlist ts of [] \<Rightarrow> None | t # _ \<Rightarrow> Some t) of
           None \<Rightarrow> Some (notify, s)
         | Some t \<Rightarrow>
             do {
               (_, s) \<leftarrow> remove_entry t s;
               (rc, s) \<leftarrow> add_entry t (upd_timer t (\<lambda>r. r\<lparr>tcpu := new mod 2 ^ 16\<rparr>) s);
               migrate_active old new (notify \<or> rc) s
             })"

fun migrate_inactive :: "nat list \<Rightarrow> nat \<Rightarrow> nat \<Rightarrow> tsys \<Rightarrow> tsys option" where
  "migrate_inactive [] old new s = Some s"
| "migrate_inactive (t # l) old new s =
     do {
       s \<leftarrow> inactive_del old t s;
       let s = upd_timer t (\<lambda>r. r\<lparr>tcpu := new mod 2 ^ 16\<rparr>) s;
       migrate_inactive l old new (inactive_add new t s)
     }"

definition migrate_timers_from_cpu :: "nat set \<Rightarrow> nat \<Rightarrow> nat \<Rightarrow> tsys \<Rightarrow> tsys option" where
  "migrate_timers_from_cpu online new old s =
     (if old \<in> online \<or> new \<notin> online then None
      else do {
        (notify, s) \<leftarrow> migrate_active old new False s;
        s \<leftarrow> migrate_inactive (inactive (cpus s old)) old new s;
        Some (if notify then raise_softirq new s else s)
      })"

datatype cpu_action = CPU_UP_PREPARE | CPU_UP_CANCELED | CPU_DEAD | CPU_OTHER

definition cpu_callback :: "nat set \<Rightarrow> nat \<Rightarrow> cpu_action \<Rightarrow> nat \<Rightarrow> tsys \<Rightarrow> tsys option" where
  "cpu_callback online new action c s =
     (case action of
        CPU_UP_PREPARE \<Rightarrow> Some (upd_cpu c (\<lambda>ts. ts\<lparr>inactive := [], heap_size := 0, heap_limit := 0\<rparr>) s)
      | CPU_UP_CANCELED \<Rightarrow> migrate_timers_from_cpu online new c s
      | CPU_DEAD \<Rightarrow> migrate_timers_from_cpu online new c s
      | CPU_OTHER \<Rightarrow> Some s)"

text \<open>The boot state: zeroed per-CPU data and no timer.\<close>

definition zero_tsys :: tsys where
  "zero_tsys =
     \<lparr>tmr = (\<lambda>_. \<lparr>expires = 0, heap_offset = 0, callback = 0, cb_data = 0, tcpu = 0, status = TIMER_invalid\<rparr>),
      cpus = (\<lambda>_. \<lparr>heap = (\<lambda>_. 0), heap_size = 0, heap_limit = 0, tlist = [], running = None, inactive = []\<rparr>),
      timer_deadline = (\<lambda>_. 0), softirq = (\<lambda>_. False)\<rparr>"

definition timer_init :: "nat \<Rightarrow> tsys option" where
  "timer_init boot_cpu = cpu_callback {boot_cpu} boot_cpu CPU_UP_PREPARE boot_cpu zero_tsys"

section \<open>The abstract timer system\<close>

text \<open>
  What the operations promise, without the containers: a timer is idle, active, killed or not in
  use, and has its expiry time, callback and CPU.
\<close>

datatype astat = Unused | Idle | Active | Killed

record atimer =
  a_expires :: int
  a_callback :: nat
  a_data :: nat
  a_cpu :: nat
  a_stat :: astat

fun astat_of :: "tstatus \<Rightarrow> astat" where
  "astat_of TIMER_invalid = Unused"
| "astat_of TIMER_inactive = Idle"
| "astat_of TIMER_killed = Killed"
| "astat_of TIMER_in_heap = Active"
| "astat_of TIMER_in_list = Active"

definition abs_timer :: "timer \<Rightarrow> atimer" where
  "abs_timer r = \<lparr>a_expires = expires r, a_callback = callback r, a_data = cb_data r, a_cpu = tcpu r, a_stat = astat_of (status r)\<rparr>"

definition abs_sys :: "tsys \<Rightarrow> nat \<Rightarrow> atimer" where
  "abs_sys s t = abs_timer (tmr s t)"

section \<open>The invariant\<close>

definition placed :: "tstore \<Rightarrow> nat \<Rightarrow> tstatus \<Rightarrow> nat set" where
  "placed tm c st = {t. status (tm t) = st \<and> tcpu (tm t) = c}"

definition cpu_inv :: "timers \<Rightarrow> tstore \<Rightarrow> nat \<Rightarrow> bool" where
  "cpu_inv ts tm c \<longleftrightarrow> heap_inv ts tm \<and> distinct (tlist ts) \<and> sorted_list tm (tlist ts) \<and> distinct (inactive ts)
     \<and> heap_ids ts = placed tm c TIMER_in_heap \<and> set (tlist ts) = placed tm c TIMER_in_list
     \<and> set (inactive ts) = placed tm c TIMER_inactive"

definition killed_ok :: "timer \<Rightarrow> bool" where
  "killed_ok r \<longleftrightarrow> (status r = TIMER_killed \<longrightarrow> tcpu r = TIMER_CPU_killed)
     \<and> (status r \<in> {TIMER_inactive, TIMER_in_heap, TIMER_in_list} \<longrightarrow> tcpu r < TIMER_CPU_killed)"

definition timer_inv :: "tsys \<Rightarrow> bool" where
  "timer_inv s \<longleftrightarrow> (\<forall>c. cpu_inv (cpus s c) (tmr s) c) \<and> (\<forall>t. killed_ok (tmr s t))"

definition frame :: "tsys \<Rightarrow> tsys \<Rightarrow> bool" where
  "frame s s' \<longleftrightarrow> timer_deadline s' = timer_deadline s
     \<and> (\<forall>c. running (cpus s' c) = running (cpus s c) \<and> heap_limit (cpus s' c) = heap_limit (cpus s c))"

lemma frame_refl [simp]: "frame s s"
  by (simp add: frame_def)

lemma frame_trans: "frame s s' \<Longrightarrow> frame s' s'' \<Longrightarrow> frame s s''"
  by (simp add: frame_def)

lemma heap_inv_cong:
  assumes "heap_inv ts tm" "\<And>x. x \<in> heap_ids ts \<Longrightarrow> tm' x = tm x"
  shows "heap_inv ts tm'"
proof -
  have eq: "tm' (heap ts i) = tm (heap ts i)" if "i \<in> {1..heap_size ts}" for i
    using assms(2) that by (simp add: heap_ids_def)
  have "edge_ok (heap ts) tm' (i div 2) i" if "i \<in> {2..heap_size ts}" for i
  proof -
    have "edge_ok (heap ts) tm (i div 2) i" using assms(1) that by (simp add: heap_inv_def)
    moreover have "i div 2 \<in> {1..heap_size ts}" "i \<in> {1..heap_size ts}" using that by auto
    ultimately show ?thesis by (simp add: edge_ok_def eq)
  qed
  then show ?thesis using assms(1) eq by (simp add: heap_inv_def offsets_ok_def)
qed

lemma heap_inv_fields [simp]:
  "heap_inv (ts\<lparr>tlist := l\<rparr>) tm = heap_inv ts tm" "heap_ids (ts\<lparr>tlist := l\<rparr>) = heap_ids ts"
  "heap_inv (ts\<lparr>inactive := l\<rparr>) tm = heap_inv ts tm" "heap_ids (ts\<lparr>inactive := l\<rparr>) = heap_ids ts"
  "heap_inv (ts\<lparr>running := r\<rparr>) tm = heap_inv ts tm" "heap_ids (ts\<lparr>running := r\<rparr>) = heap_ids ts"
  by (simp_all add: heap_inv_def heap_ids_def)

lemma sorted_list_cong: "(\<And>x. x \<in> set l \<Longrightarrow> expires (tm' x) = expires (tm x)) \<Longrightarrow> sorted_list tm' l = sorted_list tm l"
  unfolding sorted_list_def by (intro arg_cong [where f = sorted] map_cong) auto

text \<open>A CPU is not affected by changes to timers that are not and will not be in its containers.\<close>

lemma cpu_inv_other:
  assumes "cpu_inv ts tm d"
    and "\<And>x. tm' x \<noteq> tm x \<Longrightarrow> (tcpu (tm x) \<noteq> d \<or> status (tm x) \<in> {TIMER_invalid, TIMER_killed})
                               \<and> (tcpu (tm' x) \<noteq> d \<or> status (tm' x) \<in> {TIMER_invalid, TIMER_killed})"
  shows "cpu_inv ts tm' d"
proof -
  have p: "placed tm' d st = placed tm d st" if "st \<notin> {TIMER_invalid, TIMER_killed}" for st
  proof -
    have "(status (tm' x) = st \<and> tcpu (tm' x) = d) = (status (tm x) = st \<and> tcpu (tm x) = d)" for x
      using assms(2) [of x] that by (cases "tm' x = tm x") auto
    then show ?thesis by (simp add: placed_def)
  qed
  have eq: "tm' x = tm x" if "x \<in> placed tm d st" "st \<notin> {TIMER_invalid, TIMER_killed}" for x st
    using assms(2) [of x] that by (auto simp: placed_def)
  have "heap_inv ts tm'" using assms(1) eq by (auto simp: cpu_inv_def intro: heap_inv_cong)
  moreover have "sorted_list tm' (tlist ts) = sorted_list tm (tlist ts)"
    using assms(1) eq by (intro sorted_list_cong) (simp add: cpu_inv_def)
  ultimately show ?thesis using assms(1) p by (simp add: cpu_inv_def)
qed

text \<open>A step on CPU \<open>c\<close> and its timers.\<close>

lemma timer_inv_step:
  assumes "timer_inv s" "cpu_inv ts' tm' c" "\<And>x. killed_ok (tm' x)"
    and "\<And>x. tm' x \<noteq> tmr s x \<Longrightarrow> (tcpu (tmr s x) = c \<or> status (tmr s x) \<in> {TIMER_invalid, TIMER_killed})
                                    \<and> (tcpu (tm' x) = c \<or> status (tm' x) \<in> {TIMER_invalid, TIMER_killed})"
    and "tmr s' = tm'" "cpus s' = (cpus s)(c := ts')"
  shows "timer_inv s'"
proof -
  have "cpu_inv (cpus s d) tm' d" if "d \<noteq> c" for d
  proof (rule cpu_inv_other [of _ "tmr s"])
    show "cpu_inv (cpus s d) (tmr s) d" using assms(1) by (simp add: timer_inv_def)
    fix x assume "tm' x \<noteq> tmr s x"
    from assms(4) [OF this] that
    show "(tcpu (tmr s x) \<noteq> d \<or> status (tmr s x) \<in> {TIMER_invalid, TIMER_killed})
      \<and> (tcpu (tm' x) \<noteq> d \<or> status (tm' x) \<in> {TIMER_invalid, TIMER_killed})" by blast
  qed
  then show ?thesis using assms(2,3) by (simp add: timer_inv_def assms(5,6))
qed

section \<open>Effects of the primitives\<close>

text \<open>A store in which one timer has changed and the others at most in their heap offsets.\<close>

definition one_changed :: "nat \<Rightarrow> tstore \<Rightarrow> tstore \<Rightarrow> bool" where
  "one_changed t tm tm' \<longleftrightarrow> (\<forall>x. x \<noteq> t \<longrightarrow> tm' x = (tm x)\<lparr>heap_offset := heap_offset (tm' x)\<rparr>)"

lemma one_changed_fields:
  assumes "one_changed t tm tm'" "x \<noteq> t"
  shows "expires (tm' x) = expires (tm x)" "tcpu (tm' x) = tcpu (tm x)" "status (tm' x) = status (tm x)"
    "abs_timer (tm' x) = abs_timer (tm x)" "killed_ok (tm' x) = killed_ok (tm x)"
proof -
  have "tm' x = (tm x)\<lparr>heap_offset := heap_offset (tm' x)\<rparr>" using assms by (simp add: one_changed_def)
  then obtain k where k: "tm' x = (tm x)\<lparr>heap_offset := k\<rparr>" ..
  show "expires (tm' x) = expires (tm x)" "tcpu (tm' x) = tcpu (tm x)" "status (tm' x) = status (tm x)"
    "abs_timer (tm' x) = abs_timer (tm x)" "killed_ok (tm' x) = killed_ok (tm x)"
    by (simp_all add: k abs_timer_def killed_ok_def)
qed

lemma placed_changed:
  assumes "one_changed t tm tm'"
  shows "placed tm' c st = (placed tm c st - {t}) \<union> (if status (tm' t) = st \<and> tcpu (tm' t) = c then {t} else {})"
proof (rule set_eqI)
  fix x
  show "x \<in> placed tm' c st \<longleftrightarrow> x \<in> (placed tm c st - {t}) \<union> (if status (tm' t) = st \<and> tcpu (tm' t) = c then {t} else {})"
    using one_changed_fields [OF assms, of x] by (cases "x = t") (auto simp: placed_def)
qed

lemma one_changed_upd [simp]: "one_changed t tm (tm(t := r))"
  by (simp add: one_changed_def)

lemma one_changed_offsets:
  assumes "same_but_offsets X tm tm'"
  shows "one_changed t tm (tm'(t := r))"
  using assms by (simp add: one_changed_def same_but_offsets_def)

lemma one_changed_after: "same_but_offsets X (tm(t := r)) tm' \<Longrightarrow> one_changed t tm tm'"
  unfolding one_changed_def same_but_offsets_def by (metis fun_upd_other)

lemma abs_changed:
  assumes "one_changed t (tmr s) (tmr s')"
  shows "abs_sys s' = (abs_sys s)(t := abs_timer (tmr s' t))"
  using one_changed_fields(4) [OF assms] by (auto simp: abs_sys_def fun_eq_iff)

lemma killed_changed:
  assumes "timer_inv s" "one_changed t (tmr s) tm'" "killed_ok (tm' t)"
  shows "killed_ok (tm' x)"
  using assms one_changed_fields(5) [OF assms(2), of x] by (cases "x = t") (auto simp: timer_inv_def)

lemma cpu_invD:
  assumes "timer_inv s" and "c = tcpu (tmr s t)"
  shows "status (tmr s t) = TIMER_in_heap \<longleftrightarrow> t \<in> heap_ids (cpus s c)"
    and "status (tmr s t) = TIMER_in_list \<longleftrightarrow> t \<in> set (tlist (cpus s c))"
    and "status (tmr s t) = TIMER_inactive \<longleftrightarrow> t \<in> set (inactive (cpus s c))"
proof -
  have "cpu_inv (cpus s c) (tmr s) c" using assms(1) by (simp add: timer_inv_def)
  then show "status (tmr s t) = TIMER_in_heap \<longleftrightarrow> t \<in> heap_ids (cpus s c)"
    "status (tmr s t) = TIMER_in_list \<longleftrightarrow> t \<in> set (tlist (cpus s c))"
    "status (tmr s t) = TIMER_inactive \<longleftrightarrow> t \<in> set (inactive (cpus s c))"
    by (simp_all add: cpu_inv_def placed_def assms(2))
qed

text \<open>What a step that touches timer \<open>t\<close> and the containers of CPU \<open>c\<close> has to show.\<close>

lemma timer_step:
  assumes inv: "timer_inv s"
    and ch: "one_changed t (tmr s) (tmr s')" and cpus: "cpus s' = (cpus s)(c := ts')"
    and other: "\<And>x. x \<noteq> t \<Longrightarrow> x \<notin> heap_ids (cpus s c) \<Longrightarrow> tmr s' x = tmr s x"
    and t: "tcpu (tmr s t) = c \<or> status (tmr s t) \<in> {TIMER_invalid, TIMER_killed}"
      "tcpu (tmr s' t) = c \<or> status (tmr s' t) \<in> {TIMER_invalid, TIMER_killed}"
    and ok: "killed_ok (tmr s' t)" and ci: "cpu_inv ts' (tmr s') c"
  shows "timer_inv s'"
proof (rule timer_inv_step [OF inv ci killed_changed [OF inv ch ok] _ refl cpus])
  fix x assume ne: "tmr s' x \<noteq> tmr s x"
  show "(tcpu (tmr s x) = c \<or> status (tmr s x) \<in> {TIMER_invalid, TIMER_killed})
    \<and> (tcpu (tmr s' x) = c \<or> status (tmr s' x) \<in> {TIMER_invalid, TIMER_killed})"
  proof (cases "x = t")
    case False
    then have "x \<in> heap_ids (cpus s c)" using other ne by blast
    then have "tcpu (tmr s x) = c" using inv by (auto simp: timer_inv_def cpu_inv_def placed_def)
    then show ?thesis using one_changed_fields(2) [OF ch False] by simp
  qed (use t in simp)
qed

lemma remove_entry_heap:
  assumes inv: "timer_inv s" and st: "status (tmr s t) = TIMER_in_heap"
  shows "\<exists>rc s'. remove_entry t s = Some (rc, s') \<and> timer_inv s'
    \<and> abs_sys s' = (abs_sys s)(t := (abs_sys s t)\<lparr>a_stat := Unused\<rparr>)
    \<and> tmr s' t = (tmr s t)\<lparr>status := TIMER_invalid\<rparr> \<and> frame s s' \<and> softirq s' = softirq s"
proof -
  define c where "c = tcpu (tmr s t)"
  have ci: "cpu_inv (cpus s c) (tmr s) c" using inv by (simp add: timer_inv_def)
  have t: "t \<in> heap_ids (cpus s c)" using cpu_invD(1) [OF inv c_def] st by simp
  have "heap_inv (cpus s c) (tmr s)" using ci by (simp add: cpu_inv_def)
  then obtain ts' tm1 where r: "remove_from_heap (cpus s c) (tmr s) t = Some (ts', tm1, heap (cpus s c) 1 = t)"
    "heap_inv ts' tm1" "heap_ids ts' = heap_ids (cpus s c) - {t}"
    "same_but_offsets (heap_ids (cpus s c) - {t}) (tmr s) tm1" "heap_frame (cpus s c) ts'"
    using remove_from_heap_correct [OF _ t] by blast
  have t1: "tm1 t = tmr s t" using r(4) by (simp add: same_but_offsets_def)
  define tm' where "tm' = tm1(t := (tmr s t)\<lparr>status := TIMER_invalid\<rparr>)"
  define s' where "s' = s\<lparr>tmr := tm', cpus := (cpus s)(c := ts')\<rparr>"
  have ch: "one_changed t (tmr s) tm'" unfolding tm'_def by (rule one_changed_offsets [OF r(4)])
  have fr: "tlist ts' = tlist (cpus s c)" "inactive ts' = inactive (cpus s c)" "running ts' = running (cpus s c)"
    "heap_limit ts' = heap_limit (cpus s c)"
    using r(5) unfolding heap_frame_def by (metis timers.select_convs timers.surjective timers.update_convs)+
  have "remove_entry t s = Some (heap (cpus s c) 1 = t, s')"
    using st r(1) t1 by (simp add: remove_entry_def Let_def c_def s'_def upd_timer_def tm'_def)
  moreover have "cpu_inv ts' tm' c"
  proof -
    have "heap_inv ts' tm'" by (rule heap_inv_cong [OF r(2)]) (use r(3) in \<open>auto simp: tm'_def\<close>)
    moreover have "sorted_list tm' (tlist ts') = sorted_list (tmr s) (tlist ts')"
      using r(4) same_but_offsets_fields(1) by (intro sorted_list_cong) (simp add: tm'_def)
    moreover have "t \<notin> placed (tmr s) c TIMER_in_list" "t \<notin> placed (tmr s) c TIMER_inactive" using st by (simp_all add: placed_def)
    ultimately show ?thesis
      using ci r(3) fr unfolding cpu_inv_def by (simp add: placed_changed [OF ch]) (simp add: tm'_def)
  qed
  then have "timer_inv s'"
  proof (intro timer_step [OF inv, of t s' c ts'])
    fix x assume "x \<noteq> t" "x \<notin> heap_ids (cpus s c)"
    then show "tmr s' x = tmr s x" using r(4) by (simp add: s'_def tm'_def same_but_offsets_def)
  qed (use ch in \<open>auto simp: s'_def c_def tm'_def killed_ok_def\<close>)
  moreover have "abs_sys s' = (abs_sys s)(t := (abs_sys s t)\<lparr>a_stat := Unused\<rparr>)"
    using abs_changed [of t s s'] ch by (simp add: s'_def tm'_def abs_sys_def abs_timer_def)
  ultimately show ?thesis using fr by (auto simp: s'_def tm'_def frame_def)
qed

lemma list_part_cong:
  assumes "cpu_inv ts tm c" "one_changed t tm tm'" "t \<notin> placed tm c TIMER_in_list"
  shows "sorted_list tm' (tlist ts)"
proof -
  have "expires (tm' x) = expires (tm x)" if "x \<in> set (tlist ts)" for x
    using assms that by (intro one_changed_fields(1)) (auto simp: cpu_inv_def)
  then have "sorted_list tm' (tlist ts) = sorted_list tm (tlist ts)" by (rule sorted_list_cong)
  then show ?thesis using assms(1) by (simp add: cpu_inv_def)
qed

lemma heap_part_cong:
  assumes "cpu_inv ts tm c" "t \<notin> placed tm c TIMER_in_heap"
  shows "heap_inv ts (tm(t := r))"
proof (rule heap_inv_cong)
  show "heap_inv ts tm" using assms(1) by (simp add: cpu_inv_def)
  have "t \<notin> heap_ids ts" using assms by (simp add: cpu_inv_def)
  then show "x \<in> heap_ids ts \<Longrightarrow> (tm(t := r)) x = tm x" for x by auto
qed

lemma remove_entry_list:
  assumes inv: "timer_inv s" and st: "status (tmr s t) = TIMER_in_list"
  shows "\<exists>rc s'. remove_entry t s = Some (rc, s') \<and> timer_inv s'
    \<and> abs_sys s' = (abs_sys s)(t := (abs_sys s t)\<lparr>a_stat := Unused\<rparr>)
    \<and> tmr s' t = (tmr s t)\<lparr>status := TIMER_invalid\<rparr> \<and> frame s s' \<and> softirq s' = softirq s"
proof -
  define c where "c = tcpu (tmr s t)"
  let ?l = "tlist (cpus s c)"
  have ci: "cpu_inv (cpus s c) (tmr s) c" using inv by (simp add: timer_inv_def)
  have t: "t \<in> set ?l" using cpu_invD(2) [OF inv c_def] st by simp
  define tm' where "tm' = (tmr s)(t := (tmr s t)\<lparr>status := TIMER_invalid\<rparr>)"
  define ts' where "ts' = (cpus s c)\<lparr>tlist := remove1 t ?l\<rparr>"
  define s' where "s' = s\<lparr>tmr := tm', cpus := (cpus s)(c := ts')\<rparr>"
  have ch: "one_changed t (tmr s) tm'" by (simp add: tm'_def)
  have "remove_entry t s = Some (hd ?l = t, s')"
    using st remove_from_list_correct [OF t]
    by (simp add: remove_entry_def Let_def c_def s'_def upd_timer_def upd_cpu_def tm'_def ts'_def)
  moreover have "cpu_inv ts' tm' c"
  proof -
    have n: "t \<notin> placed (tmr s) c TIMER_in_heap" "t \<notin> placed (tmr s) c TIMER_inactive" using st by (simp_all add: placed_def)
    have "heap_inv (cpus s c) tm'" unfolding tm'_def by (rule heap_part_cong [OF ci]) (simp add: n)
    then have "heap_inv ts' tm'" by (simp add: ts'_def)
    moreover have "sorted_list tm' (remove1 t ?l) = sorted_list (tmr s) (remove1 t ?l)"
      by (rule sorted_list_cong) (simp add: tm'_def)
    moreover have "heap_ids ts' = heap_ids (cpus s c)" by (simp add: ts'_def heap_ids_def)
    ultimately show ?thesis
      using ci n sorted_list_remove1 unfolding cpu_inv_def
      by (simp add: placed_changed [OF ch]) (simp add: tm'_def ts'_def)
  qed
  then have "timer_inv s'"
    by (intro timer_step [OF inv, of t s' c ts']) (use ch in \<open>auto simp: s'_def c_def tm'_def killed_ok_def\<close>)
  moreover have "abs_sys s' = (abs_sys s)(t := (abs_sys s t)\<lparr>a_stat := Unused\<rparr>)"
    using abs_changed [of t s s'] ch by (simp add: s'_def tm'_def abs_sys_def abs_timer_def)
  ultimately show ?thesis by (auto simp: s'_def tm'_def ts'_def frame_def)
qed

lemmas remove_entry_correct = remove_entry_heap remove_entry_list

lemma add_entry_heap:
  assumes inv: "timer_inv s" and st: "status (tmr s t) = TIMER_invalid" and c: "tcpu (tmr s t) = c" "c < TIMER_CPU_killed"
    and room: "heap_size (cpus s c) \<noteq> heap_limit (cpus s c)"
  shows "\<exists>rc s'. add_entry t s = Some (rc, s') \<and> timer_inv s'
    \<and> abs_sys s' = (abs_sys s)(t := (abs_sys s t)\<lparr>a_stat := Active\<rparr>) \<and> frame s s' \<and> softirq s' = softirq s
    \<and> ((\<forall>x. x \<noteq> t \<longrightarrow> a_stat (abs_sys s x) = Active \<longrightarrow> a_cpu (abs_sys s x) = c \<longrightarrow>
            expires (tmr s t) < a_expires (abs_sys s x)) \<longrightarrow> rc)"
proof -
  have ci: "cpu_inv (cpus s c) (tmr s) c" using inv by (simp add: timer_inv_def)
  define tm0 where "tm0 = (tmr s)(t := (tmr s t)\<lparr>heap_offset := 0, status := TIMER_in_heap\<rparr>)"
  have t: "t \<notin> heap_ids (cpus s c)" using ci st by (auto simp: cpu_inv_def placed_def)
  have "heap_inv (cpus s c) tm0"
    using ci t by (auto simp: cpu_inv_def tm0_def intro: heap_inv_cong)
  then obtain ts' tm' where a: "add_to_heap (cpus s c) tm0 t = (ts', tm', heap ts' 1 = t)" "heap_inv ts' tm'"
    "heap_ids ts' = insert t (heap_ids (cpus s c))" "same_but_offsets (insert t (heap_ids (cpus s c))) tm0 tm'"
    "heap_frame (cpus s c) ts'"
    using add_to_heap_correct [OF _ t room] by blast
  define s' where "s' = s\<lparr>tmr := tm', cpus := (cpus s)(c := ts')\<rparr>"
  have tt: "status (tm' t) = TIMER_in_heap" "tcpu (tm' t) = c" "expires (tm' t) = expires (tmr s t)"
    "abs_timer (tm' t) = (abs_timer (tmr s t))\<lparr>a_stat := Active\<rparr>"
    using same_but_offsets_fields [OF a(4), of t] c by (simp_all add: tm0_def abs_timer_def)
  have ch: "one_changed t (tmr s) tm'"
    using a(4) one_changed_after unfolding tm0_def by blast
  have fr: "tlist ts' = tlist (cpus s c)" "inactive ts' = inactive (cpus s c)" "running ts' = running (cpus s c)"
    "heap_limit ts' = heap_limit (cpus s c)"
    using a(5) unfolding heap_frame_def by (metis timers.select_convs timers.surjective timers.update_convs)+
  have "heap_offset (tm' t) \<noteq> 0" using heap_offset_id(1) [OF a(2), of t] a(3) by auto
  then have "add_entry t s = Some (heap ts' 1 = t, s')"
    using st a(1) c by (simp add: add_entry_def Let_def s'_def upd_timer_def tm0_def)
  moreover have "cpu_inv ts' tm' c"
  proof -
    have n: "t \<notin> placed (tmr s) c TIMER_in_list" "t \<notin> placed (tmr s) c TIMER_inactive" using st by (simp_all add: placed_def)
    show ?thesis
      using ci n a(2,3) tt fr list_part_cong [OF ci ch n(1)] unfolding cpu_inv_def
      by (auto simp add: placed_changed [OF ch])
  qed
  then have "timer_inv s'"
  proof (intro timer_step [OF inv, of t s' c ts'])
    fix x assume "x \<noteq> t" "x \<notin> heap_ids (cpus s c)"
    then show "tmr s' x = tmr s x" using a(4) by (simp add: s'_def tm0_def same_but_offsets_def)
  qed (use ch c tt in \<open>auto simp: s'_def killed_ok_def\<close>)
  moreover have "abs_sys s' = (abs_sys s)(t := (abs_sys s t)\<lparr>a_stat := Active\<rparr>)"
    using abs_changed [of t s s'] ch tt by (simp add: s'_def abs_sys_def)
  moreover have "heap ts' 1 = t"
    if e: "\<forall>x. x \<noteq> t \<longrightarrow> a_stat (abs_sys s x) = Active \<longrightarrow> a_cpu (abs_sys s x) = c \<longrightarrow> expires (tmr s t) < a_expires (abs_sys s x)"
  proof (rule ccontr)
    assume ne: "heap ts' 1 \<noteq> t"
    have "heap_ids ts' \<noteq> {}" using a(3) by simp
    then have "heap ts' 1 \<in> heap_ids ts'" by (simp add: heap_ids_def)
    then have x: "heap ts' 1 \<in> placed (tmr s) c TIMER_in_heap" using ne a(3) ci by (auto simp: cpu_inv_def)
    then have "expires (tmr s t) < expires (tmr s (heap ts' 1))"
      using e ne by (auto simp: abs_sys_def abs_timer_def placed_def)
    moreover have "expires (tm' (heap ts' 1)) \<le> expires (tm' t)" using heap_top_min [OF a(2)] a(3) by simp
    ultimately show False using one_changed_fields(1) [OF ch ne] tt(3) by simp
  qed
  ultimately show ?thesis using fr by (auto simp: s'_def frame_def)
qed

lemma add_entry_list:
  assumes inv: "timer_inv s" and st: "status (tmr s t) = TIMER_invalid" and c: "tcpu (tmr s t) = c" "c < TIMER_CPU_killed"
    and full: "heap_size (cpus s c) = heap_limit (cpus s c)"
  shows "\<exists>rc s'. add_entry t s = Some (rc, s') \<and> timer_inv s'
    \<and> abs_sys s' = (abs_sys s)(t := (abs_sys s t)\<lparr>a_stat := Active\<rparr>) \<and> frame s s' \<and> softirq s' = softirq s
    \<and> ((\<forall>x. x \<noteq> t \<longrightarrow> a_stat (abs_sys s x) = Active \<longrightarrow> a_cpu (abs_sys s x) = c \<longrightarrow>
            expires (tmr s t) < a_expires (abs_sys s x)) \<longrightarrow> rc)"
proof -
  have ci: "cpu_inv (cpus s c) (tmr s) c" using inv by (simp add: timer_inv_def)
  let ?l = "tlist (cpus s c)"
  define tm' where "tm' = (tmr s)(t := (tmr s t)\<lparr>heap_offset := 0, status := TIMER_in_list\<rparr>)"
  define ts' where "ts' = (cpus s c)\<lparr>tlist := fst (add_to_list tm' ?l t)\<rparr>"
  define s' where "s' = s\<lparr>tmr := tm', cpus := (cpus s)(c := ts')\<rparr>"
  have ch: "one_changed t (tmr s) tm'" by (simp add: tm'_def)
  have n: "t \<notin> placed (tmr s) c st" if "st \<noteq> TIMER_invalid" for st using st that by (auto simp: placed_def)
  have tl: "t \<notin> set ?l" using ci n by (simp add: cpu_inv_def)
  have "add_entry t s = Some (snd (add_to_list tm' ?l t), s')"
    using st c full add_to_heap_full [OF full]
    by (simp add: add_entry_def Let_def s'_def upd_timer_def upd_cpu_def tm'_def ts'_def split_beta)
  moreover have "cpu_inv ts' tm' c"
  proof -
    have "heap_inv (cpus s c) tm'" unfolding tm'_def by (rule heap_part_cong [OF ci]) (simp add: n)
    moreover have "sorted_list tm' (fst (add_to_list tm' ?l t))"
      using list_part_cong [OF ci ch n] by (intro add_to_list_sorted) simp
    moreover have "distinct (fst (add_to_list tm' ?l t))" using ci tl by (intro add_to_list_distinct) (simp_all add: cpu_inv_def)
    moreover have "status (tm' t) = TIMER_in_list" "tcpu (tm' t) = c" using c by (simp_all add: tm'_def)
    ultimately show ?thesis
      using ci n [of TIMER_in_heap] n [of TIMER_in_list] n [of TIMER_inactive]
      unfolding cpu_inv_def ts'_def by (simp add: placed_changed [OF ch])
  qed
  then have "timer_inv s'"
    by (intro timer_step [OF inv, of t s' c ts']) (use ch c st in \<open>auto simp: s'_def tm'_def killed_ok_def\<close>)
  moreover have "abs_sys s' = (abs_sys s)(t := (abs_sys s t)\<lparr>a_stat := Active\<rparr>)"
    using abs_changed [of t s s'] ch by (simp add: s'_def tm'_def abs_sys_def abs_timer_def)
  moreover have "snd (add_to_list tm' ?l t)"
    if e: "\<forall>x. x \<noteq> t \<longrightarrow> a_stat (abs_sys s x) = Active \<longrightarrow> a_cpu (abs_sys s x) = c \<longrightarrow> expires (tmr s t) < a_expires (abs_sys s x)"
  proof (rule add_to_list_earliest, intro ballI)
    fix x assume x: "x \<in> set ?l"
    then have "x \<noteq> t" "status (tmr s x) = TIMER_in_list" "tcpu (tmr s x) = c" using ci tl by (auto simp: cpu_inv_def placed_def)
    then show "expires (tm' t) < expires (tm' x)" using e by (simp add: tm'_def abs_sys_def abs_timer_def)
  qed
  ultimately show ?thesis by (auto simp: s'_def ts'_def frame_def)
qed

lemma add_entry_correct:
  assumes "timer_inv s" "status (tmr s t) = TIMER_invalid" "tcpu (tmr s t) = c" "c < TIMER_CPU_killed"
  shows "\<exists>rc s'. add_entry t s = Some (rc, s') \<and> timer_inv s'
    \<and> abs_sys s' = (abs_sys s)(t := (abs_sys s t)\<lparr>a_stat := Active\<rparr>) \<and> frame s s' \<and> softirq s' = softirq s
    \<and> ((\<forall>x. x \<noteq> t \<longrightarrow> a_stat (abs_sys s x) = Active \<longrightarrow> a_cpu (abs_sys s x) = c \<longrightarrow>
            expires (tmr s t) < a_expires (abs_sys s x)) \<longrightarrow> rc)"
  using add_entry_heap [OF assms] add_entry_list [OF assms] by blast

text \<open>An unused timer can be changed freely; it becomes idle by entering the inactive list.\<close>

lemma upd_unused:
  assumes inv: "timer_inv s" and st: "status (tmr s t) \<in> {TIMER_invalid, TIMER_killed}"
    and r: "status (f (tmr s t)) \<in> {TIMER_invalid, TIMER_killed}" "killed_ok (f (tmr s t))"
  shows "timer_inv (upd_timer t f s)"
proof -
  let ?tm = "(tmr s)(t := f (tmr s t))"
  have "cpu_inv (cpus s d) ?tm d" for d
  proof (rule cpu_inv_other [of _ "tmr s"])
    show "cpu_inv (cpus s d) (tmr s) d" using inv by (simp add: timer_inv_def)
    fix x assume "?tm x \<noteq> tmr s x"
    then have "x = t" by (auto split: if_splits)
    then show "(tcpu (tmr s x) \<noteq> d \<or> status (tmr s x) \<in> {TIMER_invalid, TIMER_killed})
      \<and> (tcpu (?tm x) \<noteq> d \<or> status (?tm x) \<in> {TIMER_invalid, TIMER_killed})" using st r(1) by simp
  qed
  then show ?thesis using inv r(2) by (simp add: timer_inv_def upd_timer_def)
qed

lemma become_idle:
  assumes inv: "timer_inv s" and st: "status (tmr s t) = TIMER_invalid" and c: "tcpu (f (tmr s t)) = c" "c < TIMER_CPU_killed"
    and f: "status (f (tmr s t)) = TIMER_inactive"
  shows "timer_inv (inactive_add c t (upd_timer t f s))"
proof -
  let ?s = "inactive_add c t (upd_timer t f s)"
  have ci: "cpu_inv (cpus s c) (tmr s) c" using inv by (simp add: timer_inv_def)
  have ch: "one_changed t (tmr s) (tmr ?s)" by (simp add: inactive_add_def upd_cpu_def upd_timer_def)
  have n: "t \<notin> placed (tmr s) c st" if "st \<noteq> TIMER_invalid" for st using st that by (auto simp: placed_def)
  have "heap_inv (cpus s c) (tmr ?s)"
    using heap_part_cong [OF ci n] by (simp add: inactive_add_def upd_cpu_def upd_timer_def)
  then have "cpu_inv ((cpus s c)\<lparr>inactive := t # inactive (cpus s c)\<rparr>) (tmr ?s) c"
    using ci n list_part_cong [OF ci ch n] f c unfolding cpu_inv_def
    by (auto simp: placed_changed [OF ch]) (auto simp: inactive_add_def upd_cpu_def upd_timer_def)
  then show ?thesis
    by (intro timer_step [OF inv ch, of c "(cpus s c)\<lparr>inactive := t # inactive (cpus s c)\<rparr>"])
      (use st f c in \<open>auto simp: inactive_add_def upd_cpu_def upd_timer_def killed_ok_def\<close>)
qed

lemma leave_idle:
  assumes inv: "timer_inv s" and st: "status (tmr s t) = TIMER_inactive" and c: "tcpu (tmr s t) = c"
    and f: "status (f (tmr s t)) \<in> {TIMER_invalid, TIMER_killed}" "killed_ok (f (tmr s t))"
  shows "inactive_del c t s = Some (upd_cpu c (\<lambda>ts. ts\<lparr>inactive := remove1 t (inactive ts)\<rparr>) s)"
    and "timer_inv (upd_timer t f (upd_cpu c (\<lambda>ts. ts\<lparr>inactive := remove1 t (inactive ts)\<rparr>) s))"
proof -
  let ?ts = "(cpus s c)\<lparr>inactive := remove1 t (inactive (cpus s c))\<rparr>"
  let ?s = "upd_timer t f (upd_cpu c (\<lambda>ts. ts\<lparr>inactive := remove1 t (inactive ts)\<rparr>) s)"
  have ci: "cpu_inv (cpus s c) (tmr s) c" using inv by (simp add: timer_inv_def)
  show "inactive_del c t s = Some (upd_cpu c (\<lambda>ts. ts\<lparr>inactive := remove1 t (inactive ts)\<rparr>) s)"
    using cpu_invD(3) [OF inv, of c t] st c by (simp add: inactive_del_def)
  have ch: "one_changed t (tmr s) (tmr ?s)" by (simp add: upd_cpu_def upd_timer_def)
  have n: "t \<notin> placed (tmr s) c st" if "st \<noteq> TIMER_inactive" for st using st that by (auto simp: placed_def)
  have "heap_inv (cpus s c) (tmr ?s)"
    using heap_part_cong [OF ci n] by (simp add: upd_cpu_def upd_timer_def)
  then have "cpu_inv ?ts (tmr ?s) c"
    using ci n list_part_cong [OF ci ch n] f(1) unfolding cpu_inv_def
    by (auto simp: placed_changed [OF ch]) (auto simp: upd_cpu_def upd_timer_def)
  then show "timer_inv ?s"
    by (intro timer_step [OF inv ch, of c ?ts]) (use f c in \<open>auto simp: upd_cpu_def upd_timer_def\<close>)
qed

section \<open>Effects of the operations\<close>

lemma raise_softirq_simps [simp]:
  "timer_inv (raise_softirq c s) = timer_inv s" "abs_sys (raise_softirq c s) = abs_sys s"
  "tmr (raise_softirq c s) = tmr s" "cpus (raise_softirq c s) = cpus s" "frame s' (raise_softirq c s) = frame s' s"
  "frame (raise_softirq c s) s' = frame s s'"
  by (simp_all add: raise_softirq_def timer_inv_def abs_sys_def frame_def fun_eq_iff)

lemma raise_softirq_mono [simp]: "softirq s \<le> softirq (raise_softirq c s)" "softirq (raise_softirq c s) c"
  by (auto simp: raise_softirq_def le_fun_def)

lemma upd_cpu_simps [simp]:
  "tmr (upd_cpu c f s) = tmr s" "softirq (upd_cpu c f s) = softirq s" "timer_deadline (upd_cpu c f s) = timer_deadline s"
  "abs_sys (upd_cpu c f s) = abs_sys s" "cpus (upd_cpu c f s) = (cpus s)(c := f (cpus s c))"
  by (simp_all add: upd_cpu_def abs_sys_def fun_eq_iff)

lemma upd_timer_simps [simp]:
  "tmr (upd_timer t f s) = (tmr s)(t := f (tmr s t))" "softirq (upd_timer t f s) = softirq s"
  "timer_deadline (upd_timer t f s) = timer_deadline s" "cpus (upd_timer t f s) = cpus s"
  "abs_sys (upd_timer t f s) = (abs_sys s)(t := abs_timer (f (tmr s t)))"
  by (simp_all add: upd_timer_def abs_sys_def fun_eq_iff)

lemma inactive_add_simps [simp]:
  "tmr (inactive_add c t s) = tmr s" "softirq (inactive_add c t s) = softirq s" "abs_sys (inactive_add c t s) = abs_sys s"
  "frame s' (inactive_add c t s) = frame s' s"
  by (auto simp: inactive_add_def frame_def)

lemma frame_upd [simp]:
  "frame s (upd_timer t f s') = frame s s'" "frame s (upd_cpu c (\<lambda>ts. ts\<lparr>inactive := g ts\<rparr>) s') = frame s s'"
  "frame s (upd_cpu c (\<lambda>ts. ts\<lparr>tlist := g ts\<rparr>) s') = frame s s'"
  by (auto simp: frame_def)

lemma upd_comm: "upd_cpu c f (upd_timer t g s) = upd_timer t g (upd_cpu c f s)"
  by (simp add: upd_cpu_def upd_timer_def)

lemma timer_inv_cpu:
  assumes "timer_inv s" "a_stat (abs_sys s t) \<in> {Idle, Active}"
  shows "tcpu (tmr s t) < TIMER_CPU_killed"
proof -
  have "killed_ok (tmr s t)" using assms(1) by (simp add: timer_inv_def)
  then show ?thesis
    using assms(2) by (cases "status (tmr s t)") (auto simp: killed_ok_def abs_sys_def abs_timer_def)
qed

lemma a_stat_status:
  "a_stat (abs_sys s t) = Unused \<longleftrightarrow> status (tmr s t) = TIMER_invalid"
  "a_stat (abs_sys s t) = Idle \<longleftrightarrow> status (tmr s t) = TIMER_inactive"
  "a_stat (abs_sys s t) = Killed \<longleftrightarrow> status (tmr s t) = TIMER_killed"
  "a_stat (abs_sys s t) = Active \<longleftrightarrow> status (tmr s t) = TIMER_in_heap \<or> status (tmr s t) = TIMER_in_list"
  by (cases "status (tmr s t)"; simp add: abs_sys_def abs_timer_def)+

lemma abs_fields [simp]: "a_cpu (abs_sys s t) = tcpu (tmr s t)" "a_expires (abs_sys s t) = expires (tmr s t)"
  "a_callback (abs_sys s t) = callback (tmr s t)" "a_data (abs_sys s t) = cb_data (tmr s t)"
  by (simp_all add: abs_sys_def abs_timer_def)

lemma abs_timer_upd [simp]:
  "abs_timer (r\<lparr>status := st\<rparr>) = (abs_timer r)\<lparr>a_stat := astat_of st\<rparr>"
  "abs_timer (r\<lparr>expires := e\<rparr>) = (abs_timer r)\<lparr>a_expires := e\<rparr>"
  "abs_timer (r\<lparr>tcpu := c\<rparr>) = (abs_timer r)\<lparr>a_cpu := c\<rparr>"
  by (simp_all add: abs_timer_def)

lemma deactivate_timer_correct:
  assumes inv: "timer_inv s" and act: "a_stat (abs_sys s t) = Active"
  shows "\<exists>s'. deactivate_timer t s = Some s' \<and> timer_inv s' \<and> abs_sys s' = (abs_sys s)(t := (abs_sys s t)\<lparr>a_stat := Idle\<rparr>)
    \<and> frame s s' \<and> softirq s \<le> softirq s'"
proof -
  obtain rc s1 where r: "remove_entry t s = Some (rc, s1)" "timer_inv s1"
    "abs_sys s1 = (abs_sys s)(t := (abs_sys s t)\<lparr>a_stat := Unused\<rparr>)" "tmr s1 t = (tmr s t)\<lparr>status := TIMER_invalid\<rparr>"
    "frame s s1" "softirq s1 = softirq s"
    using remove_entry_correct [OF inv] act a_stat_status by metis
  define s2 where "s2 = (if rc then raise_softirq (tcpu (tmr s1 t)) s1 else s1)"
  let ?c = "tcpu (tmr s t)" and ?f = "\<lambda>r. r\<lparr>status := TIMER_inactive\<rparr>"
  have s2: "timer_inv s2" "abs_sys s2 = abs_sys s1" "tmr s2 = tmr s1" "frame s s2" "softirq s \<le> softirq s2"
    using r raise_softirq_mono(1) [of s1] by (auto simp: s2_def)
  have "deactivate_timer t s = Some (inactive_add ?c t (upd_timer t ?f s2))"
    using r(1,4) s2(3) by (simp add: deactivate_timer_def s2_def [symmetric])
  moreover have "timer_inv (inactive_add ?c t (upd_timer t ?f s2))"
    using timer_inv_cpu [OF inv, of t] act r(4) s2 by (intro become_idle) simp_all
  ultimately show ?thesis
    using s2 r(3,4) by (simp add: abs_sys_def [of s t])
qed

lemma activate_timer_correct:
  assumes inv: "timer_inv s" and idle: "a_stat (abs_sys s t) = Idle"
  shows "\<exists>s'. activate_timer t s = Some s' \<and> timer_inv s' \<and> abs_sys s' = (abs_sys s)(t := (abs_sys s t)\<lparr>a_stat := Active\<rparr>)
    \<and> frame s s' \<and> softirq s \<le> softirq s'
    \<and> ((\<forall>x. x \<noteq> t \<longrightarrow> a_stat (abs_sys s x) = Active \<longrightarrow> a_cpu (abs_sys s x) = tcpu (tmr s t) \<longrightarrow>
            expires (tmr s t) < expires (tmr s x)) \<longrightarrow> softirq s' (tcpu (tmr s t)))"
proof -
  let ?c = "tcpu (tmr s t)" and ?f = "\<lambda>r. r\<lparr>status := TIMER_invalid\<rparr>"
  have st: "status (tmr s t) = TIMER_inactive" using idle a_stat_status by simp
  define s1 where "s1 = upd_timer t ?f (upd_cpu ?c (\<lambda>ts. ts\<lparr>inactive := remove1 t (inactive ts)\<rparr>) s)"
  have d: "inactive_del ?c t (upd_timer t ?f s) = Some s1"
    using leave_idle(1) [OF inv st refl, of ?f] by (simp add: inactive_del_def s1_def upd_comm killed_ok_def split: if_splits)
  have i1: "timer_inv s1" unfolding s1_def by (rule leave_idle(2) [OF inv st refl]) (simp_all add: killed_ok_def)
  have s1: "status (tmr s1 t) = TIMER_invalid" "tcpu (tmr s1 t) = ?c" "expires (tmr s1 t) = expires (tmr s t)"
    "abs_sys s1 = (abs_sys s)(t := (abs_sys s t)\<lparr>a_stat := Unused\<rparr>)" "frame s s1" "softirq s1 = softirq s"
    by (simp_all add: s1_def abs_sys_def [of s t])
  from add_entry_correct [OF i1 s1(1,2) timer_inv_cpu [OF inv, of t]] idle
  obtain rc s2 where a: "add_entry t s1 = Some (rc, s2)" "timer_inv s2"
    "abs_sys s2 = (abs_sys s1)(t := (abs_sys s1 t)\<lparr>a_stat := Active\<rparr>)" "frame s1 s2" "softirq s2 = softirq s1"
    "(\<forall>x. x \<noteq> t \<longrightarrow> a_stat (abs_sys s1 x) = Active \<longrightarrow> a_cpu (abs_sys s1 x) = ?c \<longrightarrow>
            expires (tmr s1 t) < a_expires (abs_sys s1 x)) \<longrightarrow> rc" by auto
  have c2: "tcpu (tmr s2 t) = ?c" using arg_cong [OF a(3), of "\<lambda>A. a_cpu (A t)"] s1(2) by simp
  have "activate_timer t s = Some (if rc then raise_softirq ?c s2 else s2)"
    using st d a(1) c2 by (simp add: activate_timer_def)
  moreover have "abs_sys s2 = (abs_sys s)(t := (abs_sys s t)\<lparr>a_stat := Active\<rparr>)" using a(3) s1(4) by simp
  moreover have "rc" if "\<forall>x. x \<noteq> t \<longrightarrow> a_stat (abs_sys s x) = Active \<longrightarrow> a_cpu (abs_sys s x) = ?c \<longrightarrow> expires (tmr s t) < expires (tmr s x)"
    using a(6) that unfolding s1(3,4) by simp
  ultimately show ?thesis
    using a(2,5) s1(6) frame_trans [OF s1(5) a(4)] raise_softirq_mono(1) [of s2 ?c] raise_softirq_mono(2) [of ?c s2] by auto
qed

lemma deactivate_if_active_correct:
  assumes inv: "timer_inv s" and st: "a_stat (abs_sys s t) \<in> {Idle, Active}"
  shows "\<exists>s'. deactivate_if_active t s = Some (a_stat (abs_sys s t) = Active, s') \<and> timer_inv s'
    \<and> abs_sys s' = (abs_sys s)(t := (abs_sys s t)\<lparr>a_stat := Idle\<rparr>) \<and> frame s s' \<and> softirq s \<le> softirq s'"
proof (cases "a_stat (abs_sys s t) = Active")
  case True
  then have "active_timer t s = Some True" using a_stat_status(4) [of s t] by (auto simp: active_timer_def)
  then show ?thesis using True deactivate_timer_correct [OF inv True] by (auto simp: deactivate_if_active_def)
next
  case False
  then have idle: "a_stat (abs_sys s t) = Idle" using st by simp
  then have "active_timer t s = Some False" using a_stat_status(2) [of s t] by (simp add: active_timer_def)
  moreover have "(abs_sys s)(t := (abs_sys s t)\<lparr>a_stat := Idle\<rparr>) = abs_sys s"
    using idle by (metis (no_types) atimer.surjective atimer.update_convs(5) atimer.select_convs(5) fun_upd_triv)
  ultimately show ?thesis using inv idle by (simp add: deactivate_if_active_def)
qed

section \<open>Refinement of the abstract timer system\<close>

lemma atimer_comm [simp]:
  "r\<lparr>a_stat := x, a_expires := e\<rparr> = r\<lparr>a_expires := e, a_stat := x\<rparr>"
  "r\<lparr>a_stat := x, a_cpu := c\<rparr> = r\<lparr>a_cpu := c, a_stat := x\<rparr>"
  by simp_all

lemma a_stat_same: "a_stat r = x \<Longrightarrow> (r :: atimer)\<lparr>a_stat := x\<rparr> = r"
  by (cases r) simp

fun spec_op :: "timer_op \<Rightarrow> (nat \<Rightarrow> atimer) \<Rightarrow> nat \<Rightarrow> atimer" where
  "spec_op (Op_init t fn data c) A =
     A(t := \<lparr>a_expires = 0, a_callback = fn, a_data = data, a_cpu = c, a_stat = Idle\<rparr>)"
| "spec_op (Op_set t e) A = (if a_stat (A t) = Killed then A else A(t := (A t)\<lparr>a_expires := e, a_stat := Active\<rparr>))"
| "spec_op (Op_stop t) A = (if a_stat (A t) = Killed then A else A(t := (A t)\<lparr>a_stat := Idle\<rparr>))"
| "spec_op (Op_migrate t c) A = (if a_stat (A t) = Killed then A else A(t := (A t)\<lparr>a_cpu := c\<rparr>))"
| "spec_op (Op_kill t) A =
     (if a_stat (A t) = Killed then A else A(t := (A t)\<lparr>a_cpu := TIMER_CPU_killed, a_stat := Killed\<rparr>))"

text \<open>
  When an operation may be called: \<^verbatim>\<open>init_timer\<close> on a new or killed timer, the others on a timer
  that has been initialised, \<^verbatim>\<open>kill_timer\<close> not from the timer's own callback and not while
  another CPU runs it, where the code waits.
\<close>

fun op_ok :: "nat \<Rightarrow> nat list \<Rightarrow> tsys \<Rightarrow> timer_op \<Rightarrow> bool" where
  "op_ok this online s (Op_init t fn data c) \<longleftrightarrow> a_stat (abs_sys s t) \<in> {Unused, Killed} \<and> c < TIMER_CPU_killed"
| "op_ok this online s (Op_set t e) \<longleftrightarrow> a_stat (abs_sys s t) \<noteq> Unused"
| "op_ok this online s (Op_stop t) \<longleftrightarrow> a_stat (abs_sys s t) \<noteq> Unused"
| "op_ok this online s (Op_migrate t c) \<longleftrightarrow> a_stat (abs_sys s t) \<noteq> Unused \<and> c < TIMER_CPU_killed"
| "op_ok this online s (Op_kill t) \<longleftrightarrow>
     a_stat (abs_sys s t) \<noteq> Unused \<and> running (cpus s this) \<noteq> Some t \<and> (\<forall>c\<in>set online. running (cpus s c) \<noteq> Some t)"

lemma timer_lock_iff:
  assumes "timer_inv s" "a_stat (abs_sys s t) \<noteq> Unused"
  shows "timer_lock t s \<longleftrightarrow> a_stat (abs_sys s t) \<noteq> Killed"
proof -
  have "killed_ok (tmr s t)" using assms(1) by (simp add: timer_inv_def)
  then show ?thesis
    using assms(2) by (cases "status (tmr s t)") (auto simp: timer_lock_def killed_ok_def a_stat_status)
qed

lemma stat_cases:
  assumes "a_stat (abs_sys s t) \<noteq> Unused" "a_stat (abs_sys s t) \<noteq> Killed"
  shows "a_stat (abs_sys s t) \<in> {Idle, Active}"
  using assms by (cases "a_stat (abs_sys s t)") auto

lemma upd_expires_idle:
  assumes "timer_inv s" "a_stat (abs_sys s t) = Idle"
  shows "timer_inv (upd_timer t (\<lambda>r. r\<lparr>expires := e\<rparr>) s)"
proof (rule timer_step [OF assms(1), of t _ "tcpu (tmr s t)" "cpus s (tcpu (tmr s t))"])
  let ?c = "tcpu (tmr s t)" and ?r = "(tmr s t)\<lparr>expires := e\<rparr>"
  have st: "status (tmr s t) = TIMER_inactive" using assms(2) a_stat_status by simp
  have ci: "cpu_inv (cpus s ?c) (tmr s) ?c" using assms(1) by (simp add: timer_inv_def)
  have n: "t \<notin> placed (tmr s) ?c TIMER_in_heap" "t \<notin> placed (tmr s) ?c TIMER_in_list" "t \<in> placed (tmr s) ?c TIMER_inactive"
    using st by (simp_all add: placed_def)
  show "cpu_inv (cpus s ?c) (tmr (upd_timer t (\<lambda>r. r\<lparr>expires := e\<rparr>) s)) ?c"
    using ci n st heap_part_cong [OF ci n(1), of ?r] list_part_cong [OF ci _ n(2), of "(tmr s)(t := ?r)"]
    by (simp add: cpu_inv_def placed_changed [OF one_changed_upd] insert_absorb)
  show "killed_ok (tmr (upd_timer t (\<lambda>r. r\<lparr>expires := e\<rparr>) s) t)"
    using assms(1) by (simp add: timer_inv_def killed_ok_def)
qed simp_all

lemma set_timer_correct:
  assumes inv: "timer_inv s" and u: "a_stat (abs_sys s t) \<noteq> Unused"
  shows "\<exists>s'. set_timer t e s = Some s' \<and> timer_inv s' \<and> abs_sys s' = spec_op (Op_set t e) (abs_sys s)
    \<and> frame s s' \<and> softirq s \<le> softirq s'
    \<and> (a_stat (abs_sys s t) \<noteq> Killed \<longrightarrow>
        (\<forall>x. x \<noteq> t \<longrightarrow> a_stat (abs_sys s x) = Active \<longrightarrow> tcpu (tmr s x) = tcpu (tmr s t) \<longrightarrow> e < expires (tmr s x)) \<longrightarrow>
        softirq s' (tcpu (tmr s t)))"
proof (cases "a_stat (abs_sys s t) = Killed")
  case True
  then show ?thesis using inv timer_lock_iff [OF inv u] by (simp add: set_timer_def)
next
  case False
  then have lock: "timer_lock t s" using timer_lock_iff [OF inv u] by simp
  obtain s1 where d: "deactivate_if_active t s = Some (a_stat (abs_sys s t) = Active, s1)" "timer_inv s1"
    "abs_sys s1 = (abs_sys s)(t := (abs_sys s t)\<lparr>a_stat := Idle\<rparr>)" "frame s s1" "softirq s \<le> softirq s1"
    using deactivate_if_active_correct [OF inv stat_cases [OF u False]] by blast
  define s2 where "s2 = upd_timer t (\<lambda>r. r\<lparr>expires := e\<rparr>) s1"
  have i1: "a_stat (abs_sys s1 t) = Idle" by (simp add: d(3))
  have i2: "timer_inv s2" unfolding s2_def by (rule upd_expires_idle [OF d(2) i1])
  have a2: "abs_sys s2 = (abs_sys s)(t := (abs_sys s t)\<lparr>a_expires := e, a_stat := Idle\<rparr>)"
  proof -
    have "abs_timer (tmr s1 t) = (abs_sys s t)\<lparr>a_stat := Idle\<rparr>" using d(3) by (metis abs_sys_def fun_upd_same)
    then show ?thesis by (simp add: s2_def d(3))
  qed
  then have "a_stat (abs_sys s2 t) = Idle" by simp
  from activate_timer_correct [OF i2 this] obtain s3 where a: "activate_timer t s2 = Some s3" "timer_inv s3"
    "abs_sys s3 = (abs_sys s2)(t := (abs_sys s2 t)\<lparr>a_stat := Active\<rparr>)" "frame s2 s3" "softirq s2 \<le> softirq s3"
    "(\<forall>x. x \<noteq> t \<longrightarrow> a_stat (abs_sys s2 x) = Active \<longrightarrow> a_cpu (abs_sys s2 x) = tcpu (tmr s2 t) \<longrightarrow>
            expires (tmr s2 t) < expires (tmr s2 x)) \<longrightarrow> softirq s3 (tcpu (tmr s2 t))" by blast
  have "set_timer t e s = Some s3" using lock d(1) a(1) by (simp add: set_timer_def s2_def)
  moreover have "abs_sys s3 = spec_op (Op_set t e) (abs_sys s)" using a(3) a2 False by simp
  moreover have "frame s s2" using d(4) by (simp add: s2_def)
  then have "frame s s3" using a(4) by (rule frame_trans)
  moreover have "softirq s \<le> softirq s3" using d(5) a(5) by (simp add: s2_def)
  moreover have f2: "tcpu (tmr s2 x) = tcpu (tmr s x)" "expires (tmr s2 x) = (if x = t then e else expires (tmr s x))" for x
    using arg_cong [OF a2, of "\<lambda>A. a_cpu (A x)"] arg_cong [OF a2, of "\<lambda>A. a_expires (A x)"] by auto
  then have "softirq s3 (tcpu (tmr s t))"
    if "\<forall>x. x \<noteq> t \<longrightarrow> a_stat (abs_sys s x) = Active \<longrightarrow> tcpu (tmr s x) = tcpu (tmr s t) \<longrightarrow> e < expires (tmr s x)"
    using a(6) that a2 f2 by simp
  ultimately show ?thesis using a(2) by blast
qed

lemma stop_timer_correct:
  assumes inv: "timer_inv s" and u: "a_stat (abs_sys s t) \<noteq> Unused"
  shows "\<exists>s'. stop_timer t s = Some s' \<and> timer_inv s' \<and> abs_sys s' = spec_op (Op_stop t) (abs_sys s)
    \<and> frame s s' \<and> softirq s \<le> softirq s'"
proof (cases "a_stat (abs_sys s t) = Killed")
  case True
  then show ?thesis using inv timer_lock_iff [OF inv u] by (simp add: stop_timer_def)
next
  case False
  then show ?thesis
    using deactivate_if_active_correct [OF inv stat_cases [OF u False]] timer_lock_iff [OF inv u]
    by (auto simp: stop_timer_def)
qed

lemma init_timer_correct:
  assumes inv: "timer_inv s" and u: "a_stat (abs_sys s t) \<in> {Unused, Killed}" and c: "c < TIMER_CPU_killed"
  shows "\<exists>s'. init_timer t fn data c s = Some s' \<and> timer_inv s'
    \<and> abs_sys s' = spec_op (Op_init t fn data c) (abs_sys s) \<and> frame s s' \<and> softirq s \<le> softirq s'"
proof -
  let ?f = "\<lambda>r. \<lparr>expires = 0, heap_offset = 0, callback = fn, cb_data = data, tcpu = c, status = TIMER_inactive\<rparr>"
  let ?g = "\<lambda>r. r\<lparr>status := TIMER_invalid\<rparr>"
  have cm: "c mod 2 ^ 16 = c" using c by (simp add: TIMER_CPU_killed_def)
  have "timer_inv (upd_timer t ?g s)"
    using u a_stat_status [of s t] by (intro upd_unused [OF inv]) (auto simp: killed_ok_def)
  then have "timer_inv (inactive_add c t (upd_timer t ?f (upd_timer t ?g s)))"
    using c by (intro become_idle) simp_all
  moreover have "upd_timer t ?f (upd_timer t ?g s) = upd_timer t ?f s" by (simp add: upd_timer_def)
  ultimately have "timer_inv (inactive_add c t (upd_timer t ?f s))" by simp
  moreover have "init_timer t fn data c s = Some (inactive_add c t (upd_timer t ?f s))"
    using c unfolding init_timer_def cm by (simp add: timer_lock_def)
  ultimately show ?thesis by (simp add: abs_timer_def)
qed

lemma move_idle:
  assumes inv: "timer_inv s" and idle: "a_stat (abs_sys s t) = Idle" and c: "new < TIMER_CPU_killed"
  shows "\<exists>s1. inactive_del (tcpu (tmr s t)) t s = Some s1
    \<and> timer_inv (inactive_add new t (upd_timer t (\<lambda>r. r\<lparr>tcpu := new mod 2 ^ 16\<rparr>) s1))
    \<and> abs_sys s1 = abs_sys s \<and> tmr s1 = tmr s \<and> frame s s1 \<and> softirq s1 = softirq s
    \<and> cpus s1 = (cpus s)(tcpu (tmr s t) := (cpus s (tcpu (tmr s t)))\<lparr>inactive := remove1 t (inactive (cpus s (tcpu (tmr s t))))\<rparr>)"
proof -
  let ?c = "tcpu (tmr s t)" and ?g = "\<lambda>r. r\<lparr>status := TIMER_invalid\<rparr>" and ?h = "\<lambda>r. r\<lparr>tcpu := new, status := TIMER_inactive\<rparr>"
  let ?s1 = "upd_cpu ?c (\<lambda>ts. ts\<lparr>inactive := remove1 t (inactive ts)\<rparr>) s"
  have st: "status (tmr s t) = TIMER_inactive" using idle a_stat_status by simp
  have cm: "new mod 2 ^ 16 = new" using c by (simp add: TIMER_CPU_killed_def)
  have "timer_inv (upd_timer t ?g ?s1)" by (rule leave_idle(2) [OF inv st refl]) (simp_all add: killed_ok_def)
  then have "timer_inv (inactive_add new t (upd_timer t ?h (upd_timer t ?g ?s1)))"
    using c by (intro become_idle) simp_all
  moreover have "upd_timer t ?h (upd_timer t ?g ?s1) = upd_timer t (\<lambda>r. r\<lparr>tcpu := new\<rparr>) ?s1"
  proof -
    have "(tmr s t)\<lparr>tcpu := new, status := TIMER_inactive\<rparr> = (tmr s t)\<lparr>tcpu := new\<rparr>" using st by simp
    then show ?thesis by (simp add: upd_timer_def)
  qed
  ultimately have "timer_inv (inactive_add new t (upd_timer t (\<lambda>r. r\<lparr>tcpu := new mod 2 ^ 16\<rparr>) ?s1))" unfolding cm by simp
  moreover have "inactive_del ?c t s = Some ?s1"
    by (rule leave_idle(1) [OF inv st refl, of ?g]) (simp_all add: killed_ok_def)
  ultimately show ?thesis by simp
qed

lemma migrate_timer_correct:
  assumes inv: "timer_inv s" and u: "a_stat (abs_sys s t) \<noteq> Unused" and c: "new < TIMER_CPU_killed"
  shows "\<exists>s'. migrate_timer t new s = Some s' \<and> timer_inv s' \<and> abs_sys s' = spec_op (Op_migrate t new) (abs_sys s)
    \<and> frame s s' \<and> softirq s \<le> softirq s'"
proof (cases "a_stat (abs_sys s t) = Killed \<or> tcpu (tmr s t) = new")
  case True
  have "spec_op (Op_migrate t new) (abs_sys s) = abs_sys s"
  proof -
    have "(abs_sys s t)\<lparr>a_cpu := new\<rparr> = abs_sys s t" if "tcpu (tmr s t) = new" using that by (simp add: abs_sys_def abs_timer_def)
    then show ?thesis using True by auto
  qed
  moreover have "migrate_timer t new s = Some s"
    using True timer_lock_iff [OF inv u] by (auto simp: migrate_timer_def timer_lock_def)
  ultimately show ?thesis using inv by simp
next
  case False
  let ?old = "tcpu (tmr s t)" and ?act = "a_stat (abs_sys s t) = Active" and ?f = "\<lambda>r. r\<lparr>tcpu := new mod 2 ^ 16\<rparr>"
  have lock: "?old \<noteq> TIMER_CPU_killed" using False timer_lock_iff [OF inv u] by (simp add: timer_lock_def)
  have cm: "new mod 2 ^ 16 = new" using c by (simp add: TIMER_CPU_killed_def)
  have sc: "a_stat (abs_sys s t) \<in> {Idle, Active}" using stat_cases u False by blast
  obtain s1 where d: "deactivate_if_active t s = Some (?act, s1)" "timer_inv s1"
    "abs_sys s1 = (abs_sys s)(t := (abs_sys s t)\<lparr>a_stat := Idle\<rparr>)" "frame s s1" "softirq s \<le> softirq s1"
    using deactivate_if_active_correct [OF inv sc] by blast
  have c1: "tcpu (tmr s1 t) = ?old" using arg_cong [OF d(3), of "\<lambda>A. a_cpu (A t)"] by simp
  have "a_stat (abs_sys s1 t) = Idle" by (simp add: d(3))
  from move_idle [OF d(2) this c] obtain s2 where m: "inactive_del ?old t s1 = Some s2"
    "timer_inv (inactive_add new t (upd_timer t ?f s2))" "abs_sys s2 = abs_sys s1" "tmr s2 = tmr s1" "frame s1 s2" "softirq s2 = softirq s1"
    unfolding c1 by blast
  define s3 where "s3 = inactive_add new t (upd_timer t ?f s2)"
  have a3: "abs_sys s3 = (abs_sys s)(t := (abs_sys s t)\<lparr>a_cpu := new, a_stat := Idle\<rparr>)"
    using d(3) m(3,4) by (simp add: s3_def cm [simplified] abs_sys_def [of s1 t, symmetric])
  have f3: "frame s s3" "softirq s \<le> softirq s3" "timer_inv s3"
    using frame_trans [OF d(4) m(5)] d(5) m(2,6) by (simp_all add: s3_def)
  show ?thesis
  proof (cases ?act)
    case True
    have "a_stat (abs_sys s3 t) = Idle" by (simp add: a3)
    from activate_timer_correct [OF f3(3) this] obtain s4 where a: "activate_timer t s3 = Some s4" "timer_inv s4"
      "abs_sys s4 = (abs_sys s3)(t := (abs_sys s3 t)\<lparr>a_stat := Active\<rparr>)" "frame s3 s4" "softirq s3 \<le> softirq s4" by blast
    have "migrate_timer t new s = Some s4"
      using d(1) m(1) a(1) False lock True by (simp add: migrate_timer_def Let_def s3_def)
    moreover have "abs_sys s4 = (abs_sys s)(t := (abs_sys s t)\<lparr>a_cpu := new\<rparr>)"
      using a(3) a3 True a_stat_same [of "(abs_sys s t)\<lparr>a_cpu := new\<rparr>" Active] by simp
    ultimately show ?thesis
      using False True a(2) frame_trans [OF f3(1) a(4)] order_trans [OF f3(2) a(5)] by auto
  next
    case nact: False
    then have "migrate_timer t new s = Some s3"
      using d(1) m(1) False lock by (simp add: migrate_timer_def Let_def s3_def)
    moreover have "(abs_sys s t)\<lparr>a_cpu := new, a_stat := Idle\<rparr> = (abs_sys s t)\<lparr>a_cpu := new\<rparr>"
      using sc nact by (intro a_stat_same) simp
    then have "abs_sys s3 = (abs_sys s)(t := (abs_sys s t)\<lparr>a_cpu := new\<rparr>)" unfolding a3 by (rule arg_cong)
    ultimately show ?thesis using False f3 by auto
  qed
qed

lemma kill_timer_correct:
  assumes inv: "timer_inv s" and u: "op_ok this online s (Op_kill t)"
  shows "\<exists>s'. kill_timer this online t s = Some s' \<and> timer_inv s' \<and> abs_sys s' = spec_op (Op_kill t) (abs_sys s)
    \<and> frame s s' \<and> softirq s \<le> softirq s'"
proof (cases "a_stat (abs_sys s t) = Killed")
  case True
  then show ?thesis using inv u timer_lock_iff [OF inv, of t] by (simp add: kill_timer_def)
next
  case False
  let ?c = "tcpu (tmr s t)" and ?g = "\<lambda>r. r\<lparr>status := TIMER_killed, tcpu := TIMER_CPU_killed\<rparr>"
  have lock: "timer_lock t s" using timer_lock_iff [OF inv, of t] u False by simp
  obtain s1 where d: "deactivate_if_active t s = Some (a_stat (abs_sys s t) = Active, s1)" "timer_inv s1"
    "abs_sys s1 = (abs_sys s)(t := (abs_sys s t)\<lparr>a_stat := Idle\<rparr>)" "frame s s1" "softirq s \<le> softirq s1"
    using deactivate_if_active_correct [OF inv stat_cases [of s t]] u False by auto
  have st: "status (tmr s1 t) = TIMER_inactive" using a_stat_status(2) [of s1 t] by (simp add: d(3))
  have c1: "tcpu (tmr s1 t) = ?c" using arg_cong [OF d(3), of "\<lambda>A. a_cpu (A t)"] by simp
  let ?s2 = "upd_cpu ?c (\<lambda>ts. ts\<lparr>inactive := remove1 t (inactive ts)\<rparr>) s1"
  have l: "inactive_del ?c t s1 = Some ?s2" "timer_inv (upd_timer t ?g ?s2)"
    using leave_idle [OF d(2) st c1, of ?g] by (simp_all add: killed_ok_def)
  define s3 where "s3 = upd_timer t ?g ?s2"
  have f3: "frame s s3" using d(4) by (simp add: s3_def)
  then have "\<not> (\<exists>c\<in>set online. running (cpus s3 c) = Some t)" using u by (simp add: frame_def)
  then have "kill_timer this online t s = Some s3"
    using u lock d(1) l(1) c1 by (simp add: kill_timer_def s3_def)
  moreover have "abs_sys s3 = (abs_sys s)(t := (abs_sys s t)\<lparr>a_cpu := TIMER_CPU_killed, a_stat := Killed\<rparr>)"
    by (simp add: s3_def abs_sys_def [of s1 t, symmetric] d(3))
  ultimately show ?thesis using l(2) f3 d(5) False by (simp add: s3_def)
qed

lemma run_op_correct:
  assumes "timer_inv s" "op_ok this online s op"
  shows "\<exists>s'. run_op this online op s = Some s' \<and> timer_inv s' \<and> abs_sys s' = spec_op op (abs_sys s)
    \<and> frame s s' \<and> softirq s \<le> softirq s'"
proof (cases op)
  case (Op_init t fn data c)
  then show ?thesis using init_timer_correct [OF assms(1), of t c fn data] assms(2) by simp
next
  case (Op_set t e)
  have "a_stat (abs_sys s t) \<noteq> Unused" using assms(2) Op_set by simp
  from set_timer_correct [OF assms(1) this, of e] show ?thesis unfolding Op_set run_op.simps by blast
next
  case (Op_stop t)
  then show ?thesis using stop_timer_correct [OF assms(1), of t] assms(2) by simp
next
  case (Op_migrate t c)
  then show ?thesis using migrate_timer_correct [OF assms(1), of t c] assms(2) by simp
next
  case (Op_kill t)
  then show ?thesis using kill_timer_correct [OF assms(1), of this online t] assms(2) by simp
qed

section \<open>What an operation leaves alone\<close>

text \<open>
  Whatever the state, the heap operations change nothing of a timer but its offset, so an operation
  on one timer leaves the status, CPU and expiry time of every other timer as they are.
\<close>

lemma one_changed_trans: "one_changed t a b \<Longrightarrow> one_changed t b c \<Longrightarrow> one_changed t a c"
  unfolding one_changed_def
proof (intro allI impI)
  fix x assume "\<forall>x. x \<noteq> t \<longrightarrow> b x = (a x)\<lparr>heap_offset := heap_offset (b x)\<rparr>"
    "\<forall>x. x \<noteq> t \<longrightarrow> c x = (b x)\<lparr>heap_offset := heap_offset (c x)\<rparr>" "x \<noteq> t"
  then have "b x = (a x)\<lparr>heap_offset := heap_offset (b x)\<rparr>" "c x = (b x)\<lparr>heap_offset := heap_offset (c x)\<rparr>" by auto
  then show "c x = (a x)\<lparr>heap_offset := heap_offset (c x)\<rparr>" by (metis timer.surjective timer.update_convs(2))
qed

lemma one_changed_upd_iff [simp]:
  "one_changed t a (b(t := r)) = one_changed t a b" "one_changed t (a(t := r)) b = one_changed t a b"
  by (auto simp: one_changed_def)

lemma one_changed_refl [simp]: "one_changed t tm tm"
  by (simp add: one_changed_def)

lemma one_changed_set_offset [simp]: "one_changed t tm (set_offset x p tm)"
  by (simp add: one_changed_def set_offset_def)

lemma down_loop_changes: "down_loop sz x h tm pos = Some (h', tm', pos') \<Longrightarrow> one_changed t tm tm'"
proof (induction sz x h tm pos rule: down_loop.induct)
  case (1 sz x h tm pos)
  define nxt where "nxt = (if pos * 2 + 1 \<le> sz \<and> expires (tm (h (pos * 2 + 1))) < expires (tm (h (pos * 2)))
                then pos * 2 + 1 else pos * 2)"
  show ?case
  proof (cases "pos \<noteq> 0 \<and> pos * 2 \<le> sz \<and> \<not> expires (tm x) < expires (tm (h nxt))")
    case True
    then have "down_loop sz x (h(pos := h nxt)) (set_offset (h nxt) pos tm) nxt = Some (h', tm', pos')"
      using 1(2) by (subst (asm) down_loop.simps) (simp add: Let_def nxt_def)
    then show ?thesis using 1(1) [OF _ _ nxt_def] True one_changed_trans [OF one_changed_set_offset] by blast
  next
    case False
    then have "tm' = tm" using 1(2) by (subst (asm) down_loop.simps) (auto simp: Let_def nxt_def split: if_splits)
    then show ?thesis by simp
  qed
qed

lemma up_loop_changes: "up_loop x h tm pos = (h', tm', pos') \<Longrightarrow> one_changed t tm tm'"
proof (induction x h tm pos rule: up_loop.induct)
  case (1 x h tm pos)
  show ?case
  proof (cases "pos > 1 \<and> expires (tm x) < expires (tm (h (pos div 2)))")
    case True
    then have "up_loop x (h(pos := h (pos div 2))) (set_offset (h (pos div 2)) pos tm) (pos div 2) = (h', tm', pos')"
      using 1(2) by (subst (asm) up_loop.simps) simp
    then show ?thesis using 1(1) [OF True] one_changed_trans [OF one_changed_set_offset] by blast
  next
    case False
    then have "(h, tm, pos) = (h', tm', pos')" using 1(2) by (subst (asm) up_loop.simps) (simp only: if_False)
    then show ?thesis by simp
  qed
qed

lemma up_heap_changes: "up_heap ts tm pos = (ts', tm') \<Longrightarrow> one_changed t tm tm'"
  by (auto simp: up_heap_def Let_def split: prod.splits
      intro: one_changed_trans [OF up_loop_changes one_changed_set_offset])

lemma down_heap_changes: "down_heap ts tm pos = Some (ts', tm') \<Longrightarrow> one_changed t tm tm'"
  by (auto simp: down_heap_def Let_def intro: one_changed_trans [OF down_loop_changes one_changed_set_offset])

lemma heap_fix_changes: "heap_fix ts tm pos = Some (ts', tm') \<Longrightarrow> one_changed t tm tm'"
  by (auto simp: heap_fix_def split: if_splits intro: up_heap_changes down_heap_changes)

lemma remove_from_heap_changes: "remove_from_heap ts tm x = Some (ts', tm', b) \<Longrightarrow> one_changed t tm tm'"
  by (auto simp: remove_from_heap_def Let_def split: if_splits
      intro: one_changed_trans [OF one_changed_set_offset heap_fix_changes])

lemma add_to_heap_changes: "add_to_heap ts tm x = (ts', tm', b) \<Longrightarrow> one_changed t tm tm'"
  by (auto simp: add_to_heap_def Let_def split: if_splits prod.splits
      intro: one_changed_trans [OF one_changed_set_offset up_heap_changes])

lemma remove_entry_changes: "remove_entry t s = Some (rc, s') \<Longrightarrow> one_changed t (tmr s) (tmr s')"
  by (auto simp: remove_entry_def Let_def split: tstatus.splits bind_splits
      intro: remove_from_heap_changes)

lemma add_entry_changes: "add_entry t s = Some (rc, s') \<Longrightarrow> one_changed t (tmr s) (tmr s')"
  by (auto simp: add_entry_def Let_def dest!: add_to_heap_changes [where t = t] split: if_splits prod.splits)

lemma inactive_del_changes: "inactive_del c t s = Some s' \<Longrightarrow> tmr s' = tmr s"
  by (auto simp: inactive_del_def split: if_splits)

lemma activate_timer_changes: "activate_timer t s = Some s' \<Longrightarrow> one_changed t (tmr s) (tmr s')"
  by (auto simp: activate_timer_def dest!: add_entry_changes inactive_del_changes split: if_splits bind_splits)

lemma deactivate_timer_changes: "deactivate_timer t s = Some s' \<Longrightarrow> one_changed t (tmr s) (tmr s')"
  by (auto simp: deactivate_timer_def dest!: remove_entry_changes split: if_splits bind_splits)

lemma deactivate_if_active_changes: "deactivate_if_active t s = Some (a, s') \<Longrightarrow> one_changed t (tmr s) (tmr s')"
  by (auto simp: deactivate_if_active_def dest!: deactivate_timer_changes split: if_splits bind_splits)

fun op_target :: "timer_op \<Rightarrow> nat" where
  "op_target (Op_init t _ _ _) = t"
| "op_target (Op_set t _) = t"
| "op_target (Op_stop t) = t"
| "op_target (Op_migrate t _) = t"
| "op_target (Op_kill t) = t"

lemma run_op_changes: "run_op this online op s = Some s' \<Longrightarrow> one_changed (op_target op) (tmr s) (tmr s')"
  by (cases op; auto simp: init_timer_def set_timer_def stop_timer_def migrate_timer_def kill_timer_def Let_def
      dest!: deactivate_if_active_changes activate_timer_changes inactive_del_changes split: if_splits bind_splits;
      erule one_changed_trans; assumption)

section \<open>Callbacks\<close>

fun ops_ok :: "nat \<Rightarrow> nat list \<Rightarrow> tsys \<Rightarrow> timer_op list \<Rightarrow> bool" where
  "ops_ok this online s [] \<longleftrightarrow> True"
| "ops_ok this online s (op # ops) \<longleftrightarrow>
     op_ok this online s op \<and> (case run_op this online op s of None \<Rightarrow> False | Some s' \<Rightarrow> ops_ok this online s' ops)"

lemma run_ops_correct:
  assumes "timer_inv s" "ops_ok this online s ops"
  shows "\<exists>s'. run_ops this online ops s = Some s' \<and> timer_inv s' \<and> abs_sys s' = fold spec_op ops (abs_sys s)
    \<and> frame s s' \<and> softirq s \<le> softirq s'"
  using assms
proof (induction ops arbitrary: s)
  case (Cons op ops)
  obtain s1 where r: "run_op this online op s = Some s1" "timer_inv s1" "abs_sys s1 = spec_op op (abs_sys s)"
    "frame s s1" "softirq s \<le> softirq s1"
    using run_op_correct [of s this online op] Cons.prems by auto
  have "ops_ok this online s1 ops" using Cons.prems(2) r(1) by simp
  from Cons.IH [OF r(2) this] obtain s2 where s2: "run_ops this online ops s1 = Some s2" "timer_inv s2"
    "abs_sys s2 = fold spec_op ops (abs_sys s1)" "frame s1 s2" "softirq s1 \<le> softirq s2" by blast
  then show ?case using r frame_trans [OF r(4) s2(4)] order_trans [OF r(5) s2(5)] by simp
qed simp

text \<open>
  A callback that neither sets a timer in the past nor brings one to this CPU. Such an operation
  makes no timer of the CPU expired, in the heap or in the list.
\<close>

fun gentle :: "int \<Rightarrow> nat \<Rightarrow> timer_op \<Rightarrow> bool" where
  "gentle now c (Op_set t e) \<longleftrightarrow> now \<le> e"
| "gentle now c (Op_migrate t c') \<longleftrightarrow> c' \<noteq> c"
| "gentle now c _ \<longleftrightarrow> True"

definition late :: "tsys \<Rightarrow> nat \<Rightarrow> int \<Rightarrow> tstatus \<Rightarrow> nat set" where
  "late s c now st = {t \<in> placed (tmr s) c st. expires (tmr s t) < now}"

lemma late_mono:
  assumes inv: "timer_inv s" "op_ok this online s op" and run: "run_op this online op s = Some s'"
    and g: "gentle now c op" and st: "st \<in> {TIMER_in_heap, TIMER_in_list}"
  shows "late s' c now st \<subseteq> late s c now st"
proof
  fix x assume x: "x \<in> late s' c now st"
  show "x \<in> late s c now st"
  proof (cases "x = op_target op")
    case False
    then show ?thesis
      using x one_changed_fields [OF run_op_changes [OF run] False] by (simp add: late_def placed_def)
  next
    case True
    have a: "abs_sys s' = spec_op op (abs_sys s)" using run_op_correct [OF inv] run by auto
    have act: "a_stat (abs_sys s' x) = Active" "a_cpu (abs_sys s' x) = c" "a_expires (abs_sys s' x) < now"
      using x st by (auto simp: late_def placed_def a_stat_status)
    have "a_stat (abs_sys s x) \<noteq> Killed" using act(1) True unfolding a by (cases op) auto
    then have "op_ok this online s op \<longrightarrow> False"
      using act g True unfolding a by (cases op) (auto simp del: abs_fields)
    then show ?thesis using inv(2) by blast
  qed
qed

section \<open>Running expired timers\<close>

definition callbacks_ok :: "callbacks \<Rightarrow> nat list \<Rightarrow> nat \<Rightarrow> bool" where
  "callbacks_ok cb online c \<longleftrightarrow> (\<forall>fn d s. timer_inv s \<longrightarrow> ops_ok c online s (cb fn d s))"

definition callbacks_gentle :: "callbacks \<Rightarrow> int \<Rightarrow> nat \<Rightarrow> bool" where
  "callbacks_gentle cb now c \<longleftrightarrow> (\<forall>fn d s. \<forall>op\<in>set (cb fn d s). gentle now c op)"

text \<open>What a run of a callback on CPU \<open>c\<close> leaves alone.\<close>

definition quiet_cpu :: "nat \<Rightarrow> tsys \<Rightarrow> tsys \<Rightarrow> bool" where
  "quiet_cpu c s s' \<longleftrightarrow> timer_deadline s' = timer_deadline s \<and> (\<forall>d. heap_limit (cpus s' d) = heap_limit (cpus s d))
     \<and> (\<forall>d. d \<noteq> c \<longrightarrow> running (cpus s' d) = running (cpus s d)) \<and> softirq s \<le> softirq s'"

lemma quiet_cpu_refl [simp]: "quiet_cpu c s s"
  by (simp add: quiet_cpu_def)

lemma quiet_cpu_trans: "quiet_cpu c s s' \<Longrightarrow> quiet_cpu c s' s'' \<Longrightarrow> quiet_cpu c s s''"
  by (auto simp: quiet_cpu_def intro: order_trans)

lemma quiet_cpu_frame: "frame s s' \<Longrightarrow> softirq s \<le> softirq s' \<Longrightarrow> quiet_cpu c s s'"
  by (simp add: quiet_cpu_def frame_def)

lemma timer_inv_running [simp]: "timer_inv (upd_cpu c (\<lambda>ts. ts\<lparr>running := r\<rparr>) s) = timer_inv s"
  by (auto simp: timer_inv_def cpu_inv_def)

lemma quiet_cpu_running [simp]:
  "quiet_cpu c s (upd_cpu c (\<lambda>ts. ts\<lparr>running := r\<rparr>) s') = quiet_cpu c s s'"
  "quiet_cpu c (upd_cpu c (\<lambda>ts. ts\<lparr>running := r\<rparr>) s) s' = quiet_cpu c s s'"
  by (auto simp: quiet_cpu_def)

lemma run_ops_late:
  assumes "timer_inv s" "ops_ok this online s ops" "run_ops this online ops s = Some s'"
    "\<forall>op\<in>set ops. gentle now c op" "st \<in> {TIMER_in_heap, TIMER_in_list}"
  shows "late s' c now st \<subseteq> late s c now st"
  using assms
proof (induction ops arbitrary: s)
  case (Cons op ops)
  obtain s1 where r: "run_op this online op s = Some s1" "timer_inv s1"
    using run_op_correct [of s this online op] Cons.prems(1,2) by auto
  have "late s1 c now st \<subseteq> late s c now st"
    using Cons.prems late_mono [OF Cons.prems(1) _ r(1)] by simp
  moreover have "late s' c now st \<subseteq> late s1 c now st" using Cons.IH [OF r(2)] Cons.prems r(1) by simp
  ultimately show ?case by blast
qed simp

lemma execute_timer_correct:
  assumes ok: "callbacks_ok cb online c"
    and inv: "timer_inv (inactive_add c t (upd_timer t (\<lambda>r. r\<lparr>status := TIMER_inactive\<rparr>) s))" (is "timer_inv ?s1")
  shows "\<exists>s'. execute_timer cb online c t s = Some s' \<and> timer_inv s' \<and> quiet_cpu c s s'
    \<and> (callbacks_gentle cb now c \<longrightarrow> (\<forall>st\<in>{TIMER_in_heap, TIMER_in_list}. late s' c now st \<subseteq> late ?s1 c now st))"
proof -
  let ?s2 = "upd_cpu c (\<lambda>ts. ts\<lparr>running := Some t\<rparr>) ?s1"
  let ?ops = "cb (callback (tmr s t)) (cb_data (tmr s t)) ?s2"
  have i2: "timer_inv ?s2" using inv by simp
  then have o: "ops_ok c online ?s2 ?ops" using ok by (simp add: callbacks_ok_def)
  from run_ops_correct [OF i2 o] obtain s3 where r: "run_ops c online ?ops ?s2 = Some s3" "timer_inv s3"
    "frame ?s2 s3" "softirq ?s2 \<le> softirq s3" by blast
  let ?s' = "upd_cpu c (\<lambda>ts. ts\<lparr>running := None\<rparr>) s3"
  have e: "execute_timer cb online c t s = Some ?s'" using r(1) by (simp add: execute_timer_def Let_def)
  have "quiet_cpu c s ?s1" by (simp add: quiet_cpu_def inactive_add_def)
  moreover have "quiet_cpu c ?s1 s3" using quiet_cpu_frame [OF r(3,4), of c] by simp
  ultimately have "quiet_cpu c s s3" by (rule quiet_cpu_trans)
  moreover have "late ?s' c now st \<subseteq> late ?s1 c now st"
    if "callbacks_gentle cb now c" "st \<in> {TIMER_in_heap, TIMER_in_list}" for st
    using run_ops_late [OF i2 o r(1), of now c st] that by (simp add: callbacks_gentle_def late_def)
  ultimately show ?thesis using e r(2) by simp
qed

lemma late_taken:
  assumes "one_changed t (tmr s) (tmr s')" "status (tmr s' t) = TIMER_inactive" "st \<in> {TIMER_in_heap, TIMER_in_list}"
  shows "late s' c now st = late s c now st - {t}"
proof (rule set_eqI)
  fix x
  show "x \<in> late s' c now st \<longleftrightarrow> x \<in> late s c now st - {t}"
    using one_changed_fields [OF assms(1), of x] assms(2,3) by (cases "x = t") (auto simp: late_def placed_def)
qed

text \<open>Taking the first timer out of the heap or the list and marking it inactive.\<close>

lemma take_correct:
  assumes inv: "timer_inv s" and act: "a_stat (abs_sys s t) = Active" and c: "tcpu (tmr s t) = c"
    and rm: "remove_entry t s = Some (rc, upd_timer t (\<lambda>r. r\<lparr>status := TIMER_invalid\<rparr>) s0)"
  defines "s1 \<equiv> inactive_add c t (upd_timer t (\<lambda>r. r\<lparr>status := TIMER_inactive\<rparr>) s0)"
  shows "timer_inv s1" "quiet_cpu c s s0" "st \<in> {TIMER_in_heap, TIMER_in_list} \<Longrightarrow> late s1 c now st = late s c now st - {t}"
proof -
  let ?inv = "\<lambda>r. r\<lparr>status := TIMER_invalid\<rparr>" and ?idle = "\<lambda>r. r\<lparr>status := TIMER_inactive\<rparr>"
  let ?sr = "upd_timer t ?inv s0"
  have r: "timer_inv ?sr" "abs_sys ?sr = (abs_sys s)(t := (abs_sys s t)\<lparr>a_stat := Unused\<rparr>)" "frame s ?sr" "softirq ?sr = softirq s"
    using remove_entry_correct [OF inv, of t] rm act a_stat_status(4) [of s t] by auto
  have "a_cpu (abs_sys ?sr t) = c" using r(2) c by (simp del: upd_timer_simps)
  then have "tcpu (tmr s0 t) = c" by (simp add: abs_timer_def)
  then have "timer_inv (inactive_add c t (upd_timer t ?idle ?sr))"
    using timer_inv_cpu [OF inv, of t] act c r(1) by (intro become_idle) simp_all
  moreover have "upd_timer t ?idle ?sr = upd_timer t ?idle s0" by (simp add: upd_timer_def)
  ultimately show "timer_inv s1" by (simp add: s1_def)
  show "quiet_cpu c s s0" using r(3,4) by (intro quiet_cpu_frame) simp_all
  have "one_changed t (tmr s) (tmr s1)" using remove_entry_changes [OF rm] by (simp add: s1_def)
  then show "late s1 c now st = late s c now st - {t}" if "st \<in> {TIMER_in_heap, TIMER_in_list}"
    using that by (intro late_taken) (simp_all add: s1_def)
qed

lemma cpu_inv_of: "timer_inv s \<Longrightarrow> cpu_inv (cpus s c) (tmr s) c"
  by (simp add: timer_inv_def)

lemma heap_top_placed:
  assumes "timer_inv s" "heap_size (cpus s c) \<noteq> 0"
  shows "heap (cpus s c) 1 \<in> placed (tmr s) c TIMER_in_heap"
proof -
  have "heap (cpus s c) 1 \<in> heap_ids (cpus s c)" using assms(2) by (auto simp: heap_ids_def Suc_le_eq)
  then show ?thesis using cpu_inv_of [OF assms(1), of c] by (simp add: cpu_inv_def)
qed

lemma run_heap_exec:
  assumes ok: "callbacks_ok cb online c" and inv: "timer_inv s" and ne: "heap_size (cpus s c) \<noteq> 0"
    and exp: "expires (tmr s (heap (cpus s c) 1)) < now"
  shows "\<exists>ts' tm' b s'. remove_from_heap (cpus s c) (tmr s) (heap (cpus s c) 1) = Some (ts', tm', b)
    \<and> execute_timer cb online c (heap (cpus s c) 1) (s\<lparr>tmr := tm', cpus := (cpus s)(c := ts')\<rparr>) = Some s'
    \<and> timer_inv s' \<and> quiet_cpu c s s'
    \<and> (callbacks_gentle cb now c \<longrightarrow> late s' c now TIMER_in_heap \<subset> late s c now TIMER_in_heap
          \<and> late s' c now TIMER_in_list \<subseteq> late s c now TIMER_in_list)"
proof -
  define t where "t = heap (cpus s c) 1"
  have tp: "status (tmr s t) = TIMER_in_heap" "tcpu (tmr s t) = c"
    using heap_top_placed [OF inv ne] by (simp_all add: placed_def t_def)
  have "heap_inv (cpus s c) (tmr s)" using cpu_inv_of [OF inv, of c] by (simp add: cpu_inv_def)
  then obtain ts' tm' b where r: "remove_from_heap (cpus s c) (tmr s) t = Some (ts', tm', b)"
    using remove_from_heap_correct [of "cpus s c" "tmr s" t] cpu_invD(1) [OF inv, of c t] tp by auto
  define s0 where "s0 = s\<lparr>tmr := tm', cpus := (cpus s)(c := ts')\<rparr>"
  have rm: "remove_entry t s = Some (b, upd_timer t (\<lambda>r. r\<lparr>status := TIMER_invalid\<rparr>) s0)"
    using tp r by (simp add: remove_entry_def s0_def)
  have act: "a_stat (abs_sys s t) = Active" using tp a_stat_status(4) by simp
  note tk = take_correct [OF inv act tp(2) rm]
  obtain s' where e: "execute_timer cb online c t s0 = Some s'" "timer_inv s'" "quiet_cpu c s0 s'"
    "callbacks_gentle cb now c \<longrightarrow> (\<forall>st\<in>{TIMER_in_heap, TIMER_in_list}.
       late s' c now st \<subseteq> late (inactive_add c t (upd_timer t (\<lambda>r. r\<lparr>status := TIMER_inactive\<rparr>) s0)) c now st)"
    using execute_timer_correct [OF ok tk(1)] by blast
  have "t \<in> late s c now TIMER_in_heap" using tp exp by (simp add: late_def placed_def t_def)
  then show ?thesis
    unfolding t_def [symmetric] using r e quiet_cpu_trans [OF tk(2) e(3)] tk(3)
    by (intro exI [of _ ts'] exI [of _ tm'] exI [of _ b] exI [of _ s']) (auto simp: s0_def)
qed

lemma run_heap_step:
  assumes "callbacks_ok cb online c" "timer_inv s" "heap_size (cpus s c) \<noteq> 0" "expires (tmr s (heap (cpus s c) 1)) < now"
  shows "\<exists>s'. run_heap cb online c now s = run_heap cb online c now s' \<and> timer_inv s' \<and> quiet_cpu c s s'
    \<and> (callbacks_gentle cb now c \<longrightarrow> late s' c now TIMER_in_heap \<subset> late s c now TIMER_in_heap
          \<and> late s' c now TIMER_in_list \<subseteq> late s c now TIMER_in_list)"
proof -
  obtain ts' tm' b s' where x: "remove_from_heap (cpus s c) (tmr s) (heap (cpus s c) 1) = Some (ts', tm', b)"
    "execute_timer cb online c (heap (cpus s c) 1) (s\<lparr>tmr := tm', cpus := (cpus s)(c := ts')\<rparr>) = Some s'"
    "timer_inv s'" "quiet_cpu c s s'"
    "callbacks_gentle cb now c \<longrightarrow> late s' c now TIMER_in_heap \<subset> late s c now TIMER_in_heap
          \<and> late s' c now TIMER_in_list \<subseteq> late s c now TIMER_in_list"
    using run_heap_exec [OF assms] by blast
  then have "run_heap cb online c now s = run_heap cb online c now s'"
    using assms(3,4) by (subst run_heap.simps) (simp add: Let_def del: One_nat_def)
  then show ?thesis using x by blast
qed

lemma late_finite: "timer_inv s \<Longrightarrow> finite (late s c now TIMER_in_heap)" "timer_inv s \<Longrightarrow> finite (late s c now TIMER_in_list)"
proof -
  assume "timer_inv s"
  then have "placed (tmr s) c TIMER_in_heap = heap_ids (cpus s c)" "placed (tmr s) c TIMER_in_list = set (tlist (cpus s c))"
    using cpu_inv_of [of s c] by (simp_all add: cpu_inv_def)
  then show "finite (late s c now TIMER_in_heap)" "finite (late s c now TIMER_in_list)"
    by (simp_all add: late_def heap_ids_def)
qed

lemma heap_not_late:
  assumes "timer_inv s" "heap_size (cpus s c) = 0 \<or> now \<le> expires (tmr s (heap (cpus s c) 1))"
  shows "late s c now TIMER_in_heap = {}"
proof -
  have ci: "heap_inv (cpus s c) (tmr s)" "heap_ids (cpus s c) = placed (tmr s) c TIMER_in_heap"
    using cpu_inv_of [OF assms(1), of c] by (simp_all add: cpu_inv_def)
  have "now \<le> expires (tmr s x)" if "x \<in> heap_ids (cpus s c)" for x
  proof -
    have "heap_size (cpus s c) \<noteq> 0" using that by (auto simp: heap_ids_def)
    then show ?thesis using heap_top_min [OF ci(1) that] assms(2) by simp
  qed
  then show ?thesis using ci(2) by (force simp: late_def)
qed

lemma run_heap_total:
  assumes "callbacks_ok cb online c" "callbacks_gentle cb now c" "timer_inv s"
  shows "\<exists>s'. run_heap cb online c now s = Some s' \<and> timer_inv s' \<and> quiet_cpu c s s'
    \<and> late s' c now TIMER_in_heap = {} \<and> late s' c now TIMER_in_list \<subseteq> late s c now TIMER_in_list"
  using assms(3)
proof (induction "card (late s c now TIMER_in_heap)" arbitrary: s rule: less_induct)
  case less
  show ?case
  proof (cases "heap_size (cpus s c) \<noteq> 0 \<and> expires (tmr s (heap (cpus s c) 1)) < now")
    case False
    then have "run_heap cb online c now s = Some s" by (subst run_heap.simps) (auto simp: Let_def)
    moreover have "late s c now TIMER_in_heap = {}" using False by (intro heap_not_late [OF less.prems]) auto
    ultimately show ?thesis using less.prems by simp
  next
    case True
    then obtain s1 where s1: "run_heap cb online c now s = run_heap cb online c now s1" "timer_inv s1" "quiet_cpu c s s1"
      "late s1 c now TIMER_in_heap \<subset> late s c now TIMER_in_heap" "late s1 c now TIMER_in_list \<subseteq> late s c now TIMER_in_list"
      using run_heap_step [OF assms(1) less.prems] assms(2) by blast
    have "card (late s1 c now TIMER_in_heap) < card (late s c now TIMER_in_heap)"
      using late_finite(1) [OF less.prems] s1(4) by (rule psubset_card_mono)
    from less.hyps [OF this s1(2)] show ?thesis using s1(1,3,5) quiet_cpu_trans by (metis subset_trans)
  qed
qed

lemma run_list_exec:
  assumes ok: "callbacks_ok cb online c" and inv: "timer_inv s" and ne: "tlist (cpus s c) = t # l"
    and exp: "expires (tmr s t) < now"
  shows "\<exists>s'. execute_timer cb online c t (upd_cpu c (\<lambda>ts. ts\<lparr>tlist := l\<rparr>) s) = Some s' \<and> timer_inv s' \<and> quiet_cpu c s s'
    \<and> (callbacks_gentle cb now c \<longrightarrow> late s' c now TIMER_in_list \<subset> late s c now TIMER_in_list
          \<and> late s' c now TIMER_in_heap \<subseteq> late s c now TIMER_in_heap)"
proof -
  have "t \<in> placed (tmr s) c TIMER_in_list" using cpu_inv_of [OF inv, of c] ne by (auto simp: cpu_inv_def)
  then have tp: "status (tmr s t) = TIMER_in_list" "tcpu (tmr s t) = c" by (simp_all add: placed_def)
  define s0 where "s0 = upd_cpu c (\<lambda>ts. ts\<lparr>tlist := l\<rparr>) s"
  have rm: "remove_entry t s = Some (True, upd_timer t (\<lambda>r. r\<lparr>status := TIMER_invalid\<rparr>) s0)"
    using tp ne by (simp add: remove_entry_def s0_def)
  have act: "a_stat (abs_sys s t) = Active" using tp a_stat_status(4) by simp
  note tk = take_correct [OF inv act tp(2) rm]
  obtain s' where e: "execute_timer cb online c t s0 = Some s'" "timer_inv s'" "quiet_cpu c s0 s'"
    "callbacks_gentle cb now c \<longrightarrow> (\<forall>st\<in>{TIMER_in_heap, TIMER_in_list}.
       late s' c now st \<subseteq> late (inactive_add c t (upd_timer t (\<lambda>r. r\<lparr>status := TIMER_inactive\<rparr>) s0)) c now st)"
    using execute_timer_correct [OF ok tk(1)] by blast
  have "t \<in> late s c now TIMER_in_list" using tp exp by (simp add: late_def placed_def)
  then show ?thesis
    unfolding s0_def [symmetric] using e quiet_cpu_trans [OF tk(2) e(3)] tk(3) by (intro exI [of _ s']) auto
qed

lemma run_list_step:
  assumes "callbacks_ok cb online c" "timer_inv s" "tlist (cpus s c) = t # l" "expires (tmr s t) < now"
  shows "\<exists>s'. run_list cb online c now s = run_list cb online c now s' \<and> timer_inv s' \<and> quiet_cpu c s s'
    \<and> (callbacks_gentle cb now c \<longrightarrow> late s' c now TIMER_in_list \<subset> late s c now TIMER_in_list
          \<and> late s' c now TIMER_in_heap \<subseteq> late s c now TIMER_in_heap)"
proof -
  obtain s' where x: "execute_timer cb online c t (upd_cpu c (\<lambda>ts. ts\<lparr>tlist := l\<rparr>) s) = Some s'"
    "timer_inv s'" "quiet_cpu c s s'"
    "callbacks_gentle cb now c \<longrightarrow> late s' c now TIMER_in_list \<subset> late s c now TIMER_in_list
          \<and> late s' c now TIMER_in_heap \<subseteq> late s c now TIMER_in_heap"
    using run_list_exec [OF assms] by blast
  then have "run_list cb online c now s = run_list cb online c now s'"
    using assms(3,4) by (subst run_list.simps) simp
  then show ?thesis using x by blast
qed

lemma list_not_late:
  assumes "timer_inv s" "case tlist (cpus s c) of [] \<Rightarrow> True | t # l \<Rightarrow> now \<le> expires (tmr s t)"
  shows "late s c now TIMER_in_list = {}"
proof -
  have ci: "sorted_list (tmr s) (tlist (cpus s c))" "set (tlist (cpus s c)) = placed (tmr s) c TIMER_in_list"
    using cpu_inv_of [OF assms(1), of c] by (simp_all add: cpu_inv_def)
  have "now \<le> expires (tmr s x)" if "x \<in> set (tlist (cpus s c))" for x
    using that ci(1) assms(2) by (cases "tlist (cpus s c)") auto
  then show ?thesis using ci(2) by (force simp: late_def)
qed

lemma run_list_total:
  assumes "callbacks_ok cb online c" "callbacks_gentle cb now c" "timer_inv s"
  shows "\<exists>s'. run_list cb online c now s = Some s' \<and> timer_inv s' \<and> quiet_cpu c s s'
    \<and> late s' c now TIMER_in_list = {} \<and> late s' c now TIMER_in_heap \<subseteq> late s c now TIMER_in_heap"
  using assms(3)
proof (induction "card (late s c now TIMER_in_list)" arbitrary: s rule: less_induct)
  case less
  show ?case
  proof (cases "case tlist (cpus s c) of [] \<Rightarrow> True | t # l \<Rightarrow> now \<le> expires (tmr s t)")
    case True
    then have "run_list cb online c now s = Some s" by (subst run_list.simps) (auto split: list.splits)
    then show ?thesis using less.prems list_not_late [OF less.prems True] by simp
  next
    case False
    then obtain t l where tl: "tlist (cpus s c) = t # l" "expires (tmr s t) < now" by (auto split: list.splits)
    obtain s1 where s1: "run_list cb online c now s = run_list cb online c now s1" "timer_inv s1" "quiet_cpu c s s1"
      "late s1 c now TIMER_in_list \<subset> late s c now TIMER_in_list" "late s1 c now TIMER_in_heap \<subseteq> late s c now TIMER_in_heap"
      using run_list_step [OF assms(1) less.prems tl] assms(2) by blast
    have "card (late s1 c now TIMER_in_list) < card (late s c now TIMER_in_list)"
      using late_finite(2) [OF less.prems] s1(4) by (rule psubset_card_mono)
    from less.hyps [OF this s1(2)] show ?thesis using s1(1,3,5) quiet_cpu_trans by (metis subset_trans)
  qed
qed

section \<open>Moving the list to the heap\<close>

text \<open>
  While the handler moves the overflow list, the timers still to be moved say that they are in the
  list and are not. The state is well formed once they are masked, and masking commutes with
  \<^verbatim>\<open>add_entry\<close>, which does not read the status of other timers.
\<close>

definition mask_tm :: "nat set \<Rightarrow> tstore \<Rightarrow> tstore" where
  "mask_tm X tm x = (if x \<in> X then (tm x)\<lparr>status := TIMER_invalid\<rparr> else tm x)"

definition mask_sys :: "nat set \<Rightarrow> tsys \<Rightarrow> tsys" where
  "mask_sys X s = s\<lparr>tmr := mask_tm X (tmr s)\<rparr>"

lemma mask_simps [simp]:
  "expires (mask_tm X tm x) = expires (tm x)" "tcpu (mask_tm X tm x) = tcpu (tm x)" "heap_offset (mask_tm X tm x) = heap_offset (tm x)"
  "x \<notin> X \<Longrightarrow> mask_tm X tm x = tm x" "x \<in> X \<Longrightarrow> status (mask_tm X tm x) = TIMER_invalid"
  "mask_tm {} tm = tm"
  by (simp_all add: mask_tm_def fun_eq_iff)

lemma mask_set_offset [simp]: "set_offset t p (mask_tm X tm) = mask_tm X (set_offset t p tm)"
  by (auto simp: set_offset_def mask_tm_def fun_eq_iff)

lemma mask_upd [simp]: "t \<notin> X \<Longrightarrow> (mask_tm X tm)(t := r) = mask_tm X (tm(t := r))"
  by (auto simp: mask_tm_def fun_eq_iff)

lemma up_loop_mask: "up_loop t h (mask_tm X tm) pos = (case up_loop t h tm pos of (h', tm', p) \<Rightarrow> (h', mask_tm X tm', p))"
proof (induction t h tm pos rule: up_loop.induct)
  case (1 t h tm pos)
  show ?case
  proof (cases "pos > 1 \<and> expires (tm t) < expires (tm (h (pos div 2)))")
    case True
    show ?thesis
      unfolding up_loop.simps [of t h "mask_tm X tm" pos] up_loop.simps [of t h tm pos] mask_simps mask_set_offset
        if_P [OF True] by (rule 1 [OF True])
  next
    case False
    show ?thesis
      unfolding up_loop.simps [of t h "mask_tm X tm" pos] up_loop.simps [of t h tm pos] mask_simps if_not_P [OF False]
      by simp
  qed
qed

lemma up_heap_mask: "up_heap ts (mask_tm X tm) pos = (case up_heap ts tm pos of (ts', tm') \<Rightarrow> (ts', mask_tm X tm'))"
  by (simp add: up_heap_def Let_def up_loop_mask split: prod.splits)

lemma add_to_heap_mask:
  "add_to_heap ts (mask_tm X tm) t = (case add_to_heap ts tm t of (ts', tm', b) \<Rightarrow> (ts', mask_tm X tm', b))"
  by (simp add: add_to_heap_def Let_def up_heap_mask split: prod.splits)

lemma add_to_list_mask [simp]: "add_to_list (mask_tm X tm) l t = add_to_list tm l t"
  by (induction l) auto

lemma add_entry_mask:
  assumes "t \<notin> X"
  shows "add_entry t (mask_sys X s) = map_option (\<lambda>(rc, s'). (rc, mask_sys X s')) (add_entry t s)"
proof -
  let ?c = "tcpu (tmr s t)" and ?r = "(tmr s t)\<lparr>heap_offset := 0, status := TIMER_in_heap\<rparr>"
  obtain ts' tm' b where a: "add_to_heap (cpus s ?c) ((tmr s)(t := ?r)) t = (ts', tm', b)" by (metis prod_cases3)
  have m: "add_to_heap (cpus s ?c) (mask_tm X ((tmr s)(t := ?r))) t = (ts', mask_tm X tm', b)" by (simp add: add_to_heap_mask a)
  have comm: "\<And>x y. s\<lparr>cpus := x, tmr := y\<rparr> = s\<lparr>tmr := y, cpus := x\<rparr>" by simp
  show ?thesis
    using assms a m by (simp add: add_entry_def mask_sys_def upd_timer_def upd_cpu_def Let_def comm split_beta)
qed

lemma requeue_correct:
  assumes "distinct l" "timer_inv (mask_sys (set l) s)"
    and "\<forall>t\<in>set l. status (tmr s t) = TIMER_in_list \<and> tcpu (tmr s t) < TIMER_CPU_killed"
  shows "\<exists>s'. requeue l s = Some s' \<and> timer_inv s' \<and> abs_sys s' = abs_sys s \<and> frame s s' \<and> softirq s' = softirq s"
  using assms
proof (induction l arbitrary: s)
  case Nil
  then show ?case by (simp add: mask_sys_def)
next
  case (Cons t l)
  define s1 where "s1 = upd_timer t (\<lambda>r. r\<lparr>status := TIMER_invalid\<rparr>) s"
  have tl: "t \<notin> set l" and tc: "tcpu (tmr s t) < TIMER_CPU_killed" and st: "status (tmr s t) = TIMER_in_list"
    using Cons.prems by auto
  have m: "mask_sys (set l) s1 = mask_sys (set (t # l)) s"
    using tl by (auto simp: mask_sys_def s1_def upd_timer_def mask_tm_def fun_eq_iff)
  have i1: "timer_inv (mask_sys (set l) s1)" using Cons.prems(2) m by simp
  have t1: "status (tmr (mask_sys (set l) s1) t) = TIMER_invalid" "tcpu (tmr (mask_sys (set l) s1) t) = tcpu (tmr s t)"
    using tl by (simp_all add: mask_sys_def s1_def)
  obtain rc m2 where a: "add_entry t (mask_sys (set l) s1) = Some (rc, m2)" "timer_inv m2"
    "abs_sys m2 = (abs_sys (mask_sys (set l) s1))(t := (abs_sys (mask_sys (set l) s1) t)\<lparr>a_stat := Active\<rparr>)"
    "frame (mask_sys (set l) s1) m2" "softirq m2 = softirq (mask_sys (set l) s1)"
    using add_entry_correct [OF i1 t1 tc] by blast
  then obtain s2 where s2: "add_entry t s1 = Some (rc, s2)" "m2 = mask_sys (set l) s2"
    using add_entry_mask [OF tl, of s1] by auto
  have ch: "one_changed t (tmr s) (tmr s2)" using add_entry_changes [OF s2(1)] by (simp add: s1_def)
  have "abs_sys s2 t = abs_sys m2 t" using tl by (simp add: s2(2) abs_sys_def mask_sys_def)
  also have "\<dots> = abs_sys s t" using a(3) tl st by (simp add: abs_sys_def mask_sys_def s1_def abs_timer_def)
  finally have as2: "abs_sys s2 = abs_sys s" using abs_changed [OF ch] by (metis abs_sys_def fun_upd_triv)
  have "\<forall>t\<in>set l. status (tmr s2 t) = TIMER_in_list \<and> tcpu (tmr s2 t) < TIMER_CPU_killed"
    using Cons.prems(3) tl one_changed_fields(2,3) [OF ch] by (metis list.set_intros(2))
  then obtain s' where r: "requeue l s2 = Some s'" "timer_inv s'" "abs_sys s' = abs_sys s2" "frame s2 s'" "softirq s' = softirq s2"
    using Cons.IH [of s2] Cons.prems(1) a(2) s2(2) by auto
  have "frame s s2" "softirq s2 = softirq s" using a(4,5) s2(2) by (simp_all add: frame_def mask_sys_def s1_def)
  then show ?case using r s2(1) as2 frame_trans by (auto simp: s1_def)
qed

lemma list_to_heap_correct:
  assumes inv: "timer_inv s"
  shows "\<exists>s'. list_to_heap c s = Some s' \<and> timer_inv s' \<and> abs_sys s' = abs_sys s \<and> frame s s' \<and> softirq s' = softirq s"
proof -
  let ?l = "tlist (cpus s c)" and ?s0 = "upd_cpu c (\<lambda>ts. ts\<lparr>tlist := []\<rparr>) s"
  have ci: "cpu_inv (cpus s c) (tmr s) c" by (rule cpu_inv_of [OF inv])
  then have l: "distinct ?l" "set ?l = placed (tmr s) c TIMER_in_list" by (simp_all add: cpu_inv_def)
  let ?tm = "mask_tm (set ?l) (tmr s)"
  have p: "placed ?tm c TIMER_in_list = {}" "placed ?tm c TIMER_in_heap = placed (tmr s) c TIMER_in_heap"
    "placed ?tm c TIMER_inactive = placed (tmr s) c TIMER_inactive"
    unfolding l(2) by (auto simp: placed_def mask_tm_def)
  have "heap_inv (cpus s c) ?tm"
  proof (rule heap_inv_cong)
    show "heap_inv (cpus s c) (tmr s)" using ci by (simp add: cpu_inv_def)
    fix x assume "x \<in> heap_ids (cpus s c)"
    then have "x \<in> placed (tmr s) c TIMER_in_heap" using ci by (simp add: cpu_inv_def)
    then have "x \<notin> set ?l" unfolding l(2) by (simp add: placed_def)
    then show "?tm x = tmr s x" by simp
  qed
  then have "cpu_inv ((cpus s c)\<lparr>tlist := []\<rparr>) ?tm c" using ci p by (simp add: cpu_inv_def)
  moreover have "killed_ok (?tm x)" for x
    using inv by (auto simp: mask_tm_def timer_inv_def killed_ok_def)
  moreover have "?tm x \<noteq> tmr s x \<Longrightarrow> (tcpu (tmr s x) = c \<or> status (tmr s x) \<in> {TIMER_invalid, TIMER_killed})
      \<and> (tcpu (?tm x) = c \<or> status (?tm x) \<in> {TIMER_invalid, TIMER_killed})" for x
    unfolding l(2) by (auto simp: mask_tm_def placed_def split: if_splits)
  ultimately have "timer_inv (mask_sys (set ?l) ?s0)"
    by (rule timer_inv_step [OF inv, of _ ?tm c]) (simp_all add: mask_sys_def)
  moreover have "\<forall>t\<in>set ?l. status (tmr ?s0 t) = TIMER_in_list \<and> tcpu (tmr ?s0 t) < TIMER_CPU_killed"
    using inv unfolding l(2) by (auto simp: placed_def timer_inv_def killed_ok_def)
  ultimately obtain s' where r: "requeue ?l ?s0 = Some s'" "timer_inv s'" "abs_sys s' = abs_sys ?s0" "frame ?s0 s'" "softirq s' = softirq ?s0"
    using requeue_correct [OF l(1)] by blast
  have "frame s ?s0" by (auto simp: frame_def)
  then have "frame s s'" using r(4) by (rule frame_trans)
  then show ?thesis using r by (simp add: list_to_heap_def)
qed

section \<open>The softirq handler\<close>

text \<open>The limits of the heaps: 0 for the shared empty heap, then \<open>16^k - 1\<close> until 16 bits are used up.\<close>

definition limits_ok :: "tsys \<Rightarrow> bool" where
  "limits_ok s \<longleftrightarrow> (\<forall>c. heap_limit (cpus s c) \<in> {0, 15, 255, 4095, 65535})"

lemma limits_frame: "frame s s' \<Longrightarrow> limits_ok s' = limits_ok s"
  by (simp add: limits_ok_def frame_def)

lemma limits_quiet_cpu: "quiet_cpu c s s' \<Longrightarrow> limits_ok s' = limits_ok s"
  by (simp add: limits_ok_def quiet_cpu_def)

text \<open>A heap is what its first slots hold: a larger array with the same ones is the same heap.\<close>

lemma heap_copy:
  assumes "\<And>i. i \<le> heap_size ts \<Longrightarrow> h i = heap ts i"
  shows "heap_ids (ts\<lparr>heap := h, heap_limit := l\<rparr>) = heap_ids ts"
    "\<lbrakk>heap_inv ts tm; heap_limit ts \<le> l; l < 2 ^ 16\<rbrakk> \<Longrightarrow> heap_inv (ts\<lparr>heap := h, heap_limit := l\<rparr>) tm"
proof -
  show "heap_ids (ts\<lparr>heap := h, heap_limit := l\<rparr>) = heap_ids ts"
    using assms by (auto simp: heap_ids_def intro!: image_cong)
  have inj: "inj_on h {1..heap_size ts} = inj_on (heap ts) {1..heap_size ts}"
    using assms by (intro inj_on_cong) simp
  show "heap_inv (ts\<lparr>heap := h, heap_limit := l\<rparr>) tm" if "heap_inv ts tm" "heap_limit ts \<le> l" "l < 2 ^ 16"
  proof -
    have e: "edge_ok h tm (i div 2) i = edge_ok (heap ts) tm (i div 2) i" if "i \<in> {2..heap_size ts}" for i
    proof -
      have "h (i div 2) = heap ts (i div 2)" "h i = heap ts i" using that by (auto intro!: assms)
      then show ?thesis by (simp add: edge_ok_def)
    qed
    have o: "heap_offset (tm (h i)) = heap_offset (tm (heap ts i))" if "i \<in> {1..heap_size ts}" for i
      using that assms by simp
    show ?thesis using that e o inj by (simp add: heap_inv_def offsets_ok_def)
  qed
qed

definition grown_cpu :: "(nat \<Rightarrow> nat) \<Rightarrow> timers \<Rightarrow> timers" where
  "grown_cpu newheap ts =
     ts\<lparr>heap := memcpy newheap (heap ts) (heap_limit ts + 1), heap_limit := min (2 ^ 16 - 1) (16 * heap_limit ts + 15)\<rparr>"

lemma grow_heap_grown:
  assumes "limits_ok s"
  shows "grow_heap alloc c s =
    (case alloc of Some newheap \<Rightarrow> if tlist (cpus s c) \<noteq> [] then upd_cpu c (grown_cpu newheap) s else s | None \<Rightarrow> s)"
proof -
  have "heap_limit (cpus s c) \<in> {0, 15, 255, 4095, 65535}" using assms by (simp add: limits_ok_def)
  then have "((heap_limit (cpus s c) + 1) * 16 - 1) mod 2 ^ 16 = min (2 ^ 16 - 1) (16 * heap_limit (cpus s c) + 15)" by auto
  then show ?thesis
    by (simp add: grow_heap_def grown_cpu_def SET_HEAP_LIMIT_def upd_cpu_def Let_def split: option.split)
qed

lemma grown_cpu_inv:
  assumes "cpu_inv ts tm c" "heap_limit ts < 2 ^ 16"
  shows "cpu_inv (grown_cpu newheap ts) tm c" "heap_ids (grown_cpu newheap ts) = heap_ids ts"
proof -
  let ?l = "min (2 ^ 16 - 1) (16 * heap_limit ts + 15)"
  have h: "heap_inv ts tm" using assms(1) by (simp add: cpu_inv_def)
  then have "heap_size ts \<le> heap_limit ts" by (simp add: heap_inv_def)
  then have cp: "i \<le> heap_size ts \<Longrightarrow> memcpy newheap (heap ts) (heap_limit ts + 1) i = heap ts i" for i by simp
  show ids: "heap_ids (grown_cpu newheap ts) = heap_ids ts"
    unfolding grown_cpu_def using cp by (rule heap_copy)
  have "heap_inv (grown_cpu newheap ts) tm"
    unfolding grown_cpu_def using cp h by (rule heap_copy(2)) (use assms(2) in auto)
  then show "cpu_inv (grown_cpu newheap ts) tm c"
    using assms(1) ids by (simp add: cpu_inv_def) (simp add: grown_cpu_def)
qed

lemma grow_heap_correct:
  assumes "timer_inv s" "limits_ok s"
  shows "timer_inv (grow_heap alloc c s)" "limits_ok (grow_heap alloc c s)" "tmr (grow_heap alloc c s) = tmr s"
    "softirq (grow_heap alloc c s) = softirq s" "running (cpus (grow_heap alloc c s) d) = running (cpus s d)"
proof -
  have lim: "heap_limit (cpus s c) \<in> {0, 15, 255, 4095, 65535}" using assms(2) by (simp add: limits_ok_def)
  have ci: "cpu_inv (cpus s c) (tmr s) c" by (rule cpu_inv_of [OF assms(1)])
  have g: "cpu_inv (grown_cpu newheap (cpus s c)) (tmr s) c" for newheap
    by (rule grown_cpu_inv(1) [OF ci]) (use lim in auto)
  have l: "heap_limit (grown_cpu newheap (cpus s c)) \<in> {0, 15, 255, 4095, 65535}" for newheap
    using lim by (auto simp: grown_cpu_def)
  show "timer_inv (grow_heap alloc c s)"
    using assms(1) g by (auto simp: grow_heap_grown [OF assms(2)] timer_inv_def split: option.split)
  show "limits_ok (grow_heap alloc c s)"
    using assms(2) l by (auto simp: grow_heap_grown [OF assms(2)] limits_ok_def split: option.split)
qed (simp_all add: grow_heap_def SET_HEAP_LIMIT_def Let_def split: option.split)

definition active_on :: "tsys \<Rightarrow> nat \<Rightarrow> nat set" where
  "active_on s c = {t. a_stat (abs_sys s t) = Active \<and> a_cpu (abs_sys s t) = c}"

lemma active_on_placed: "active_on s c = placed (tmr s) c TIMER_in_heap \<union> placed (tmr s) c TIMER_in_list"
  by (auto simp: active_on_def placed_def a_stat_status)

lemma next_deadline_correct:
  assumes "timer_inv s"
  shows "t \<in> active_on s c \<Longrightarrow> next_deadline c s \<le> expires (tmr s t)"
    and "next_deadline c s = STIME_MAX \<or> (\<exists>t\<in>active_on s c. expires (tmr s t) = next_deadline c s)"
proof -
  have ci: "heap_inv (cpus s c) (tmr s)" "sorted_list (tmr s) (tlist (cpus s c))"
    and a: "active_on s c = heap_ids (cpus s c) \<union> set (tlist (cpus s c))"
    using cpu_inv_of [OF assms, of c] by (simp_all add: cpu_inv_def active_on_placed)
  let ?d = "if heap_size (cpus s c) \<noteq> 0 then expires (tmr s (heap (cpus s c) 1)) else STIME_MAX"
  have nd: "next_deadline c s \<le> ?d" by (simp add: next_deadline_def Let_def split: list.splits)
  show "t \<in> active_on s c \<Longrightarrow> next_deadline c s \<le> expires (tmr s t)"
  proof -
    assume "t \<in> active_on s c"
    then consider "t \<in> heap_ids (cpus s c)" | "t \<in> set (tlist (cpus s c))" using a by blast
    then show ?thesis
    proof cases
      case 1
      then have "heap_size (cpus s c) \<noteq> 0" by (auto simp: heap_ids_def)
      then show ?thesis using nd heap_top_min [OF ci(1) 1] by simp
    next
      case 2
      then obtain x l where x: "tlist (cpus s c) = x # l" by (cases "tlist (cpus s c)") auto
      then have "next_deadline c s \<le> expires (tmr s x)" by (simp add: next_deadline_def Let_def)
      then show ?thesis using 2 ci(2) x by auto
    qed
  qed
  have "heap_size (cpus s c) \<noteq> 0 \<Longrightarrow> heap (cpus s c) 1 \<in> active_on s c"
    using a by (auto simp: heap_ids_def Suc_le_eq)
  moreover have "tlist (cpus s c) = x # l \<Longrightarrow> x \<in> active_on s c" for x l using a by simp
  ultimately show "next_deadline c s = STIME_MAX \<or> (\<exists>t\<in>active_on s c. expires (tmr s t) = next_deadline c s)"
    by (auto simp: next_deadline_def Let_def split: list.splits)
qed

lemma program_deadline_simps [simp]:
  "timer_inv (program_deadline c now slop rp s) = timer_inv s" "abs_sys (program_deadline c now slop rp s) = abs_sys s"
  "limits_ok (program_deadline c now slop rp s) = limits_ok s" "cpus (program_deadline c now slop rp s) = cpus s"
  "tmr (program_deadline c now slop rp s) = tmr s"
  by (auto simp: program_deadline_def Let_def timer_inv_def abs_sys_def limits_ok_def raise_softirq_def fun_eq_iff)

lemma softirq_total:
  assumes "callbacks_ok cb online c" "callbacks_gentle cb now c" "timer_inv s" "limits_ok s"
  shows "\<exists>s1 s'. timer_softirq_action cb online c alloc now now' slop rp s = Some s' \<and> s' = program_deadline c now' slop rp s1
    \<and> timer_inv s' \<and> limits_ok s' \<and> (\<forall>t\<in>active_on s' c. now \<le> expires (tmr s' t))"
proof -
  note g = grow_heap_correct [OF assms(3,4), of alloc c]
  obtain s1 where s1: "run_heap cb online c now (grow_heap alloc c s) = Some s1" "timer_inv s1" "quiet_cpu c (grow_heap alloc c s) s1"
    "late s1 c now TIMER_in_heap = {}" using run_heap_total [OF assms(1,2) g(1)] by blast
  obtain s2 where s2: "run_list cb online c now s1 = Some s2" "timer_inv s2" "quiet_cpu c s1 s2"
    "late s2 c now TIMER_in_list = {}" "late s2 c now TIMER_in_heap = {}"
    using run_list_total [OF assms(1,2) s1(2)] s1(4) by blast
  obtain s3 where s3: "list_to_heap c s2 = Some s3" "timer_inv s3" "abs_sys s3 = abs_sys s2" "frame s2 s3"
    using list_to_heap_correct [OF s2(2)] by blast
  have "timer_softirq_action cb online c alloc now now' slop rp s = Some (program_deadline c now' slop rp s3)"
    by (simp add: timer_softirq_action_def s1(1) s2(1) s3(1))
  moreover have "limits_ok s3" using g(2) limits_quiet_cpu [OF s1(3)] limits_quiet_cpu [OF s2(3)] limits_frame [OF s3(4)] by simp
  moreover have "now \<le> expires (tmr s3 t)" if "t \<in> active_on s3 c" for t
  proof -
    have "t \<in> active_on s2 c" "expires (tmr s3 t) = expires (tmr s2 t)"
      using that s3(3) abs_fields(2) by (simp add: active_on_def, metis)
    then show ?thesis using s2(4,5) unfolding active_on_placed by (auto simp: late_def)
  qed
  then have "\<forall>t\<in>active_on (program_deadline c now' slop rp s3) c. now \<le> expires (tmr (program_deadline c now' slop rp s3) t)"
    by (simp add: active_on_def)
  ultimately show ?thesis using s3(2) by auto
qed

end
