(* ===== verification/Timer_System.thy ===== *)
theory Timer_System
  imports Timer
begin

text \<open>
  The timer system as a whole: the invariant over every sequence of operations, softirqs and CPU
  hotplug events, the migration of a dead CPU's timers, and the properties of the timer
  component.
\<close>

section \<open>Softirqs with arbitrary callbacks\<close>

lemma run_heap_inv:
  assumes "run_heap cb online c now s = Some s'" "callbacks_ok cb online c" "timer_inv s"
  shows "timer_inv s' \<and> quiet_cpu c s s'"
proof -
  have "callbacks_ok cb online c \<longrightarrow> timer_inv s \<longrightarrow> timer_inv s' \<and> quiet_cpu c s s'"
  proof (rule run_heap.raw_induct [where P = "\<lambda>cb online c now s s'. callbacks_ok cb online c \<longrightarrow> timer_inv s \<longrightarrow> timer_inv s' \<and> quiet_cpu c s s'", OF _ assms(1)],
      intro impI)
    fix f cb online c now s s'
    assume IH: "\<And>cb online c now s s'. f cb online c now s = Some s' \<Longrightarrow> callbacks_ok cb online c \<longrightarrow> timer_inv s \<longrightarrow> timer_inv s' \<and> quiet_cpu c s s'"
      and eq: "(let ts = cpus s c; t = heap ts 1
         in if heap_size ts \<noteq> 0 \<and> expires (tmr s t) < now
            then do { (ts, tm, _) \<leftarrow> remove_from_heap ts (tmr s) t;
                      s \<leftarrow> execute_timer cb online c t (s\<lparr>tmr := tm, cpus := (cpus s)(c := ts)\<rparr>); f cb online c now s }
            else Some s) = Some s'"
      and ok: "callbacks_ok cb online c" and inv: "timer_inv s"
    show "timer_inv s' \<and> quiet_cpu c s s'"
    proof (cases "heap_size (cpus s c) \<noteq> 0 \<and> expires (tmr s (heap (cpus s c) 1)) < now")
      case True
      obtain ts' tm' b s1 where x: "remove_from_heap (cpus s c) (tmr s) (heap (cpus s c) 1) = Some (ts', tm', b)"
        "execute_timer cb online c (heap (cpus s c) 1) (s\<lparr>tmr := tm', cpus := (cpus s)(c := ts')\<rparr>) = Some s1"
        "timer_inv s1" "quiet_cpu c s s1" using run_heap_exec [OF ok inv, of now] True by blast
      then have "f cb online c now s1 = Some s'" using eq True by (simp add: Let_def del: One_nat_def)
      then show ?thesis using IH ok x(3,4) quiet_cpu_trans by blast
    next
      case False
      then have "s' = s" using eq by (auto simp: Let_def split: if_splits)
      then show ?thesis using inv by simp
    qed
  qed
  then show ?thesis using assms by blast
qed

lemma run_list_inv:
  assumes "run_list cb online c now s = Some s'" "callbacks_ok cb online c" "timer_inv s"
  shows "timer_inv s' \<and> quiet_cpu c s s'"
proof -
  have "callbacks_ok cb online c \<longrightarrow> timer_inv s \<longrightarrow> timer_inv s' \<and> quiet_cpu c s s'"
  proof (rule run_list.raw_induct [where P = "\<lambda>cb online c now s s'. callbacks_ok cb online c \<longrightarrow> timer_inv s \<longrightarrow> timer_inv s' \<and> quiet_cpu c s s'", OF _ assms(1)],
      intro impI)
    fix f cb online c now s s'
    assume IH: "\<And>cb online c now s s'. f cb online c now s = Some s' \<Longrightarrow> callbacks_ok cb online c \<longrightarrow> timer_inv s \<longrightarrow> timer_inv s' \<and> quiet_cpu c s s'"
      and eq: "(case tlist (cpus s c) of [] \<Rightarrow> Some s
         | t # l \<Rightarrow> if expires (tmr s t) < now
             then do { s \<leftarrow> execute_timer cb online c t (upd_cpu c (\<lambda>ts. ts\<lparr>tlist := l\<rparr>) s); f cb online c now s }
             else Some s) = Some s'"
      and ok: "callbacks_ok cb online c" and inv: "timer_inv s"
    show "timer_inv s' \<and> quiet_cpu c s s'"
    proof (cases "case tlist (cpus s c) of [] \<Rightarrow> True | t # l \<Rightarrow> now \<le> expires (tmr s t)")
      case True
      then have "s' = s" using eq by (auto split: list.splits)
      then show ?thesis using inv by simp
    next
      case False
      then obtain t l where tl: "tlist (cpus s c) = t # l" "expires (tmr s t) < now" by (auto split: list.splits)
      obtain s1 where x: "execute_timer cb online c t (upd_cpu c (\<lambda>ts. ts\<lparr>tlist := l\<rparr>) s) = Some s1"
        "timer_inv s1" "quiet_cpu c s s1" using run_list_exec [OF ok inv tl] by blast
      then have "f cb online c now s1 = Some s'" using eq tl by simp
      then show ?thesis using IH ok x(2,3) quiet_cpu_trans by blast
    qed
  qed
  then show ?thesis using assms by blast
qed

lemma softirq_inv:
  assumes "timer_softirq_action cb online c alloc now now' slop rp s = Some s'"
    "callbacks_ok cb online c" "timer_inv s" "limits_ok s"
  shows "timer_inv s' \<and> limits_ok s'"
proof -
  note g = grow_heap_correct [OF assms(3,4), of alloc c]
  obtain s1 s2 s3 where s: "run_heap cb online c now (grow_heap alloc c s) = Some s1" "run_list cb online c now s1 = Some s2"
    "list_to_heap c s2 = Some s3" "s' = program_deadline c now' slop rp s3"
    using assms(1) by (auto simp: timer_softirq_action_def split: bind_splits)
  have 1: "timer_inv s1" "quiet_cpu c (grow_heap alloc c s) s1" using run_heap_inv [OF s(1) assms(2) g(1)] by auto
  have 2: "timer_inv s2" "quiet_cpu c s1 s2" using run_list_inv [OF s(2) assms(2) 1(1)] by auto
  have 3: "timer_inv s3" "frame s2 s3" using list_to_heap_correct [OF 2(1), of c] s(3) by auto
  then show ?thesis using g(2) limits_quiet_cpu [OF 1(2)] limits_quiet_cpu [OF 2(2)] limits_frame [OF 3(2)] s(4) by simp
qed

section \<open>Migrating the timers of a dead CPU\<close>

lemma migrate_one:
  assumes inv: "timer_inv s" and t: "t \<in> active_on s old" and c: "new < TIMER_CPU_killed"
  shows "\<exists>rc0 s0 rc s'. remove_entry t s = Some (rc0, s0)
    \<and> add_entry t (upd_timer t (\<lambda>r. r\<lparr>tcpu := new mod 2 ^ 16\<rparr>) s0) = Some (rc, s')
    \<and> timer_inv s' \<and> abs_sys s' = (abs_sys s)(t := (abs_sys s t)\<lparr>a_cpu := new\<rparr>) \<and> frame s s' \<and> softirq s' = softirq s"
proof -
  let ?f = "\<lambda>r. r\<lparr>tcpu := new mod 2 ^ 16\<rparr>"
  have cm: "new mod 2 ^ 16 = new" using c by (simp add: TIMER_CPU_killed_def)
  have act: "a_stat (abs_sys s t) = Active" using t by (simp add: active_on_def)
  then obtain rc0 s0 where r: "remove_entry t s = Some (rc0, s0)" "timer_inv s0"
    "abs_sys s0 = (abs_sys s)(t := (abs_sys s t)\<lparr>a_stat := Unused\<rparr>)" "tmr s0 t = (tmr s t)\<lparr>status := TIMER_invalid\<rparr>"
    "frame s s0" "softirq s0 = softirq s"
    using remove_entry_correct [OF inv, of t] a_stat_status(4) [of s t] by metis
  have i1: "timer_inv (upd_timer t ?f s0)"
    using r(4) by (intro upd_unused [OF r(2)]) (simp_all add: killed_ok_def)
  have "status (tmr (upd_timer t ?f s0) t) = TIMER_invalid" "tcpu (tmr (upd_timer t ?f s0) t) = new"
    using r(4) cm by simp_all
  from add_entry_correct [OF i1 this c] obtain rc s' where a: "add_entry t (upd_timer t ?f s0) = Some (rc, s')" "timer_inv s'"
    "abs_sys s' = (abs_sys (upd_timer t ?f s0))(t := (abs_sys (upd_timer t ?f s0) t)\<lparr>a_stat := Active\<rparr>)"
    "frame (upd_timer t ?f s0) s'" "softirq s' = softirq (upd_timer t ?f s0)" by blast
  have e: "abs_timer (tmr s0 t) = (abs_sys s t)\<lparr>a_stat := Unused\<rparr>" using r(3) by (metis abs_sys_def fun_upd_same)
  have "(abs_sys s t)\<lparr>a_cpu := new, a_stat := Active\<rparr> = (abs_sys s t)\<lparr>a_cpu := new\<rparr>"
    using act by (intro a_stat_same) simp
  then have "abs_sys s' = (abs_sys s)(t := (abs_sys s t)\<lparr>a_cpu := new\<rparr>)"
    using a(3) r(3) e unfolding cm by simp
  moreover have "frame s (upd_timer t ?f s0)" using r(5) by simp
  then have "frame s s'" using a(4) by (rule frame_trans)
  ultimately show ?thesis using r(1,6) a(1,2,5) by simp
qed

lemma active_finite: "timer_inv s \<Longrightarrow> finite (active_on s c)"
proof -
  assume "timer_inv s"
  then have "active_on s c = heap_ids (cpus s c) \<union> set (tlist (cpus s c))"
    using cpu_inv_of [of s c] by (simp add: active_on_placed cpu_inv_def)
  then show ?thesis by (simp add: heap_ids_def)
qed

definition first_active :: "timers \<Rightarrow> nat option" where
  "first_active ts = (if heap_size ts \<noteq> 0 then Some (heap ts 1) else case tlist ts of [] \<Rightarrow> None | t # _ \<Rightarrow> Some t)"

lemma first_active:
  assumes "timer_inv s"
  shows "first_active (cpus s c) = Some t \<Longrightarrow> t \<in> active_on s c" "first_active (cpus s c) = None \<Longrightarrow> active_on s c = {}"
proof -
  have a: "active_on s c = heap_ids (cpus s c) \<union> set (tlist (cpus s c))"
    using cpu_inv_of [OF assms, of c] by (simp add: active_on_placed cpu_inv_def)
  show "first_active (cpus s c) = Some t \<Longrightarrow> t \<in> active_on s c"
    unfolding a by (auto simp: first_active_def heap_ids_def Suc_le_eq split: if_splits list.splits)
  show "first_active (cpus s c) = None \<Longrightarrow> active_on s c = {}"
    unfolding a by (auto simp: first_active_def heap_ids_def split: if_splits list.splits)
qed

lemma migrate_active_total:
  assumes "timer_inv s" "old \<noteq> new" "new < TIMER_CPU_killed"
  shows "\<exists>n s'. migrate_active old new notify s = Some (n, s') \<and> timer_inv s' \<and> frame s s' \<and> softirq s' = softirq s
    \<and> active_on s' old = {}
    \<and> abs_sys s' = (\<lambda>x. if x \<in> active_on s old then (abs_sys s x)\<lparr>a_cpu := new\<rparr> else abs_sys s x)"
  using assms(1)
proof (induction "card (active_on s old)" arbitrary: s notify rule: less_induct)
  case less
  show ?case
  proof (cases "first_active (cpus s old)")
    case None
    then have "migrate_active old new notify s = Some (notify, s)"
      unfolding migrate_active.simps [of old new notify s] Let_def first_active_def [symmetric] by simp
    then show ?thesis using less.prems first_active(2) [OF less.prems None] by simp
  next
    case (Some t)
    note t = first_active(1) [OF less.prems Some]
    obtain rc0 s0 rc s1 where m: "remove_entry t s = Some (rc0, s0)"
      "add_entry t (upd_timer t (\<lambda>r. r\<lparr>tcpu := new mod 2 ^ 16\<rparr>) s0) = Some (rc, s1)" "timer_inv s1"
      "abs_sys s1 = (abs_sys s)(t := (abs_sys s t)\<lparr>a_cpu := new\<rparr>)" "frame s s1" "softirq s1 = softirq s"
      using migrate_one [OF less.prems t assms(3)] by blast
    have eq: "migrate_active old new notify s = migrate_active old new (notify \<or> rc) s1"
      unfolding migrate_active.simps [of old new notify s] Let_def first_active_def [symmetric]
      using Some m(1,2) by simp
    have a1: "active_on s1 old = active_on s old - {t}"
      using assms(2) unfolding active_on_def m(4) by (auto simp del: abs_fields)
    then have "card (active_on s1 old) < card (active_on s old)"
      using active_finite [OF less.prems] t by (metis card_Diff1_less)
    from less.hyps [OF this m(3), of "notify \<or> rc"] obtain n s' where r: "migrate_active old new (notify \<or> rc) s1 = Some (n, s')"
      "timer_inv s'" "frame s1 s'" "softirq s' = softirq s1" "active_on s' old = {}"
      "abs_sys s' = (\<lambda>x. if x \<in> active_on s1 old then (abs_sys s1 x)\<lparr>a_cpu := new\<rparr> else abs_sys s1 x)" by blast
    have "abs_sys s' = (\<lambda>x. if x \<in> active_on s old then (abs_sys s x)\<lparr>a_cpu := new\<rparr> else abs_sys s x)"
      unfolding r(6) a1 m(4) using t by (auto simp: fun_eq_iff)
    then show ?thesis using eq r frame_trans [OF m(5) r(3)] m(6) by auto
  qed
qed

lemma inactive_placed: "timer_inv s \<Longrightarrow> set (inactive (cpus s c)) = placed (tmr s) c TIMER_inactive"
  using cpu_inv_of [of s c] by (simp add: cpu_inv_def)

lemma migrate_inactive_total:
  assumes "timer_inv s" "old \<noteq> new" "new < TIMER_CPU_killed" "distinct l" "set l \<subseteq> set (inactive (cpus s old))"
  shows "\<exists>s'. migrate_inactive l old new s = Some s' \<and> timer_inv s' \<and> frame s s' \<and> softirq s' = softirq s
    \<and> abs_sys s' = (\<lambda>x. if x \<in> set l then (abs_sys s x)\<lparr>a_cpu := new\<rparr> else abs_sys s x)"
  using assms(1,4,5)
proof (induction l arbitrary: s)
  case Nil
  then show ?case by simp
next
  case (Cons t l)
  let ?f = "\<lambda>r. r\<lparr>tcpu := new mod 2 ^ 16\<rparr>"
  have cm: "new mod 2 ^ 16 = new" using assms(3) by (simp add: TIMER_CPU_killed_def)
  have tp: "status (tmr s t) = TIMER_inactive" "tcpu (tmr s t) = old"
    using Cons.prems(3) inactive_placed [OF Cons.prems(1), of old] by (auto simp: placed_def)
  have "a_stat (abs_sys s t) = Idle" using tp a_stat_status by simp
  from move_idle [OF Cons.prems(1) this assms(3)] obtain s1 where m: "inactive_del old t s = Some s1"
    "timer_inv (inactive_add new t (upd_timer t ?f s1))" "abs_sys s1 = abs_sys s" "tmr s1 = tmr s" "frame s s1" "softirq s1 = softirq s"
    "cpus s1 = (cpus s)(old := (cpus s old)\<lparr>inactive := remove1 t (inactive (cpus s old))\<rparr>)"
    unfolding tp(2) by blast
  define s2 where "s2 = inactive_add new t (upd_timer t ?f s1)"
  have a2: "abs_sys s2 = (abs_sys s)(t := (abs_sys s t)\<lparr>a_cpu := new\<rparr>)"
    using m(3,4) cm [simplified] by (simp add: s2_def abs_sys_def [of s t, symmetric])
  have "inactive (cpus s2 old) = remove1 t (inactive (cpus s old))"
    using m(7) assms(2) by (simp add: s2_def inactive_add_def)
  then have "set l \<subseteq> set (inactive (cpus s2 old))"
    using Cons.prems(2,3) by (metis distinct.simps(2) in_set_remove1 list.set_intros(2) subsetD subsetI)
  then obtain s' where r: "migrate_inactive l old new s2 = Some s'" "timer_inv s'" "frame s2 s'" "softirq s' = softirq s2"
    "abs_sys s' = (\<lambda>x. if x \<in> set l then (abs_sys s2 x)\<lparr>a_cpu := new\<rparr> else abs_sys s2 x)"
    using Cons.IH [of s2] m(2) Cons.prems(2) unfolding s2_def by auto
  have "migrate_inactive (t # l) old new s = Some s'" using m(1) r(1) by (simp add: s2_def)
  moreover have "frame s s2" "softirq s2 = softirq s" using m(5,6) by (simp_all add: s2_def)
  moreover have "abs_sys s' = (\<lambda>x. if x \<in> set (t # l) then (abs_sys s x)\<lparr>a_cpu := new\<rparr> else abs_sys s x)"
    unfolding r(5) a2 using Cons.prems(2) by (auto simp: fun_eq_iff)
  ultimately show ?case using r(2,4) frame_trans [OF _ r(3)] by auto
qed

definition owned :: "tsys \<Rightarrow> nat \<Rightarrow> nat \<Rightarrow> bool" where
  "owned s c t \<longleftrightarrow> a_cpu (abs_sys s t) = c \<and> a_stat (abs_sys s t) \<in> {Idle, Active}"

lemma migrate_timers_total:
  assumes inv: "timer_inv s" and o: "old \<notin> online" "new \<in> online" and c: "new < TIMER_CPU_killed"
  shows "\<exists>s'. migrate_timers_from_cpu online new old s = Some s' \<and> timer_inv s' \<and> frame s s' \<and> softirq s \<le> softirq s'
    \<and> abs_sys s' = (\<lambda>x. if owned s old x then (abs_sys s x)\<lparr>a_cpu := new\<rparr> else abs_sys s x)"
proof -
  have ne: "old \<noteq> new" using o by auto
  obtain n s1 where m: "migrate_active old new False s = Some (n, s1)" "timer_inv s1" "frame s s1" "softirq s1 = softirq s"
    "abs_sys s1 = (\<lambda>x. if x \<in> active_on s old then (abs_sys s x)\<lparr>a_cpu := new\<rparr> else abs_sys s x)"
    using migrate_active_total [OF inv ne c] by blast
  have "distinct (inactive (cpus s1 old))" using cpu_inv_of [OF m(2), of old] by (simp add: cpu_inv_def)
  from migrate_inactive_total [OF m(2) ne c this subset_refl] obtain s2 where
    r: "migrate_inactive (inactive (cpus s1 old)) old new s1 = Some s2" "timer_inv s2" "frame s1 s2" "softirq s2 = softirq s1"
      "abs_sys s2 = (\<lambda>x. if x \<in> set (inactive (cpus s1 old)) then (abs_sys s1 x)\<lparr>a_cpu := new\<rparr> else abs_sys s1 x)" by blast
  have i: "x \<in> set (inactive (cpus s1 old)) \<longleftrightarrow> a_stat (abs_sys s1 x) = Idle \<and> a_cpu (abs_sys s1 x) = old" for x
    using inactive_placed [OF m(2), of old] by (simp add: placed_def a_stat_status)
  have "abs_sys s2 = (\<lambda>x. if owned s old x then (abs_sys s x)\<lparr>a_cpu := new\<rparr> else abs_sys s x)"
    unfolding r(5) i m(5) using ne by (auto simp: fun_eq_iff owned_def active_on_def simp del: abs_fields)
  moreover have "migrate_timers_from_cpu online new old s = Some (if n then raise_softirq new s2 else s2)"
    using o m(1) r(1) by (simp add: migrate_timers_from_cpu_def)
  ultimately show ?thesis
    using r(2,4) m(4) frame_trans [OF m(3) r(3)] raise_softirq_mono(1) [of s2 new] by auto
qed

section \<open>Reachable states\<close>

text \<open>
  A step is an operation called within its contract, a softirq on a CPU, whose pending flag is
  cleared when it is taken, or a CPU hotplug event. A CPU is brought up when no timer is on it.
\<close>

inductive tstep :: "tsys \<Rightarrow> tsys \<Rightarrow> bool" where
  step_op: "op_ok this online s op \<Longrightarrow> run_op this online op s = Some s' \<Longrightarrow> tstep s s'"
| step_softirq: "callbacks_ok cb online c \<Longrightarrow>
    timer_softirq_action cb online c alloc now now' slop rp (s\<lparr>softirq := (softirq s)(c := False)\<rparr>) = Some s' \<Longrightarrow> tstep s s'"
| step_up: "(\<And>t. \<not> owned s c t) \<Longrightarrow> cpu_callback online new CPU_UP_PREPARE c s = Some s' \<Longrightarrow> tstep s s'"
| step_dead: "action \<in> {CPU_UP_CANCELED, CPU_DEAD} \<Longrightarrow> new < TIMER_CPU_killed \<Longrightarrow>
    cpu_callback online new action c s = Some s' \<Longrightarrow> tstep s s'"

lemma prepare_inv:
  assumes inv: "timer_inv s" and free: "\<And>t. \<not> owned s c t" and eq: "cpu_callback online new CPU_UP_PREPARE c s = Some s'"
  shows "timer_inv s'"
proof -
  let ?ts = "(cpus s c)\<lparr>inactive := [], heap_size := 0, heap_limit := 0\<rparr>"
  have p: "placed (tmr s) c st = {}" if "st \<in> {TIMER_in_heap, TIMER_in_list, TIMER_inactive}" for st
    using free that by (auto simp: placed_def owned_def a_stat_status)
  have ci: "cpu_inv (cpus s c) (tmr s) c" by (rule cpu_inv_of [OF inv])
  then have "tlist (cpus s c) = []" using p by (simp add: cpu_inv_def)
  then have "cpu_inv ?ts (tmr s) c" using p by (simp add: cpu_inv_def heap_inv_def offsets_ok_def heap_ids_def)
  then show ?thesis using inv eq by (auto simp: cpu_callback_def timer_inv_def)
qed

lemma prepare_limits:
  assumes "limits_ok s" "cpu_callback online new CPU_UP_PREPARE c s = Some s'"
  shows "limits_ok s'"
proof -
  have "s' = upd_cpu c (\<lambda>ts. ts\<lparr>inactive := [], heap_size := 0, heap_limit := 0\<rparr>) s" using assms(2) by (simp add: cpu_callback_def)
  then show ?thesis using assms(1) by (simp add: limits_ok_def)
qed

lemma tstep_inv:
  assumes "tstep s s'" "timer_inv s" "limits_ok s"
  shows "timer_inv s' \<and> limits_ok s'"
  using assms
proof (induction rule: tstep.induct)
  case (step_op this online s op s')
  then show ?case using run_op_correct [of s this online op] limits_frame [of s s'] by auto
next
  case (step_softirq cb online c alloc now now' slop rp s s')
  then have "timer_inv (s\<lparr>softirq := (softirq s)(c := False)\<rparr>)" "limits_ok (s\<lparr>softirq := (softirq s)(c := False)\<rparr>)"
    by (simp_all add: timer_inv_def limits_ok_def)
  then show ?case using softirq_inv [OF step_softirq(2,1)] by blast
next
  case (step_up s c online new s')
  then show ?case using prepare_inv [OF step_up(3,1,2)] prepare_limits by blast
next
  case (step_dead action new online c s s')
  then have eq: "migrate_timers_from_cpu online new c s = Some s'" by (auto simp: cpu_callback_def)
  then have "c \<notin> online" "new \<in> online" by (auto simp: migrate_timers_from_cpu_def split: if_splits)
  from migrate_timers_total [OF step_dead(4) this step_dead(2)] show ?case
    using eq step_dead(5) limits_frame by auto
qed

lemma zero_tsys_inv: "timer_inv zero_tsys" "limits_ok zero_tsys"
  by (simp_all add: timer_inv_def limits_ok_def zero_tsys_def cpu_inv_def heap_inv_def offsets_ok_def heap_ids_def
      placed_def killed_ok_def)

lemma timer_init_inv:
  assumes "timer_init b = Some s"
  shows "timer_inv s" "limits_ok s"
proof -
  have "\<not> owned zero_tsys b t" for t by (simp add: owned_def abs_sys_def abs_timer_def zero_tsys_def)
  then show "timer_inv s" using prepare_inv [OF zero_tsys_inv(1)] assms unfolding timer_init_def by blast
  show "limits_ok s" using assms zero_tsys_inv(2) prepare_limits unfolding timer_init_def by blast
qed

lemma tsteps_inv: "tstep\<^sup>*\<^sup>* s s' \<Longrightarrow> timer_inv s \<Longrightarrow> limits_ok s \<Longrightarrow> timer_inv s' \<and> limits_ok s'"
  by (induction rule: rtranclp_induct) (auto dest: tstep_inv)

section \<open>Examples\<close>

text \<open>A CPU with one initialised timer, and a callback table that does nothing.\<close>

definition example_sys :: tsys where
  "example_sys = the (init_timer 1 5 6 0 zero_tsys)"

lemma example_sys_inv: "timer_inv example_sys" "limits_ok example_sys" "a_stat (abs_sys example_sys 1) = Idle"
  "tstep zero_tsys example_sys"
proof -
  have u: "a_stat (abs_sys zero_tsys 1) \<in> {Unused, Killed}" by (simp add: abs_sys_def abs_timer_def zero_tsys_def)
  have c: "0 < TIMER_CPU_killed" by (simp add: TIMER_CPU_killed_def)
  obtain s where s: "init_timer 1 5 6 0 zero_tsys = Some s" "timer_inv s"
    "abs_sys s = spec_op (Op_init 1 5 6 0) (abs_sys zero_tsys)" "frame zero_tsys s"
    using init_timer_correct [OF zero_tsys_inv(1) u c, of 5 6] by blast
  then have e: "example_sys = s" by (simp add: example_sys_def)
  show "timer_inv example_sys" "limits_ok example_sys" using e s limits_frame zero_tsys_inv(2) by auto
  show "a_stat (abs_sys example_sys 1) = Idle" unfolding e s(3) by simp
  show "tstep zero_tsys example_sys"
    unfolding e by (rule step_op [of 0 "[]" _ "Op_init 1 5 6 0"]) (use u c s(1) in simp_all)
qed

lemma no_callbacks: "callbacks_ok (\<lambda>_ _ _. []) online c" "callbacks_gentle (\<lambda>_ _ _. []) now c"
  by (simp_all add: callbacks_ok_def callbacks_gentle_def)

section \<open>Properties\<close>

text \<open>
  Property C23. The timer system keeps its invariant. In every state that is reached from boot by
  timer operations called within their contract, softirqs whose callbacks keep to it and CPU
  hotplug, every CPU's heap is in order with every timer at its recorded offset, the overflow
  list is sorted, every timer is in exactly the container its status names, on the CPU it
  names, and an operation called within its contract never runs into a BUG, a failed assertion
  or a null pointer.
\<close>

theorem timer_reachable_safe:
  assumes "timer_init boot = Some s0" "tstep\<^sup>*\<^sup>* s0 s"
  shows "timer_inv s \<and> limits_ok s \<and> (\<forall>this online op. op_ok this online s op \<longrightarrow> (\<exists>s'. run_op this online op s = Some s'))"
  using tsteps_inv [OF assms(2) timer_init_inv [OF assms(1)]] run_op_correct by blast

theorem timer_reachable_safe_witness:
  "\<exists>s0. timer_init 0 = Some s0 \<and> timer_inv s0 \<and> limits_ok s0
     \<and> (\<forall>this online op. op_ok this online s0 op \<longrightarrow> (\<exists>s'. run_op this online op s0 = Some s'))"
proof -
  obtain s0 where "timer_init 0 = Some s0" by (simp add: timer_init_def cpu_callback_def)
  then show ?thesis using timer_reachable_safe [of 0 s0 s0] by blast
qed

text \<open>
  Property C24. The timer operations implement the abstract timer system: on a state that satisfies
  the invariant, an operation called within its contract has, on the timers' expiry times,
  callbacks, CPUs and states, exactly the effect of the abstract operation. A killed timer can
  be neither set, stopped, moved nor killed again, only initialised anew.
\<close>

theorem timer_ops_refine:
  assumes "timer_inv s" "op_ok this online s op"
  shows "\<exists>s'. run_op this online op s = Some s' \<and> timer_inv s' \<and> abs_sys s' = spec_op op (abs_sys s)"
  using run_op_correct [OF assms] by blast

theorem timer_ops_refine_witness:
  "\<exists>s'. run_op 0 [0] (Op_set 1 700) example_sys = Some s' \<and> timer_inv s'
     \<and> abs_sys s' = spec_op (Op_set 1 700) (abs_sys example_sys)"
  using timer_ops_refine [OF example_sys_inv(1), of 0 "[0]" "Op_set 1 700"] example_sys_inv(3) by simp

text \<open>
  Property C25. The softirq handler runs what has expired and programs the next deadline. When the
  callbacks keep to the contract, set no timer in the past and bring none to this CPU, the
  handler terminates; afterwards no timer of the CPU is active with an expiry time before the
  time the handler read, and the hardware is programmed for an active timer of the earliest
  expiry time, at least the slop in the future, or not at all if no timer expires before the
  end of time.
\<close>

theorem softirq_runs_expired:
  assumes "callbacks_ok cb online c" "callbacks_gentle cb now c" "timer_inv s" "limits_ok s"
  shows "\<exists>s'. timer_softirq_action cb online c alloc now now' slop rp s = Some s' \<and> timer_inv s' \<and> limits_ok s'
    \<and> (\<forall>t\<in>active_on s' c. now \<le> expires (tmr s' t))
    \<and> ((\<forall>t\<in>active_on s' c. STIME_MAX \<le> expires (tmr s' t)) \<and> timer_deadline s' c = 0
       \<or> (\<exists>t\<in>active_on s' c. (\<forall>x\<in>active_on s' c. expires (tmr s' t) \<le> expires (tmr s' x))
              \<and> timer_deadline s' c = max (expires (tmr s' t)) (now' + slop)))"
proof -
  obtain s1 s' where s': "timer_softirq_action cb online c alloc now now' slop rp s = Some s'" "s' = program_deadline c now' slop rp s1"
    "timer_inv s'" "limits_ok s'" "\<forall>t\<in>active_on s' c. now \<le> expires (tmr s' t)" using softirq_total [OF assms] by blast
  let ?d = "next_deadline c s1"
  have i1: "timer_inv s1" using s'(2,3) by simp
  have a: "active_on s' c = active_on s1 c" and tm: "tmr s' = tmr s1" by (simp_all add: s'(2) active_on_def)
  have d: "timer_deadline s' c = (if ?d = STIME_MAX then 0 else max ?d (now' + slop))"
    by (simp add: s'(2) program_deadline_def Let_def raise_softirq_def)
  show ?thesis
  proof (cases "?d = STIME_MAX")
    case True
    then have "\<forall>t\<in>active_on s' c. STIME_MAX \<le> expires (tmr s' t)"
      using next_deadline_correct(1) [OF i1] a tm by fastforce
    then show ?thesis using True d s' by auto
  next
    case False
    then obtain t where "t \<in> active_on s1 c" "expires (tmr s1 t) = ?d" using next_deadline_correct(2) [OF i1] by blast
    then have "\<exists>t\<in>active_on s' c. (\<forall>x\<in>active_on s' c. expires (tmr s' t) \<le> expires (tmr s' x))
              \<and> timer_deadline s' c = max (expires (tmr s' t)) (now' + slop)"
      using next_deadline_correct(1) [OF i1] False d unfolding a tm by (intro bexI [of _ t]) auto
    then show ?thesis using s' by blast
  qed
qed

theorem softirq_runs_expired_witness:
  "\<exists>s'. timer_softirq_action (\<lambda>_ _ _. []) [0] 0 (Some (\<lambda>_. 9)) 100 120 50000 (\<lambda>_. True) example_sys = Some s' \<and> timer_inv s' \<and> limits_ok s'
    \<and> (\<forall>t\<in>active_on s' 0. 100 \<le> expires (tmr s' t))
    \<and> ((\<forall>t\<in>active_on s' 0. STIME_MAX \<le> expires (tmr s' t)) \<and> timer_deadline s' 0 = 0
       \<or> (\<exists>t\<in>active_on s' 0. (\<forall>x\<in>active_on s' 0. expires (tmr s' t) \<le> expires (tmr s' x))
              \<and> timer_deadline s' 0 = max (expires (tmr s' t)) (120 + 50000)))"
  by (rule softirq_runs_expired [OF no_callbacks example_sys_inv(1,2)])

text \<open>
  Property C26. No wake-up is lost: when a timer is set to a time before every other active timer
  of its CPU, the timer softirq of that CPU is pending afterwards, whichever container the
  timer went to, so that the handler reprograms the hardware; a pending softirq stays pending.
\<close>

theorem set_timer_wakes:
  assumes "timer_inv s" "a_stat (abs_sys s t) \<in> {Idle, Active}"
    and "\<forall>x\<in>active_on s (tcpu (tmr s t)). x \<noteq> t \<longrightarrow> e < expires (tmr s x)"
  shows "\<exists>s'. set_timer t e s = Some s' \<and> softirq s' (tcpu (tmr s t)) \<and> softirq s \<le> softirq s'"
  using set_timer_correct [OF assms(1), of t e] assms(2,3) by (auto simp: active_on_def)

theorem set_timer_wakes_witness:
  "\<exists>s'. set_timer 1 700 example_sys = Some s' \<and> softirq s' (tcpu (tmr example_sys 1)) \<and> softirq example_sys \<le> softirq s'"
proof (rule set_timer_wakes [OF example_sys_inv(1)])
  show "a_stat (abs_sys example_sys 1) \<in> {Idle, Active}" using example_sys_inv(3) by simp
  show "\<forall>x\<in>active_on example_sys (tcpu (tmr example_sys 1)). x \<noteq> 1 \<longrightarrow> 700 < expires (tmr example_sys x)"
    by (auto simp: active_on_def example_sys_def init_timer_def timer_lock_def zero_tsys_def TIMER_CPU_killed_def
        abs_sys_def abs_timer_def)
qed

text \<open>
  Property C28. When a CPU dies, the migration of its timers terminates: every timer of the dead CPU,
  active or not, is on the chosen online CPU, active or not as before and with the expiry time
  it had, no other timer changes, and the dead CPU's containers are empty.
\<close>

theorem cpu_dead_migrates:
  assumes "timer_inv s" "old \<notin> online" "new \<in> online" "new < TIMER_CPU_killed"
  shows "\<exists>s'. cpu_callback online new CPU_DEAD old s = Some s' \<and> timer_inv s'
    \<and> abs_sys s' = (\<lambda>t. if owned s old t then (abs_sys s t)\<lparr>a_cpu := new\<rparr> else abs_sys s t)
    \<and> heap_ids (cpus s' old) = {} \<and> tlist (cpus s' old) = [] \<and> inactive (cpus s' old) = []"
proof -
  obtain s' where s': "migrate_timers_from_cpu online new old s = Some s'" "timer_inv s'"
    "abs_sys s' = (\<lambda>t. if owned s old t then (abs_sys s t)\<lparr>a_cpu := new\<rparr> else abs_sys s t)"
    using migrate_timers_total [OF assms] by blast
  have "\<not> owned s' old t" for t
    using assms(2,3) unfolding owned_def s'(3) by (auto simp: owned_def simp del: abs_fields)
  then have "placed (tmr s') old st = {}" if "st \<in> {TIMER_in_heap, TIMER_in_list, TIMER_inactive}" for st
    using that by (auto simp: placed_def owned_def a_stat_status)
  then show ?thesis using s' cpu_inv_of [OF s'(2), of old] by (simp add: cpu_callback_def cpu_inv_def)
qed

theorem cpu_dead_migrates_witness:
  "\<exists>s'. cpu_callback {3} 3 CPU_DEAD 0 example_sys = Some s' \<and> timer_inv s'
    \<and> abs_sys s' = (\<lambda>t. if owned example_sys 0 t then (abs_sys example_sys t)\<lparr>a_cpu := 3\<rparr> else abs_sys example_sys t)
    \<and> heap_ids (cpus s' 0) = {} \<and> tlist (cpus s' 0) = [] \<and> inactive (cpus s' 0) = []"
  by (rule cpu_dead_migrates [OF example_sys_inv(1)]) (simp_all add: TIMER_CPU_killed_def)

text \<open>
  Property C29. The growth of a heap, whatever the new array held before. The new array starts with
  every slot of the old one, so the heap holds the same timers and the invariant holds; slots the
  old array did not have stay uninitialised. The limit stored is 16 times the old one plus 15 and never
  more than the array has slots for, until \<open>2^16 - 1\<close> is reached, where the 16-bit store drops the
  rest of the larger array the handler allocates each time and the limit stays. Below that bound
  there is room for 15 times the old capacity of further timers. No other CPU and no timer changes.
\<close>

theorem heap_growth_bounded:
  fixes newheap :: "nat \<Rightarrow> nat"
  assumes "timer_inv s" "limits_ok s" "tlist (cpus s c) \<noteq> []"
  defines "ts \<equiv> cpus s c" and "s' \<equiv> grow_heap (Some newheap) c s"
  shows "heap_ids (cpus s' c) = heap_ids ts \<and> timer_inv s'
    \<and> (\<forall>i. heap (cpus s' c) i = (if i \<le> heap_limit ts then heap ts i else newheap i))
    \<and> heap_size (cpus s' c) = heap_size ts
    \<and> heap_limit (cpus s' c) = min (2 ^ 16 - 1) (16 * heap_limit ts + 15)
    \<and> heap_limit (cpus s' c) < (heap_limit ts + 1) * 16
    \<and> (heap_limit ts = 2 ^ 16 - 1 \<or> heap_size ts + 15 * (heap_limit ts + 1) \<le> heap_limit (cpus s' c))
    \<and> (\<forall>d. d \<noteq> c \<longrightarrow> cpus s' d = cpus s d) \<and> tmr s' = tmr s"
proof -
  have lim: "heap_limit ts \<in> {0, 15, 255, 4095, 65535}" using assms(2) by (simp add: limits_ok_def ts_def)
  have ci: "cpu_inv ts (tmr s) c" unfolding ts_def by (rule cpu_inv_of [OF assms(1)])
  then have sz: "heap_size ts \<le> heap_limit ts" by (simp add: cpu_inv_def heap_inv_def)
  have s': "s' = upd_cpu c (grown_cpu newheap) s"
    using assms(3) by (simp add: s'_def grow_heap_grown [OF assms(2)])
  then have ts': "cpus s' c = grown_cpu newheap ts" by (simp add: ts_def)
  have "heap_ids (cpus s' c) = heap_ids ts" unfolding ts' by (rule grown_cpu_inv(2) [OF ci]) (use lim in auto)
  moreover have "timer_inv s'" unfolding s'_def by (rule grow_heap_correct(1) [OF assms(1,2)])
  moreover have "heap_limit ts = 2 ^ 16 - 1 \<or> heap_size ts + 15 * (heap_limit ts + 1) \<le> heap_limit (cpus s' c)"
    using lim sz by (auto simp: ts' grown_cpu_def)
  moreover have "heap_limit (cpus s' c) < (heap_limit ts + 1) * 16" by (simp add: ts' grown_cpu_def)
  moreover have "\<forall>d. d \<noteq> c \<longrightarrow> cpus s' d = cpus s d" "tmr s' = tmr s" by (simp_all add: s')
  ultimately show ?thesis by (simp add: ts' grown_cpu_def memcpy_def)
qed

definition example_full :: tsys where
  "example_full = the (set_timer 1 700 example_sys)"

lemma example_full_inv: "timer_inv example_full" "limits_ok example_full" "tlist (cpus example_full 0) = [1]"
proof -
  obtain s where s: "set_timer 1 700 example_sys = Some s" "timer_inv s" "frame example_sys s"
    using set_timer_correct [OF example_sys_inv(1), of 1 700] example_sys_inv(3) by auto
  then show "timer_inv example_full" "limits_ok example_full"
    using limits_frame [OF s(3)] example_sys_inv(2) by (simp_all add: example_full_def)
  show "tlist (cpus example_full 0) = [1]"
    by (simp add: example_full_def example_sys_def set_timer_def init_timer_def timer_lock_def zero_tsys_def
        TIMER_CPU_killed_def deactivate_if_active_def active_timer_def activate_timer_def inactive_del_def
        inactive_add_def upd_timer_def upd_cpu_def add_entry_def add_to_heap_def Let_def raise_softirq_def)
qed

theorem heap_growth_bounded_witness:
  "heap_ids (cpus (grow_heap (Some (\<lambda>_. 9)) 0 example_full) 0) = heap_ids (cpus example_full 0)
    \<and> heap_limit (cpus (grow_heap (Some (\<lambda>_. 9)) 0 example_full) 0) = min (2 ^ 16 - 1) (16 * heap_limit (cpus example_full 0) + 15)"
  using heap_growth_bounded [OF example_full_inv(1,2), of 0 "\<lambda>_. 9"] example_full_inv(3) by simp

lemma align_timer_unat:
  assumes p: "period \<noteq> 0" and sum: "unat firsttick + (unat period - 1) < 2 ^ 64"
  shows "unat (align_timer firsttick period) = unat firsttick + (unat period - 1) - unat (firsttick - 1) mod unat period"
proof -
  have p0: "0 < unat period" using p by (simp add: unat_gt_0)
  have p1: "unat (period - 1) = unat period - 1" using p by (simp add: unat_minus_one)
  have s: "unat (firsttick + (period - 1)) = unat firsttick + (unat period - 1)"
    using sum unat_add_lem [of firsttick "period - 1"] by (simp add: p1)
  have "unat (firsttick - 1) mod unat period < unat period" using p0 by (rule mod_less_divisor)
  then have "(firsttick - 1) mod period \<le> firsttick + (period - 1)"
    unfolding word_le_nat_alt s unat_mod_distrib by linarith
  then show ?thesis using p by (simp add: align_timer_def unat_sub s unat_mod_distrib)
qed

text \<open>
  Property C30. \<^verbatim>\<open>align_timer\<close> rounds up to the period: for a first tick after time 0 and a period
  that do not overflow, the result is the least multiple of the period that is not before the
  first tick.
\<close>

theorem align_timer_rounds_up:
  assumes "firsttick \<noteq> 0" "period \<noteq> 0" "unat firsttick + unat period \<le> 2 ^ 64"
  shows "unat period dvd unat (align_timer firsttick period) \<and> unat firsttick \<le> unat (align_timer firsttick period)
    \<and> unat (align_timer firsttick period) < unat firsttick + unat period"
proof -
  let ?f = "unat firsttick" and ?p = "unat period"
  have p0: "0 < ?p" and f0: "0 < ?f" using assms by (simp_all add: unat_gt_0)
  have f1: "unat (firsttick - 1) = ?f - 1" using assms(1) by (simp add: unat_minus_one)
  define q where "q = (?f - 1) div ?p"
  have q: "?f - 1 = ?p * q + (?f - 1) mod ?p" by (simp add: q_def)
  have m: "(?f - 1) mod ?p < ?p" using p0 by (rule mod_less_divisor)
  have "?f + (?p - 1) < 2 ^ 64" using assms(3) p0 by linarith
  then have r: "unat (align_timer firsttick period) = ?f + (?p - 1) - (?f - 1) mod ?p"
    using align_timer_unat [OF assms(2)] f1 by simp
  also have "\<dots> = ?p * q + ?p" using q m p0 f0 by linarith
  finally have e: "unat (align_timer firsttick period) = ?p * q + ?p" .
  moreover have "?f \<le> ?p * q + ?p" "?p * q + ?p < ?f + ?p" using q m f0 by linarith+
  ultimately show ?thesis by simp
qed

theorem align_timer_rounds_up_witness:
  "unat (300 :: u64) dvd unat (align_timer 1000 300) \<and> unat (1000 :: u64) \<le> unat (align_timer 1000 300)
    \<and> unat (align_timer 1000 300) < unat (1000 :: u64) + unat (300 :: u64)"
  by (rule align_timer_rounds_up) simp_all

text \<open>
  At time 0 the subtraction in \<^verbatim>\<open>align_timer\<close> wraps around: the result is a multiple of
  the period only for the periods that divide \<open>2^64\<close>; for a period of 3 it is 2.
\<close>

theorem align_timer_zero:
  assumes "period \<noteq> 0"
  shows "(unat period dvd unat (align_timer 0 period) \<longleftrightarrow> unat period dvd 2 ^ 64) \<and> align_timer 0 3 = 2"
proof -
  let ?p = "unat period"
  have p0: "0 < ?p" using assms by (simp add: unat_gt_0)
  have w: "unat (0 - 1 :: u64) = 2 ^ 64 - 1"
    by (simp add: unsigned_minus_1_eq_mask mask_eq_exp_minus_1)
  have "?p < 2 ^ 64" using unsigned_less [of period] by simp
  then have r: "unat (align_timer 0 period) = ?p - 1 - (2 ^ 64 - 1) mod ?p"
    using align_timer_unat [OF assms, of 0] w p0 by simp
  have m: "(2 ^ 64 - 1) mod ?p < ?p" using p0 by (rule mod_less_divisor)
  have "?p dvd unat (align_timer 0 period) \<longleftrightarrow> (2 ^ 64 - 1) mod ?p = ?p - 1"
  proof -
    have "?p dvd ?p - 1 - x \<longleftrightarrow> x = ?p - 1" if "x < ?p" for x
      using that p0 dvd_imp_le [of ?p "?p - 1 - x"] by (cases "?p - 1 - x = 0") auto
    then show ?thesis unfolding r using m by blast
  qed
  also have "\<dots> \<longleftrightarrow> ?p dvd 2 ^ 64"
  proof -
    have "Suc (2 ^ 64 - 1) mod ?p = (if Suc ((2 ^ 64 - 1) mod ?p) = ?p then 0 else Suc ((2 ^ 64 - 1) mod ?p))" by (rule mod_Suc)
    moreover have "Suc (2 ^ 64 - 1) = (2 ^ 64 :: nat)" by simp
    ultimately show ?thesis using p0 by (auto simp: dvd_eq_mod_eq_0)
  qed
  finally show ?thesis by (simp add: align_timer_def)
qed

theorem align_timer_zero_witness: "(unat (7 :: u64) dvd unat (align_timer 0 7) \<longleftrightarrow> unat (7 :: u64) dvd 2 ^ 64) \<and> align_timer 0 3 = 2"
  by (rule align_timer_zero) simp
end
