(* ===== verification/Evtchn_Port.thy ===== *)
theory Evtchn_Port
  imports Prelude
begin

text \<open>
  Event channels: the data of \<^verbatim>\<open>xen/include/xen/sched.h\<close> and \<^verbatim>\<open>xen/include/xen/event.h\<close> and the
  operations on a port of the two-level ABI, \<^verbatim>\<open>xen/common/event_2l.c\<close>. A domain and a virtual CPU
  are numbers; the state tag and the union of \<^verbatim>\<open>struct evtchn\<close> are one datatype. The buckets of
  \<^verbatim>\<open>struct evtchn\<close> are a partial function from ports: a port is in its domain when its bucket has
  been allocated. \<open>None\<close> is a null pointer or a \<^verbatim>\<open>BUG\<close>.

  Bit arrays in memory shared with the guest are predicates on bit positions, counted from the start
  of the array: positions past its end are the memory that follows. In the shared page the mask
  array follows the pending array directly, in both the 64-bit and the 32-bit layout, so the field
  \<open>evtchn_pending\<close> holds the bits of both and \<open>evtchn_mask\<close> reads the second half.
\<close>

section \<open>Data\<close>

datatype ecs =
  ECS_FREE
| ECS_RESERVED
| ECS_UNBOUND nat
| ECS_INTERDOMAIN nat nat
| ECS_PIRQ nat nat nat
| ECS_VIRQ nat
| ECS_IPI

record evtchn =
  chn_state :: ecs
  xen_consumer :: nat
  notify_vcpu_id :: nat

record evcpu =
  virq_to_evtchn :: "nat \<Rightarrow> nat"
  pirq_evtchn_head :: nat
  evtchn_pending_sel :: "nat \<Rightarrow> bool"
  upcall_pending :: bool
  poll_evtchn :: int
  vpf_blocked :: bool
  vpf_blocked_in_xen :: bool

record edomain =
  is_dying :: bool
  is_hvm_domain :: bool
  bits_per_evtchn_word :: nat
  max_vcpus :: nat
  vcpu :: "nat \<Rightarrow> evcpu option"
  max_evtchns :: nat
  max_evtchn_port :: nat
  chn :: "nat \<Rightarrow> evtchn option"
  evtchn_pending :: "nat \<Rightarrow> bool"
  poll_mask :: "nat \<Rightarrow> bool"
  nr_pirqs :: nat
  pirq_evtchn :: "nat \<Rightarrow> nat option"

text \<open>
  The pending array has as many words as a word has bits. The mask bit of a port is the bit at the
  port's position after the end of that array.
\<close>

definition mask_bit :: "edomain \<Rightarrow> nat \<Rightarrow> nat" where
  "mask_bit d port = bits_per_evtchn_word d * bits_per_evtchn_word d + port"

definition evtchn_mask :: "edomain \<Rightarrow> nat \<Rightarrow> bool" where
  "evtchn_mask d port = evtchn_pending d (mask_bit d port)"

definition NR_VIRQS :: nat where
  "NR_VIRQS = 24"

text \<open>The size of \<^verbatim>\<open>struct evtchn\<close> is 32 bytes on 64-bit x86, so a page holds 128 of them.\<close>

definition EVTCHNS_PER_BUCKET :: nat where
  "EVTCHNS_PER_BUCKET = 128"

definition port_is_valid :: "edomain \<Rightarrow> nat \<Rightarrow> bool" where
  "port_is_valid d p \<longleftrightarrow> p < max_evtchns d \<and> chn d p \<noteq> None"

definition evtchn_from_port :: "edomain \<Rightarrow> nat \<Rightarrow> evtchn option" where
  "evtchn_from_port d p = chn d p"

definition upd_vcpu :: "nat \<Rightarrow> (evcpu \<Rightarrow> evcpu) \<Rightarrow> edomain \<Rightarrow> edomain" where
  "upd_vcpu v f d = d\<lparr>vcpu := (vcpu d)(v := map_option f (vcpu d v))\<rparr>"

definition upd_chn :: "nat \<Rightarrow> (evtchn \<Rightarrow> evtchn) \<Rightarrow> edomain \<Rightarrow> edomain" where
  "upd_chn p f d = d\<lparr>chn := (chn d)(p := map_option f (chn d p))\<rparr>"

section \<open>Waking virtual CPUs\<close>

text \<open>The kick that follows a new upcall and the call into the scheduler are not modelled.\<close>

definition vcpu_mark_events_pending :: "nat \<Rightarrow> edomain \<Rightarrow> edomain" where
  "vcpu_mark_events_pending v = upd_vcpu v (\<lambda>r. r\<lparr>upcall_pending := True\<rparr>)"

definition vcpu_unblock :: "nat \<Rightarrow> edomain \<Rightarrow> edomain" where
  "vcpu_unblock v d =
     (case vcpu d v of
        None \<Rightarrow> d
      | Some r \<Rightarrow>
          if \<not> vpf_blocked r then d
          else
            (let d = upd_vcpu v (\<lambda>r. r\<lparr>vpf_blocked := False\<rparr>) d
             in if poll_evtchn r \<noteq> 0
                then (upd_vcpu v (\<lambda>r. r\<lparr>poll_evtchn := 0\<rparr>) d)\<lparr>poll_mask := (poll_mask d)(v := False)\<rparr>
                else d))"

definition check_poller :: "nat \<Rightarrow> nat \<Rightarrow> edomain \<Rightarrow> edomain option" where
  "check_poller port v d =
     (if \<not> poll_mask d v then Some d
      else
        (case vcpu d v of
           None \<Rightarrow> None
         | Some r \<Rightarrow>
             Some (if poll_evtchn r \<le> 0 \<or> poll_evtchn r = int port
                   then vcpu_unblock v (upd_vcpu v (\<lambda>r. r\<lparr>poll_evtchn := 0\<rparr>) (d\<lparr>poll_mask := (poll_mask d)(v := False)\<rparr>))
                   else d)))"

fun check_pollers :: "nat \<Rightarrow> nat list \<Rightarrow> edomain \<Rightarrow> edomain option" where
  "check_pollers port [] d = Some d"
| "check_pollers port (v # vs) d = do { d \<leftarrow> check_poller port v d; check_pollers port vs d }"

definition evtchn_check_pollers :: "nat \<Rightarrow> edomain \<Rightarrow> edomain option" where
  "evtchn_check_pollers port d = check_pollers port [0..<max_vcpus d] d"

section \<open>Ports of the two-level ABI\<close>

definition test_and_set_sel :: "nat \<Rightarrow> nat \<Rightarrow> edomain \<Rightarrow> (bool \<times> edomain) option" where
  "test_and_set_sel v port d =
     (case vcpu d v of
        None \<Rightarrow> None
      | Some r \<Rightarrow>
          (let w = port div bits_per_evtchn_word d
           in Some (evtchn_pending_sel r w,
                    upd_vcpu v (\<lambda>r. r\<lparr>evtchn_pending_sel := (evtchn_pending_sel r)(w := True)\<rparr>) d)))"

text \<open>Raising a virtual CPU's selector bit, and its upcall flag when the bit was clear.\<close>

definition raise_sel :: "nat \<Rightarrow> nat \<Rightarrow> edomain \<Rightarrow> edomain option" where
  "raise_sel v port d =
     do { (old, d) \<leftarrow> test_and_set_sel v port d; Some (if \<not> old then vcpu_mark_events_pending v d else d) }"

definition evtchn_2l_set_pending :: "nat \<Rightarrow> nat \<Rightarrow> edomain \<Rightarrow> edomain option" where
  "evtchn_2l_set_pending v port d =
     (if vcpu d v = None then None
      else if evtchn_pending d port then Some d
      else do {
        let d = d\<lparr>evtchn_pending := (evtchn_pending d)(port := True)\<rparr>;
        d \<leftarrow> (if \<not> evtchn_mask d port then raise_sel v port d else Some d);
        evtchn_check_pollers port d
      })"

definition evtchn_2l_clear_pending :: "nat \<Rightarrow> edomain \<Rightarrow> edomain" where
  "evtchn_2l_clear_pending port d = d\<lparr>evtchn_pending := (evtchn_pending d)(port := False)\<rparr>"

definition evtchn_2l_unmask :: "nat \<Rightarrow> nat \<Rightarrow> edomain \<Rightarrow> edomain option" where
  "evtchn_2l_unmask v port d =
     (let masked = evtchn_mask d port;
          d = d\<lparr>evtchn_pending := (evtchn_pending d)(mask_bit d port := False)\<rparr>
      in if masked \<and> evtchn_pending d port then raise_sel v port d else Some d)"

definition evtchn_2l_is_pending :: "nat \<Rightarrow> edomain \<Rightarrow> bool" where
  "evtchn_2l_is_pending port d = evtchn_pending d port"

definition evtchn_2l_is_masked :: "nat \<Rightarrow> edomain \<Rightarrow> bool" where
  "evtchn_2l_is_masked port d = evtchn_mask d port"

definition evtchn_2l_init :: "edomain \<Rightarrow> edomain" where
  "evtchn_2l_init d = d\<lparr>max_evtchns := bits_per_evtchn_word d * bits_per_evtchn_word d\<rparr>"

text \<open>The operations of the ABI, as the generic code calls them.\<close>

definition evtchn_port_set_pending :: "nat \<Rightarrow> nat \<Rightarrow> edomain \<Rightarrow> edomain option" where
  "evtchn_port_set_pending v port d = evtchn_2l_set_pending v port d"

definition evtchn_port_clear_pending :: "nat \<Rightarrow> edomain \<Rightarrow> edomain" where
  "evtchn_port_clear_pending port d = evtchn_2l_clear_pending port d"

definition evtchn_port_unmask :: "nat \<Rightarrow> edomain \<Rightarrow> edomain option" where
  "evtchn_port_unmask port d =
     do {
       e \<leftarrow> evtchn_from_port d port;
       evtchn_2l_unmask (notify_vcpu_id e) port d
     }"

definition evtchn_port_set_priority :: "edomain \<Rightarrow> nat \<Rightarrow> nat \<Rightarrow> int" where
  "evtchn_port_set_priority d port priority = - ENOSYS"

section \<open>Effects on the rest of the domain\<close>

text \<open>
  Delivering an event touches the bitmaps and the state of virtual CPUs that has to do with waking
  them; it leaves the channels, the bindings and the shape of the domain alone.
\<close>

definition same_vcpu :: "evcpu \<Rightarrow> evcpu \<Rightarrow> bool" where
  "same_vcpu r r' \<longleftrightarrow> virq_to_evtchn r' = virq_to_evtchn r \<and> pirq_evtchn_head r' = pirq_evtchn_head r
     \<and> vpf_blocked_in_xen r' = vpf_blocked_in_xen r"

definition same_shape :: "edomain \<Rightarrow> edomain \<Rightarrow> bool" where
  "same_shape d d' \<longleftrightarrow> chn d' = chn d \<and> is_dying d' = is_dying d \<and> is_hvm_domain d' = is_hvm_domain d
     \<and> bits_per_evtchn_word d' = bits_per_evtchn_word d \<and> max_vcpus d' = max_vcpus d
     \<and> max_evtchns d' = max_evtchns d \<and> max_evtchn_port d' = max_evtchn_port d \<and> nr_pirqs d' = nr_pirqs d
     \<and> pirq_evtchn d' = pirq_evtchn d \<and> (\<forall>v. rel_option same_vcpu (vcpu d v) (vcpu d' v))"

lemma same_vcpu_refl [simp]: "same_vcpu r r"
  by (simp add: same_vcpu_def)

lemma same_vcpu_trans: "same_vcpu a b \<Longrightarrow> same_vcpu b c \<Longrightarrow> same_vcpu a c"
  by (simp add: same_vcpu_def)

lemma same_shape_refl [simp]: "same_shape d d"
  by (simp add: same_shape_def option.rel_refl)

lemma same_shape_trans:
  assumes "same_shape a b" "same_shape b c"
  shows "same_shape a c"
proof -
  have "rel_option same_vcpu (vcpu a v) (vcpu c v)" for v
    using assms unfolding same_shape_def
    by (metis (no_types, lifting) option.rel_transp same_vcpu_trans transpD transpI)
  then show ?thesis using assms by (simp add: same_shape_def)
qed

lemma same_shape_vcpu:
  assumes "same_shape d d'"
  shows "vcpu d v = None \<longleftrightarrow> vcpu d' v = None"
  using assms by (metis option.rel_distinct(1,2) option.rel_sel same_shape_def)

lemma same_shape_bits [simp]:
  "same_shape d (d'\<lparr>evtchn_pending := x\<rparr>) = same_shape d d'"
  "same_shape d (d'\<lparr>poll_mask := x\<rparr>) = same_shape d d'"
  by (simp_all add: same_shape_def)

lemma same_shape_upd_vcpu:
  assumes "\<And>r. same_vcpu r (f r)"
  shows "same_shape d (upd_vcpu v f d)"
  using assms by (auto simp: same_shape_def upd_vcpu_def option.rel_refl option.rel_map)

lemma upd_vcpu_simps [simp]:
  "chn (upd_vcpu v f d) = chn d" "evtchn_pending (upd_vcpu v f d) = evtchn_pending d"
  "poll_mask (upd_vcpu v f d) = poll_mask d" "max_vcpus (upd_vcpu v f d) = max_vcpus d"
  "vcpu (upd_vcpu v f d) = (vcpu d)(v := map_option f (vcpu d v))" "bits_per_evtchn_word (upd_vcpu v f d) = bits_per_evtchn_word d"
  by (simp_all add: upd_vcpu_def)

lemma same_shape_mask: "same_shape d d' \<Longrightarrow> evtchn_pending d' = evtchn_pending d \<Longrightarrow> evtchn_mask d' = evtchn_mask d"
  by (simp add: fun_eq_iff evtchn_mask_def mask_bit_def same_shape_def)

text \<open>
  Ports with a bit of their own in both arrays. Setting, clearing and unmasking such a port changes no
  other bit; a port beyond has its pending bit among the mask bits.
\<close>

definition has_bit :: "edomain \<Rightarrow> nat \<Rightarrow> bool" where
  "has_bit d port \<longleftrightarrow> port < bits_per_evtchn_word d * bits_per_evtchn_word d"

lemma has_bit_shape: "same_shape d d' \<Longrightarrow> has_bit d' = has_bit d"
  by (simp add: fun_eq_iff has_bit_def same_shape_def)

lemma mask_set_pending:
  "has_bit d port \<Longrightarrow> evtchn_mask (d\<lparr>evtchn_pending := (evtchn_pending d)(port := b)\<rparr>) = evtchn_mask d"
  by (simp add: fun_eq_iff evtchn_mask_def mask_bit_def has_bit_def)

lemma mask_unmask:
  "evtchn_mask (d\<lparr>evtchn_pending := (evtchn_pending d)(mask_bit d port := b)\<rparr>) = (evtchn_mask d)(port := b)"
  by (simp add: fun_eq_iff evtchn_mask_def mask_bit_def)

lemma pending_unmask:
  "has_bit d q \<Longrightarrow> evtchn_pending (d\<lparr>evtchn_pending := (evtchn_pending d)(mask_bit d port := b)\<rparr>) q = evtchn_pending d q"
  by (simp add: mask_bit_def has_bit_def)

lemma mask_aliased:
  assumes "bits_per_evtchn_word d * bits_per_evtchn_word d + q = port"
  shows "evtchn_mask (d\<lparr>evtchn_pending := (evtchn_pending d)(port := b)\<rparr>) = (evtchn_mask d)(q := b)"
  using assms by (simp add: fun_eq_iff evtchn_mask_def mask_bit_def)

text \<open>
  Every virtual CPU that polls exists. What a virtual CPU is told: its selector and its upcall flag.
  Telling it of a word sets the selector bit, and raises the upcall when the bit was clear.
\<close>

definition polls_ok :: "edomain \<Rightarrow> bool" where
  "polls_ok d \<longleftrightarrow> (\<forall>v. poll_mask d v \<longrightarrow> vcpu d v \<noteq> None)"

definition told :: "edomain \<Rightarrow> nat \<Rightarrow> ((nat \<Rightarrow> bool) \<times> bool) option" where
  "told d v = map_option (\<lambda>r. (evtchn_pending_sel r, upcall_pending r)) (vcpu d v)"

definition tell :: "nat \<Rightarrow> (nat \<Rightarrow> bool) \<times> bool \<Rightarrow> (nat \<Rightarrow> bool) \<times> bool" where
  "tell w = (\<lambda>(sel, upcall). (sel(w := True), upcall \<or> \<not> sel w))"

definition tell_port :: "edomain \<Rightarrow> nat \<Rightarrow> ((nat \<Rightarrow> bool) \<times> bool) option \<Rightarrow> ((nat \<Rightarrow> bool) \<times> bool) option" where
  "tell_port d port = map_option (tell (port div bits_per_evtchn_word d))"

lemma tell_port_shape: "same_shape d d' \<Longrightarrow> tell_port d' = tell_port d"
  by (simp add: fun_eq_iff tell_port_def same_shape_def)

text \<open>
  How a virtual CPU polls: whether it is in the poll mask, what it polls on (nothing in particular
  when not positive), and whether it is blocked. An event on the port polled on ends the polling
  and unblocks.
\<close>

definition polling :: "edomain \<Rightarrow> nat \<Rightarrow> bool \<times> (int \<times> bool) option" where
  "polling d v = (poll_mask d v, map_option (\<lambda>r. (poll_evtchn r, vpf_blocked r)) (vcpu d v))"

definition woken :: "nat \<Rightarrow> bool \<times> (int \<times> bool) option \<Rightarrow> bool \<times> (int \<times> bool) option" where
  "woken port = (\<lambda>(polls, st).
     case st of
       Some (on, blocked) \<Rightarrow> if polls \<and> (on \<le> 0 \<or> on = int port) then (False, Some (0, False)) else (polls, st)
     | None \<Rightarrow> (polls, st))"

lemma woken_twice: "woken port (woken port q) = woken port q"
  by (auto simp: woken_def split: prod.splits option.splits if_splits)

definition quiet_wake :: "edomain \<Rightarrow> edomain \<Rightarrow> bool" where
  "quiet_wake d d' \<longleftrightarrow> same_shape d d' \<and> polls_ok d' \<and> evtchn_pending d' = evtchn_pending d \<and> told d' = told d"

lemma quiet_wake_trans: "quiet_wake a b \<Longrightarrow> quiet_wake b c \<Longrightarrow> quiet_wake a c"
  using same_shape_trans by (auto simp: quiet_wake_def)

lemma quiet_wake_upd:
  assumes "polls_ok d" "\<And>r. same_vcpu r (f r)" "\<And>r. evtchn_pending_sel (f r) = evtchn_pending_sel r" "\<And>r. upcall_pending (f r) = upcall_pending r"
  shows "quiet_wake d (upd_vcpu v f d)"
proof -
  have "told (upd_vcpu v f d) = told d"
    by (rule ext) (simp add: told_def option.map_comp comp_def assms(3,4))
  then show ?thesis using assms(1,2) by (simp add: quiet_wake_def same_shape_upd_vcpu polls_ok_def)
qed

lemma quiet_wake_poll: "polls_ok d \<Longrightarrow> quiet_wake d (d\<lparr>poll_mask := (poll_mask d)(v := False)\<rparr>)"
  by (auto simp: quiet_wake_def polls_ok_def told_def)

lemma vcpu_unblock_quiet:
  assumes "polls_ok d"
  shows "quiet_wake d (vcpu_unblock v d)"
proof (cases "vcpu d v")
  case None
  then show ?thesis using assms by (simp add: vcpu_unblock_def quiet_wake_def)
next
  case (Some r)
  let ?d1 = "upd_vcpu v (\<lambda>r. r\<lparr>vpf_blocked := False\<rparr>) d"
  have 1: "quiet_wake d ?d1" by (rule quiet_wake_upd [OF assms]) (simp_all add: same_vcpu_def)
  then have "polls_ok ?d1" by (simp add: quiet_wake_def)
  then have 2: "quiet_wake ?d1 (upd_vcpu v (\<lambda>r. r\<lparr>poll_evtchn := 0\<rparr>) ?d1)"
    by (rule quiet_wake_upd) (simp_all add: same_vcpu_def)
  let ?d2 = "upd_vcpu v (\<lambda>r. r\<lparr>poll_evtchn := 0\<rparr>) ?d1"
  have "quiet_wake ?d2 (?d2\<lparr>poll_mask := (poll_mask ?d2)(v := False)\<rparr>)" using 2 by (intro quiet_wake_poll) (simp add: quiet_wake_def)
  then have "quiet_wake d (?d2\<lparr>poll_mask := (poll_mask ?d2)(v := False)\<rparr>)" using 1 2 quiet_wake_trans by blast
  moreover have "quiet_wake d d" using assms by (simp add: quiet_wake_def)
  ultimately show ?thesis using 1 Some by (simp add: vcpu_unblock_def Let_def)
qed

lemma check_poller_correct:
  assumes "polls_ok d"
  shows "\<exists>d'. check_poller port v d = Some d' \<and> quiet_wake d d' \<and> polling d' = (polling d)(v := woken port (polling d v))"
proof (cases "poll_mask d v")
  case False
  then show ?thesis using assms
    by (auto simp: check_poller_def quiet_wake_def polling_def woken_def split: option.split)
next
  case True
  then obtain r where r: "vcpu d v = Some r" using assms by (auto simp: polls_ok_def)
  let ?d0 = "d\<lparr>poll_mask := (poll_mask d)(v := False)\<rparr>" and ?d1 = "upd_vcpu v (\<lambda>r. r\<lparr>poll_evtchn := 0\<rparr>) (d\<lparr>poll_mask := (poll_mask d)(v := False)\<rparr>)"
  have 0: "quiet_wake d ?d0" by (rule quiet_wake_poll [OF assms])
  then have 1: "quiet_wake ?d0 ?d1" by (intro quiet_wake_upd) (simp_all add: same_vcpu_def quiet_wake_def)
  then have "quiet_wake ?d1 (vcpu_unblock v ?d1)" by (intro vcpu_unblock_quiet) (simp add: quiet_wake_def)
  then have w: "quiet_wake d (vcpu_unblock v ?d1)" using 0 1 quiet_wake_trans by blast
  have p: "polling (vcpu_unblock v ?d1) = (polling d)(v := (False, Some (0, False)))"
    using r by (auto simp: vcpu_unblock_def polling_def fun_eq_iff Let_def)
  have "quiet_wake d d" using assms by (simp add: quiet_wake_def)
  then show ?thesis using w p True r
    by (auto simp: check_poller_def woken_def polling_def)
qed

lemma check_pollers_correct:
  assumes "polls_ok d"
  shows "\<exists>d'. check_pollers port vs d = Some d' \<and> quiet_wake d d'
    \<and> polling d' = (\<lambda>w. if w \<in> set vs then woken port (polling d w) else polling d w)"
  using assms
proof (induction vs arbitrary: d)
  case Nil
  then show ?case by (simp add: quiet_wake_def)
next
  case (Cons v vs)
  obtain d1 where d1: "check_poller port v d = Some d1" "quiet_wake d d1" "polling d1 = (polling d)(v := woken port (polling d v))"
    using check_poller_correct [OF Cons.prems, of port v] by blast
  then have "polls_ok d1" by (simp add: quiet_wake_def)
  then obtain d' where d': "check_pollers port vs d1 = Some d'" "quiet_wake d1 d'"
    "polling d' = (\<lambda>w. if w \<in> set vs then woken port (polling d1 w) else polling d1 w)"
    using Cons.IH by blast
  have "polling d' = (\<lambda>w. if w \<in> set (v # vs) then woken port (polling d w) else polling d w)"
    by (auto simp: fun_eq_iff d'(3) d1(3) woken_twice)
  then show ?case using d1 d' quiet_wake_trans by auto
qed

lemma test_and_set_sel_correct:
  fixes port :: nat
  assumes "vcpu d v = Some r" "polls_ok d"
  defines "w \<equiv> port div bits_per_evtchn_word d"
  shows "\<exists>d'. test_and_set_sel v port d = Some (evtchn_pending_sel r w, d') \<and> same_shape d d' \<and> polls_ok d'
    \<and> evtchn_pending d' = evtchn_pending d \<and> polling d' = polling d
    \<and> told d' = (told d)(v := Some ((evtchn_pending_sel r)(w := True), upcall_pending r))"
proof -
  let ?f = "\<lambda>r. r\<lparr>evtchn_pending_sel := (evtchn_pending_sel r)(w := True)\<rparr>"
  have "same_shape d (upd_vcpu v ?f d)" by (rule same_shape_upd_vcpu) (simp add: same_vcpu_def)
  moreover have "told (upd_vcpu v ?f d) = (told d)(v := Some ((evtchn_pending_sel r)(w := True), upcall_pending r))"
    using assms(1) by (auto simp: told_def fun_eq_iff)
  moreover have "polling (upd_vcpu v ?f d) = polling d" using assms(1) by (auto simp: polling_def fun_eq_iff)
  moreover have "polls_ok (upd_vcpu v ?f d)" using assms(2) by (auto simp: polls_ok_def)
  ultimately show ?thesis using assms(1) by (simp add: test_and_set_sel_def Let_def w_def)
qed

lemma mark_correct:
  assumes "vcpu d v \<noteq> None" "polls_ok d"
  shows "same_shape d (vcpu_mark_events_pending v d)" "polls_ok (vcpu_mark_events_pending v d)"
    "evtchn_pending (vcpu_mark_events_pending v d) = evtchn_pending d" "polling (vcpu_mark_events_pending v d) = polling d"
    "told (vcpu_mark_events_pending v d) = (told d)(v := map_option (\<lambda>(s, _). (s, True)) (told d v))"
  using assms same_shape_upd_vcpu [of "\<lambda>r. r\<lparr>upcall_pending := True\<rparr>" d v]
  by (auto simp: vcpu_mark_events_pending_def same_vcpu_def polls_ok_def told_def polling_def fun_eq_iff option.map_comp comp_def)

lemma raise_sel_correct:
  assumes v: "vcpu d v \<noteq> None" and p: "polls_ok d"
  shows "\<exists>d'. raise_sel v port d = Some d' \<and> same_shape d d' \<and> polls_ok d'
    \<and> evtchn_pending d' = evtchn_pending d \<and> polling d' = polling d \<and> told d' = (told d)(v := tell_port d port (told d v))"
proof -
  let ?w = "port div bits_per_evtchn_word d"
  obtain r where r: "vcpu d v = Some r" using v by blast
  have t: "tell_port d port (told d v) = Some ((evtchn_pending_sel r)(?w := True), upcall_pending r \<or> \<not> evtchn_pending_sel r ?w)"
    using r by (simp add: tell_port_def tell_def told_def)
  obtain d1 where d1: "test_and_set_sel v port d = Some (evtchn_pending_sel r ?w, d1)" "same_shape d d1" "polls_ok d1"
    "evtchn_pending d1 = evtchn_pending d" "polling d1 = polling d"
    "told d1 = (told d)(v := Some ((evtchn_pending_sel r)(?w := True), upcall_pending r))"
    using test_and_set_sel_correct [OF r p, of port] by blast
  have v1: "vcpu d1 v \<noteq> None" using same_shape_vcpu [OF d1(2), of v] r by simp
  show ?thesis
  proof (cases "evtchn_pending_sel r ?w")
    case True
    then show ?thesis using d1 t by (simp add: raise_sel_def)
  next
    case False
    then show ?thesis using d1 t mark_correct [OF v1 d1(3)] same_shape_trans [OF d1(2)] by (simp add: raise_sel_def)
  qed
qed

lemma raise_if:
  assumes "vcpu d v \<noteq> None" "polls_ok d"
  shows "\<exists>d'. (if b then raise_sel v port d else Some d) = Some d' \<and> same_shape d d' \<and> polls_ok d'
    \<and> evtchn_pending d' = evtchn_pending d \<and> polling d' = polling d
    \<and> told d' = (if b then (told d)(v := tell_port d port (told d v)) else told d)"
  using raise_sel_correct [OF assms, of port] assms(2) by (cases b) auto

text \<open>
  A virtual CPU has been told of a port when the selector bit of the port's word is set. An event
  that finds the bit clear also raises the upcall.
\<close>

definition told_of :: "edomain \<Rightarrow> nat \<Rightarrow> nat \<Rightarrow> bool" where
  "told_of d v port \<longleftrightarrow> (\<exists>r. vcpu d v = Some r \<and> evtchn_pending_sel r (port div bits_per_evtchn_word d))"

definition upcalled :: "edomain \<Rightarrow> nat \<Rightarrow> bool" where
  "upcalled d v \<longleftrightarrow> (\<exists>r. vcpu d v = Some r \<and> upcall_pending r)"

lemma told_of_told: "told_of d v port \<longleftrightarrow> (\<exists>s u. told d v = Some (s, u) \<and> s (port div bits_per_evtchn_word d))"
  by (auto simp: told_of_def told_def)

lemma upcalled_told: "upcalled d v \<longleftrightarrow> (\<exists>s. told d v = Some (s, True))"
  by (auto simp: upcalled_def told_def)

lemma tell_port_tells:
  assumes "vcpu d v \<noteq> None" "same_shape d d'" "told d' v = tell_port d port (told d v)"
  shows "told_of d' v port" "told_of d v port \<or> upcalled d' v"
proof -
  obtain r where r: "vcpu d v = Some r" using assms(1) by blast
  have b: "bits_per_evtchn_word d' = bits_per_evtchn_word d" using assms(2) by (simp add: same_shape_def)
  have t: "told d v = Some (evtchn_pending_sel r, upcall_pending r)" using r by (simp add: told_def)
  show "told_of d' v port" "told_of d v port \<or> upcalled d' v"
    using assms(3) by (auto simp: told_of_told upcalled_told t b tell_port_def tell_def)
qed

text \<open>
  Setting a port pending, in full: a port already pending changes nothing; otherwise its bit is set, the
  virtual CPU is told unless the port is masked, and the virtual CPUs that poll on the port are woken.
\<close>

lemma set_pending_correct:
  assumes v: "vcpu d v \<noteq> None" and p: "polls_ok d"
  shows "\<exists>d'. evtchn_2l_set_pending v port d = Some d' \<and> same_shape d d' \<and> polls_ok d'
    \<and> evtchn_pending d' = (evtchn_pending d)(port := True)
    \<and> (has_bit d port \<longrightarrow> evtchn_mask d' = evtchn_mask d
         \<and> told d' = (if evtchn_pending d port \<or> evtchn_mask d port then told d else (told d)(v := tell_port d port (told d v)))
         \<and> polling d' = (\<lambda>w. if \<not> evtchn_pending d port \<and> w < max_vcpus d then woken port (polling d w) else polling d w))"
proof (cases "evtchn_pending d port")
  case True
  then show ?thesis using v p by (simp add: evtchn_2l_set_pending_def fun_upd_idem)
next
  case False
  let ?d0 = "d\<lparr>evtchn_pending := (evtchn_pending d)(port := True)\<rparr>"
  have p0: "polls_ok ?d0" and v0: "vcpu ?d0 v \<noteq> None" using p v by (simp_all add: polls_ok_def)
  have eq0: "told ?d0 = told d" "polling ?d0 = polling d" by (simp_all add: fun_eq_iff told_def polling_def)
  have s0: "same_shape d ?d0" by simp
  obtain d1 where d1: "(if \<not> evtchn_mask ?d0 port then raise_sel v port ?d0 else Some ?d0) = Some d1" "same_shape ?d0 d1" "polls_ok d1"
    "evtchn_pending d1 = evtchn_pending ?d0" "polling d1 = polling d"
    "told d1 = (if \<not> evtchn_mask ?d0 port then (told d)(v := tell_port d port (told d v)) else told d)"
    using raise_if [OF v0 p0, of "\<not> evtchn_mask ?d0 port" port] unfolding eq0 tell_port_shape [OF s0] by blast
  obtain d2 where d2: "evtchn_check_pollers port d1 = Some d2" "quiet_wake d1 d2"
    "polling d2 = (\<lambda>w. if w < max_vcpus d1 then woken port (polling d1 w) else polling d1 w)"
    using check_pollers_correct [OF d1(3), of port "[0..<max_vcpus d1]"] by (auto simp: evtchn_check_pollers_def)
  have sh: "same_shape d d2" using same_shape_trans s0 d1(2) d2(2) unfolding quiet_wake_def by blast
  have m: "max_vcpus d1 = max_vcpus d" using d1(2) by (simp add: same_shape_def)
  have pend: "evtchn_pending d2 = (evtchn_pending d)(port := True)" using d1(4) d2(2) by (simp add: quiet_wake_def)
  have m0: "has_bit d port \<Longrightarrow> evtchn_mask ?d0 = evtchn_mask d" by (rule mask_set_pending)
  have "evtchn_mask d2 = evtchn_mask ?d0" using sh pend by (intro same_shape_mask) (simp_all add: same_shape_def)
  then have mask: "has_bit d port \<Longrightarrow> evtchn_mask d2 = evtchn_mask d" using m0 by (rule trans)
  have tl: "told d2 = (if evtchn_pending d port \<or> evtchn_mask d port then told d else (told d)(v := tell_port d port (told d v)))"
    if "has_bit d port"
    using d1(6) d2(2) False unfolding m0 [OF that] quiet_wake_def by simp
  have pl: "polling d2 = (\<lambda>w. if \<not> evtchn_pending d port \<and> w < max_vcpus d then woken port (polling d w) else polling d w)"
    using d2(3) False unfolding d1(5) m by simp
  have "evtchn_2l_set_pending v port d = Some d2"
    using v False d1(1) d2(1) by (simp add: evtchn_2l_set_pending_def Let_def)
  moreover have "polls_ok d2" using d2(2) by (simp add: quiet_wake_def)
  ultimately show ?thesis using sh pend mask tl pl by blast
qed

lemma unmask_correct:
  assumes v: "vcpu d v \<noteq> None" and p: "polls_ok d"
  shows "\<exists>d'. evtchn_2l_unmask v port d = Some d' \<and> same_shape d d' \<and> polls_ok d'
    \<and> evtchn_pending d' = (evtchn_pending d)(mask_bit d port := False) \<and> evtchn_mask d' = (evtchn_mask d)(port := False)
    \<and> polling d' = polling d
    \<and> (has_bit d port \<longrightarrow>
         told d' = (if evtchn_mask d port \<and> evtchn_pending d port then (told d)(v := tell_port d port (told d v)) else told d))"
proof -
  let ?d0 = "d\<lparr>evtchn_pending := (evtchn_pending d)(mask_bit d port := False)\<rparr>"
  have p0: "polls_ok ?d0" and v0: "vcpu ?d0 v \<noteq> None" using p v by (simp_all add: polls_ok_def)
  have eq0: "told ?d0 = told d" "polling ?d0 = polling d" by (simp_all add: fun_eq_iff told_def polling_def)
  have s0: "same_shape d ?d0" by simp
  have b0: "has_bit d port \<Longrightarrow> evtchn_pending ?d0 port = evtchn_pending d port" by (rule pending_unmask)
  obtain d1 where d1: "(if evtchn_mask d port \<and> evtchn_pending ?d0 port then raise_sel v port ?d0 else Some ?d0) = Some d1"
    "same_shape ?d0 d1" "polls_ok d1" "evtchn_pending d1 = evtchn_pending ?d0" "polling d1 = polling d"
    "told d1 = (if evtchn_mask d port \<and> evtchn_pending ?d0 port then (told d)(v := tell_port d port (told d v)) else told d)"
    using raise_if [OF v0 p0, of "evtchn_mask d port \<and> evtchn_pending ?d0 port" port]
    unfolding eq0 tell_port_shape [OF s0] by blast
  have sh: "same_shape d d1" using s0 d1(2) by (rule same_shape_trans)
  have "evtchn_mask d1 = (evtchn_mask d)(port := False)"
    using same_shape_mask [OF d1(2,4)] mask_unmask [of d port False] by simp
  moreover have "evtchn_2l_unmask v port d = Some d1" using d1(1) by (simp add: evtchn_2l_unmask_def Let_def)
  ultimately show ?thesis using sh d1(3-6) b0 by simp
qed

section \<open>The contract of the port operations\<close>

text \<open>
  What the generic event-channel code relies on, for the ports the ABI has bits for: setting, clearing
  and unmasking change one port only; an event on an unmasked port that was not pending, and the
  unmasking of a pending port, notify the virtual CPU, and nothing else notifies anyone.
\<close>

locale event_ports =
  fixes ok :: "'d \<Rightarrow> bool"
    and has_vcpu :: "'d \<Rightarrow> nat \<Rightarrow> bool"
    and valid :: "'d \<Rightarrow> nat \<Rightarrow> bool"
    and set_pending :: "nat \<Rightarrow> nat \<Rightarrow> 'd \<Rightarrow> 'd option"
    and clear_pending :: "nat \<Rightarrow> 'd \<Rightarrow> 'd"
    and unmask :: "nat \<Rightarrow> nat \<Rightarrow> 'd \<Rightarrow> 'd option"
    and is_pending :: "nat \<Rightarrow> 'd \<Rightarrow> bool"
    and is_masked :: "nat \<Rightarrow> 'd \<Rightarrow> bool"
    and notices :: "'d \<Rightarrow> nat \<Rightarrow> 'n"
    and notify :: "'d \<Rightarrow> nat \<Rightarrow> 'n \<Rightarrow> 'n"
  assumes set_pending: "ok d \<Longrightarrow> has_vcpu d v \<Longrightarrow> valid d p \<Longrightarrow>
      \<exists>d'. set_pending v p d = Some d' \<and> ok d' \<and> has_vcpu d' = has_vcpu d \<and> valid d' = valid d \<and> notify d' = notify d
      \<and> (\<forall>q. valid d q \<longrightarrow> is_pending q d' = (q = p \<or> is_pending q d) \<and> is_masked q d' = is_masked q d)
      \<and> notices d' = (if is_pending p d \<or> is_masked p d then notices d else (notices d)(v := notify d p (notices d v)))"
    and clear_pending: "ok d \<Longrightarrow> valid d p \<Longrightarrow>
      ok (clear_pending p d) \<and> has_vcpu (clear_pending p d) = has_vcpu d \<and> valid (clear_pending p d) = valid d
      \<and> notify (clear_pending p d) = notify d \<and> notices (clear_pending p d) = notices d
      \<and> (\<forall>q. valid d q \<longrightarrow> is_pending q (clear_pending p d) = (q \<noteq> p \<and> is_pending q d)
           \<and> is_masked q (clear_pending p d) = is_masked q d)"
    and unmask: "ok d \<Longrightarrow> has_vcpu d v \<Longrightarrow> valid d p \<Longrightarrow>
      \<exists>d'. unmask v p d = Some d' \<and> ok d' \<and> has_vcpu d' = has_vcpu d \<and> valid d' = valid d \<and> notify d' = notify d
      \<and> (\<forall>q. valid d q \<longrightarrow> is_pending q d' = is_pending q d \<and> is_masked q d' = (q \<noteq> p \<and> is_masked q d))
      \<and> notices d' = (if is_masked p d \<and> is_pending p d then (notices d)(v := notify d p (notices d v)) else notices d)"
begin

text \<open>An event on a masked port is not lost: it is delivered when the port is unmasked, and not before.\<close>

lemma masked_event_delivered:
  assumes "ok d" "has_vcpu d v" "valid d p" "is_masked p d"
  shows "\<exists>d1 d2. set_pending v p d = Some d1 \<and> notices d1 = notices d \<and> unmask v p d1 = Some d2 \<and> ok d2
    \<and> is_pending p d2 \<and> \<not> is_masked p d2 \<and> notices d2 = (notices d)(v := notify d p (notices d v))
    \<and> (\<forall>q. valid d q \<longrightarrow> q \<noteq> p \<longrightarrow> is_pending q d2 = is_pending q d \<and> is_masked q d2 = is_masked q d)"
proof -
  obtain d1 where d1: "set_pending v p d = Some d1" "ok d1" "has_vcpu d1 v" "valid d1 = valid d" "notify d1 = notify d"
    "\<And>q. valid d q \<Longrightarrow> is_pending q d1 = (q = p \<or> is_pending q d) \<and> is_masked q d1 = is_masked q d" "notices d1 = notices d"
    using set_pending [OF assms(1-3)] assms(2,4) by auto
  have p1: "valid d1 p" "is_pending p d1" "is_masked p d1" using d1(4,6) assms(3,4) by auto
  obtain d2 where d2: "unmask v p d1 = Some d2" "ok d2"
    "\<And>q. valid d1 q \<Longrightarrow> is_pending q d2 = is_pending q d1 \<and> is_masked q d2 = (q \<noteq> p \<and> is_masked q d1)"
    "notices d2 = (notices d1)(v := notify d1 p (notices d1 v))"
    using unmask [OF d1(2,3) p1(1)] p1 by auto
  have "is_pending p d2" "\<not> is_masked p d2" using d2(3) [OF p1(1)] p1(2) by auto
  moreover have "is_pending q d2 = is_pending q d \<and> is_masked q d2 = is_masked q d" if "valid d q" "q \<noteq> p" for q
    using d2(3) [of q] d1(6) [of q] that d1(4) by simp
  ultimately show ?thesis using d1 d2 by auto
qed

end

lemma has_vcpu_shape: "same_shape d d' \<Longrightarrow> (\<lambda>v. vcpu d' v \<noteq> None) = (\<lambda>v. vcpu d v \<noteq> None)"
  using same_shape_vcpu by (auto simp: fun_eq_iff)

interpretation ports2l: event_ports polls_ok "\<lambda>d v. vcpu d v \<noteq> None" has_bit evtchn_2l_set_pending evtchn_2l_clear_pending
  evtchn_2l_unmask evtchn_2l_is_pending evtchn_2l_is_masked told tell_port
proof (unfold_locales, goal_cases)
  case (1 d v p)
  obtain d' where d': "evtchn_2l_set_pending v p d = Some d'" "same_shape d d'" "polls_ok d'"
    "evtchn_pending d' = (evtchn_pending d)(p := True)" "evtchn_mask d' = evtchn_mask d"
    "told d' = (if evtchn_pending d p \<or> evtchn_mask d p then told d else (told d)(v := tell_port d p (told d v)))"
    using set_pending_correct [OF 1(2,1), of p] 1(3) by blast
  then show ?case
    using has_vcpu_shape [OF d'(2)] has_bit_shape [OF d'(2)] tell_port_shape [OF d'(2)]
    by (simp add: evtchn_2l_is_pending_def evtchn_2l_is_masked_def)
next
  case (2 d p)
  have s: "same_shape d (evtchn_2l_clear_pending p d)" by (simp add: evtchn_2l_clear_pending_def)
  show ?case using 2 has_vcpu_shape [OF s] has_bit_shape [OF s] tell_port_shape [OF s] mask_set_pending [of d p False]
    by (simp add: evtchn_2l_clear_pending_def evtchn_2l_is_pending_def evtchn_2l_is_masked_def polls_ok_def told_def fun_eq_iff)
next
  case (3 d v p)
  obtain d' where d': "evtchn_2l_unmask v p d = Some d'" "same_shape d d'" "polls_ok d'"
    "evtchn_pending d' = (evtchn_pending d)(mask_bit d p := False)" "evtchn_mask d' = (evtchn_mask d)(p := False)"
    "told d' = (if evtchn_mask d p \<and> evtchn_pending d p then (told d)(v := tell_port d p (told d v)) else told d)"
    using unmask_correct [OF 3(2,1), of p] 3(3) by auto
  have "has_bit d q \<Longrightarrow> evtchn_pending d' q = evtchn_pending d q" for q
    using pending_unmask [of d q p False] d'(4) by simp
  then show ?case
    using d' has_vcpu_shape [OF d'(2)] has_bit_shape [OF d'(2)] tell_port_shape [OF d'(2)]
    by (auto simp: evtchn_2l_is_pending_def evtchn_2l_is_masked_def)
qed

end
