(* ===== verification/Evtchn.thy ===== *)
theory Evtchn
  imports Evtchn_Port
begin

text \<open>
  The event-channel operations of \<^verbatim>\<open>xen/common/event_channel.c\<close> for domains of the two-level ABI.
  The state is the table of domains, the table of Xen consumers and the handlers of global
  virtual IRQs. An operation runs under the event locks of the domains it touches and is one
  step. What the operation asks other code is an input, the record \<open>env\<close>: whether allocations
  succeed, the verdict of the security module (0 or an error), the answer of the IRQ code, and
  whether guest memory can be copied. A result is an error number (\<open>Inl\<close>) or a port
  (\<open>Inr\<close>), with the state, which an error may have changed; \<open>None\<close> is a \<^verbatim>\<open>BUG\<close> or a
  null pointer.
\<close>

section \<open>State\<close>

record esys =
  doms :: "nat \<Rightarrow> edomain option"
  xen_consumers :: "nat \<Rightarrow> nat option"
  global_virq_handlers :: "nat \<Rightarrow> nat option"

record env =
  alloc_ok :: bool
  xsm :: int
  pirq_alloc_ok :: bool
  pirq_permitted :: bool
  pirq_guest_bind :: int
  copy_from_ok :: bool
  copy_to_ok :: bool

definition DOMID_SELF :: nat where
  "DOMID_SELF = 0x7ff0"

definition INT_MAX :: nat where
  "INT_MAX = 2 ^ 31 - 1"

definition put_dom :: "nat \<Rightarrow> edomain \<Rightarrow> esys \<Rightarrow> esys" where
  "put_dom d D s = s\<lparr>doms := (doms s)(d := Some D)\<rparr>"

definition upd_dom :: "nat \<Rightarrow> (edomain \<Rightarrow> edomain) \<Rightarrow> esys \<Rightarrow> esys" where
  "upd_dom d f s = s\<lparr>doms := (doms s)(d := map_option f (doms s d))\<rparr>"

definition set_state :: "nat \<Rightarrow> ecs \<Rightarrow> edomain \<Rightarrow> edomain" where
  "set_state p st = upd_chn p (\<lambda>e. e\<lparr>chn_state := st\<rparr>)"

definition rcu_lock_domain_by_any_id :: "nat \<Rightarrow> nat \<Rightarrow> esys \<Rightarrow> nat option" where
  "rcu_lock_domain_by_any_id cur domid s =
     (if domid = DOMID_SELF then Some cur else if doms s domid \<noteq> None then Some domid else None)"

section \<open>Xen consumers and virtual IRQs\<close>

definition NR_XEN_CONSUMERS :: nat where
  "NR_XEN_CONSUMERS = 2 ^ 3 - 1"

fun find_consumer :: "nat \<Rightarrow> nat list \<Rightarrow> (nat \<Rightarrow> nat option) \<Rightarrow> (nat \<times> (nat \<Rightarrow> nat option)) option" where
  "find_consumer fn [] tab = None"
| "find_consumer fn (i # is) tab =
     (let tab = (if tab i = None then tab(i := Some fn) else tab)
      in if tab i = Some fn then Some (i + 1, tab) else find_consumer fn is tab)"

text \<open>The default notification function has the number 0; a null pointer selects it.\<close>

definition get_xen_consumer :: "nat option \<Rightarrow> esys \<Rightarrow> (nat \<times> esys) option" where
  "get_xen_consumer fn s =
     map_option (\<lambda>(i, tab). (i, s\<lparr>xen_consumers := tab\<rparr>))
       (find_consumer (case fn of None \<Rightarrow> 0 | Some f \<Rightarrow> f) [0..<NR_XEN_CONSUMERS] (xen_consumers s))"

definition default_xen_notification_fn :: "nat \<Rightarrow> nat \<Rightarrow> esys \<Rightarrow> esys option" where
  "default_xen_notification_fn d v s =
     do {
       D \<leftarrow> doms s d;
       _ \<leftarrow> vcpu D v;
       Some (put_dom d (upd_vcpu v (\<lambda>r. r\<lparr>vpf_blocked_in_xen := False\<rparr>) D) s)
     }"

definition virq_is_global :: "nat \<Rightarrow> bool" where
  "virq_is_global virq \<longleftrightarrow> virq \<notin> {0, 1, 7}"

section \<open>Ports\<close>

datatype scan = Scan_full | Scan_found nat | Scan_end nat

function free_port_scan :: "edomain \<Rightarrow> nat \<Rightarrow> scan" where
  "free_port_scan d port =
     (if \<not> port_is_valid d port then Scan_end port
      else if port > max_evtchn_port d then Scan_full
      else if map_option chn_state (evtchn_from_port d port) = Some ECS_FREE then Scan_found port
      else free_port_scan d (Suc port))"
  by pat_completeness auto
termination
  by (relation "measure (\<lambda>(d, port). max_evtchns d - port)") (auto simp: port_is_valid_def)

declare free_port_scan.simps [simp del]

definition alloc_evtchn_bucket :: "nat \<Rightarrow> edomain \<Rightarrow> edomain" where
  "alloc_evtchn_bucket port d =
     d\<lparr>chn := (\<lambda>p. if p div EVTCHNS_PER_BUCKET = port div EVTCHNS_PER_BUCKET
                   then Some \<lparr>chn_state = ECS_FREE, xen_consumer = 0, notify_vcpu_id = 0\<rparr> else chn d p)\<rparr>"

definition free_evtchn_bucket :: "nat \<Rightarrow> edomain \<Rightarrow> edomain" where
  "free_evtchn_bucket port d =
     d\<lparr>chn := (\<lambda>p. if p div EVTCHNS_PER_BUCKET = port div EVTCHNS_PER_BUCKET then None else chn d p)\<rparr>"

definition get_free_port :: "env \<Rightarrow> edomain \<Rightarrow> (int + nat) \<times> edomain" where
  "get_free_port E d =
     (if is_dying d then (Inl (- EINVAL), d)
      else
        (case free_port_scan d 0 of
           Scan_full \<Rightarrow> (Inl (- ENOSPC), d)
         | Scan_found port \<Rightarrow> (Inr port, d)
         | Scan_end port \<Rightarrow>
             if port = max_evtchns d \<or> port > max_evtchn_port d then (Inl (- ENOSPC), d)
             else if \<not> alloc_ok E then (Inl (- ENOMEM), d)
             else (Inr port, alloc_evtchn_bucket port d)))"

definition evtchn_set_pending :: "nat \<Rightarrow> nat \<Rightarrow> nat \<Rightarrow> esys \<Rightarrow> esys option" where
  "evtchn_set_pending d v port s =
     do {
       D \<leftarrow> doms s d;
       _ \<leftarrow> evtchn_from_port D port;
       D \<leftarrow> evtchn_port_set_pending v port D;
       Some (put_dom d D s)
     }"

section \<open>Binding\<close>

definition evtchn_alloc_unbound :: "env \<Rightarrow> nat \<Rightarrow> nat \<Rightarrow> nat \<Rightarrow> esys \<Rightarrow> ((int + nat) \<times> esys) option" where
  "evtchn_alloc_unbound E cur domid remote_dom s =
     (case rcu_lock_domain_by_any_id cur domid s of
        None \<Rightarrow> Some (Inl (- ESRCH), s)
      | Some d \<Rightarrow>
          do {
            D \<leftarrow> doms s d;
            case get_free_port E D of
              (Inl rc, D) \<Rightarrow> Some (Inl rc, put_dom d D s)
            | (Inr port, D) \<Rightarrow>
                if xsm E \<noteq> 0 then Some (Inl (xsm E), put_dom d D s)
                else
                  (let remote = (if remote_dom = DOMID_SELF then cur else remote_dom)
                   in Some (Inr port, put_dom d (set_state port (ECS_UNBOUND remote) D) s))
          })"

definition bind_remote :: "env \<Rightarrow> nat \<Rightarrow> nat \<Rightarrow> nat \<Rightarrow> nat \<Rightarrow> esys \<Rightarrow> ((int + nat) \<times> esys) option" where
  "bind_remote E ld lport rd rport s =
     do {
       RD \<leftarrow> doms s rd;
       if \<not> port_is_valid RD rport then Some (Inl (- EINVAL), s)
       else do {
         rchn \<leftarrow> evtchn_from_port RD rport;
         if chn_state rchn \<noteq> ECS_UNBOUND ld then Some (Inl (- EINVAL), s)
         else if xsm E \<noteq> 0 then Some (Inl (xsm E), s)
         else do {
           let s = upd_dom ld (set_state lport (ECS_INTERDOMAIN rd rport)) s;
           let s = upd_dom rd (set_state rport (ECS_INTERDOMAIN ld lport)) s;
           LD \<leftarrow> doms s ld;
           lchn \<leftarrow> evtchn_from_port LD lport;
           s \<leftarrow> evtchn_set_pending ld (notify_vcpu_id lchn) lport s;
           Some (Inr lport, s)
         }
       }
     }"

definition evtchn_bind_interdomain :: "env \<Rightarrow> nat \<Rightarrow> nat \<Rightarrow> nat \<Rightarrow> esys \<Rightarrow> ((int + nat) \<times> esys) option" where
  "evtchn_bind_interdomain E cur rdom rport s =
     (let rd = (if rdom = DOMID_SELF then cur else rdom)
      in if doms s rd = None then Some (Inl (- ESRCH), s)
         else do {
           LD \<leftarrow> doms s cur;
           case get_free_port E LD of
             (Inl rc, LD) \<Rightarrow> Some (Inl rc, put_dom cur LD s)
           | (Inr lport, LD) \<Rightarrow> bind_remote E cur lport rd rport (put_dom cur LD s)
         })"

definition evtchn_bind_virq :: "env \<Rightarrow> nat \<Rightarrow> int \<Rightarrow> int \<Rightarrow> esys \<Rightarrow> ((int + nat) \<times> esys) option" where
  "evtchn_bind_virq E cur virq vid s =
     (if virq < 0 \<or> virq \<ge> int NR_VIRQS then Some (Inl (- EINVAL), s)
      else if virq_is_global (nat virq) \<and> vid \<noteq> 0 then Some (Inl (- EINVAL), s)
      else do {
        D \<leftarrow> doms s cur;
        if vid < 0 \<or> vid \<ge> int (max_vcpus D) then Some (Inl (- ENOENT), s)
        else
          (case vcpu D (nat vid) of
             None \<Rightarrow> Some (Inl (- ENOENT), s)
           | Some v \<Rightarrow>
               if virq_to_evtchn v (nat virq) \<noteq> 0 then Some (Inl (- EEXIST), s)
               else
                 (case get_free_port E D of
                    (Inl rc, D) \<Rightarrow> Some (Inl rc, put_dom cur D s)
                  | (Inr port, D) \<Rightarrow>
                      (let D = upd_chn port (\<lambda>e. e\<lparr>chn_state := ECS_VIRQ (nat virq), notify_vcpu_id := nat vid\<rparr>) D;
                           D = upd_vcpu (nat vid) (\<lambda>v. v\<lparr>virq_to_evtchn := (virq_to_evtchn v)(nat virq := port)\<rparr>) D
                       in Some (Inr port, put_dom cur D s))))
      })"

definition evtchn_bind_ipi :: "env \<Rightarrow> nat \<Rightarrow> int \<Rightarrow> esys \<Rightarrow> ((int + nat) \<times> esys) option" where
  "evtchn_bind_ipi E cur vid s =
     do {
       D \<leftarrow> doms s cur;
       if vid < 0 \<or> vid \<ge> int (max_vcpus D) \<or> vcpu D (nat vid) = None then Some (Inl (- ENOENT), s)
       else
         (case get_free_port E D of
            (Inl rc, D) \<Rightarrow> Some (Inl rc, put_dom cur D s)
          | (Inr port, D) \<Rightarrow>
              Some (Inr port, put_dom cur (upd_chn port (\<lambda>e. e\<lparr>chn_state := ECS_IPI, notify_vcpu_id := nat vid\<rparr>) D) s))
     }"

section \<open>Physical IRQs\<close>

text \<open>
  The channels bound to physical IRQs form a doubly linked list per virtual CPU. Writing the links
  of a channel that is not bound to an IRQ would overwrite another member of its union.
\<close>

definition set_next_port :: "nat \<Rightarrow> nat \<Rightarrow> edomain \<Rightarrow> edomain option" where
  "set_next_port p n d =
     do {
       e \<leftarrow> evtchn_from_port d p;
       case chn_state e of ECS_PIRQ irq _ prev \<Rightarrow> Some (set_state p (ECS_PIRQ irq n prev) d) | _ \<Rightarrow> None
     }"

definition set_prev_port :: "nat \<Rightarrow> nat \<Rightarrow> edomain \<Rightarrow> edomain option" where
  "set_prev_port p n d =
     do {
       e \<leftarrow> evtchn_from_port d p;
       case chn_state e of ECS_PIRQ irq next _ \<Rightarrow> Some (set_state p (ECS_PIRQ irq next n) d) | _ \<Rightarrow> None
     }"

definition link_pirq_port :: "nat \<Rightarrow> nat \<Rightarrow> edomain \<Rightarrow> edomain option" where
  "link_pirq_port port v d =
     do {
       V \<leftarrow> vcpu d v;
       d \<leftarrow> set_prev_port port 0 d;
       d \<leftarrow> set_next_port port (pirq_evtchn_head V) d;
       d \<leftarrow> (if pirq_evtchn_head V \<noteq> 0 then set_prev_port (pirq_evtchn_head V) port d else Some d);
       Some (upd_vcpu v (\<lambda>r. r\<lparr>pirq_evtchn_head := port\<rparr>) d)
     }"

definition unlink_pirq_port :: "nat \<Rightarrow> nat \<Rightarrow> edomain \<Rightarrow> edomain option" where
  "unlink_pirq_port port v d =
     do {
       _ \<leftarrow> vcpu d v;
       e \<leftarrow> evtchn_from_port d port;
       case chn_state e of
         ECS_PIRQ _ next prev \<Rightarrow>
           do {
             d \<leftarrow> (if prev \<noteq> 0 then set_next_port prev next d
                   else Some (upd_vcpu v (\<lambda>r. r\<lparr>pirq_evtchn_head := next\<rparr>) d));
             if next \<noteq> 0 then set_prev_port next prev d else Some d
           }
       | _ \<Rightarrow> None
     }"

definition pirq_to_evtchn :: "edomain \<Rightarrow> nat \<Rightarrow> nat" where
  "pirq_to_evtchn d pirq = (case pirq_evtchn d pirq of None \<Rightarrow> 0 | Some p \<Rightarrow> p)"

text \<open>
  The macro \<^verbatim>\<open>pirq_cleanup_check\<close> calls the cleanup only for an IRQ that has a port, and both callers
  have just cleared the port: it never does anything here. The mapping of emulated IRQs of HVM
  domains is not modelled.
\<close>

definition evtchn_bind_pirq :: "env \<Rightarrow> nat \<Rightarrow> int \<Rightarrow> esys \<Rightarrow> ((int + nat) \<times> esys) option" where
  "evtchn_bind_pirq E cur pirq s =
     do {
       D \<leftarrow> doms s cur;
       if pirq < 0 \<or> pirq \<ge> int (nr_pirqs D) then Some (Inl (- EINVAL), s)
       else if \<not> is_hvm_domain D \<and> \<not> pirq_permitted E then Some (Inl (- EPERM), s)
       else if pirq_to_evtchn D (nat pirq) \<noteq> 0 then Some (Inl (- EEXIST), s)
       else
         (case get_free_port E D of
            (Inl rc, D) \<Rightarrow> Some (Inl rc, put_dom cur D s)
          | (Inr port, D) \<Rightarrow>
              if pirq_evtchn D (nat pirq) = None \<and> \<not> pirq_alloc_ok E then Some (Inl (- ENOMEM), put_dom cur D s)
              else
                (let rc = (if \<not> is_hvm_domain D then pirq_guest_bind E else 0)
                 in if rc \<noteq> 0
                    then Some (Inl rc, put_dom cur (D\<lparr>pirq_evtchn := (pirq_evtchn D)(nat pirq := Some 0)\<rparr>) s)
                    else do {
                      let D = D\<lparr>pirq_evtchn := (pirq_evtchn D)(nat pirq := Some (port mod 2 ^ 16))\<rparr>;
                      D \<leftarrow> link_pirq_port port 0 (set_state port (ECS_PIRQ (nat pirq) 0 0) D);
                      Some (Inr port, put_dom cur D s)
                    }))
     }"

section \<open>Closing\<close>

definition clear_virq :: "nat \<Rightarrow> nat \<Rightarrow> edomain \<Rightarrow> edomain" where
  "clear_virq virq port d =
     d\<lparr>vcpu := (\<lambda>v. map_option (\<lambda>r. if virq_to_evtchn r virq \<noteq> port then r
                                   else r\<lparr>virq_to_evtchn := (virq_to_evtchn r)(virq := 0)\<rparr>) (vcpu d v))\<rparr>"

definition close_interdomain :: "nat \<Rightarrow> nat \<Rightarrow> nat \<Rightarrow> esys \<Rightarrow> esys option" where
  "close_interdomain d1 d2 port2 s =
     do {
       D2 \<leftarrow> doms s d2;
       if \<not> port_is_valid D2 port2 then None
       else do {
         chn2 \<leftarrow> evtchn_from_port D2 port2;
         case chn_state chn2 of
           ECS_INTERDOMAIN rd _ \<Rightarrow>
             if rd \<noteq> d1 then None else Some (upd_dom d2 (set_state port2 (ECS_UNBOUND d1)) s)
         | _ \<Rightarrow> None
       }
     }"

definition close_switch :: "nat \<Rightarrow> nat \<Rightarrow> evtchn \<Rightarrow> esys \<Rightarrow> (int \<times> esys) option" where
  "close_switch d1 port1 chn1 s =
     (case chn_state chn1 of
        ECS_FREE \<Rightarrow> Some (- EINVAL, s)
      | ECS_RESERVED \<Rightarrow> Some (- EINVAL, s)
      | ECS_UNBOUND _ \<Rightarrow> Some (0, s)
      | ECS_PIRQ irq _ _ \<Rightarrow>
          do {
            D \<leftarrow> doms s d1;
            if pirq_evtchn D irq = None then Some (0, s)
            else do {
              D \<leftarrow> unlink_pirq_port port1 (notify_vcpu_id chn1) (D\<lparr>pirq_evtchn := (pirq_evtchn D)(irq := Some 0)\<rparr>);
              Some (0, put_dom d1 D s)
            }
          }
      | ECS_VIRQ virq \<Rightarrow> Some (0, upd_dom d1 (clear_virq virq port1) s)
      | ECS_IPI \<Rightarrow> Some (0, s)
      | ECS_INTERDOMAIN d2 port2 \<Rightarrow> map_option (Pair 0) (close_interdomain d1 d2 port2 s))"

text \<open>\<^verbatim>\<open>__evtchn_close\<close>.\<close>

definition do_evtchn_close :: "nat \<Rightarrow> nat \<Rightarrow> esys \<Rightarrow> (int \<times> esys) option" where
  "do_evtchn_close d1 port1 s =
     do {
       D1 \<leftarrow> doms s d1;
       if \<not> port_is_valid D1 port1 then Some (- EINVAL, s)
       else do {
         chn1 \<leftarrow> evtchn_from_port D1 port1;
         if xen_consumer chn1 \<noteq> 0 then Some (- EINVAL, s)
         else do {
           (rc, s) \<leftarrow> close_switch d1 port1 chn1 s;
           if rc \<noteq> 0 then Some (rc, s)
           else
             (let s = upd_dom d1 (evtchn_port_clear_pending port1) s
              in Some (0, upd_dom d1 (upd_chn port1 (\<lambda>e. e\<lparr>chn_state := ECS_FREE, notify_vcpu_id := 0\<rparr>)) s))
         }
       }
     }"

definition evtchn_close :: "nat \<Rightarrow> nat \<Rightarrow> esys \<Rightarrow> (int \<times> esys) option" where
  "evtchn_close cur port s = do_evtchn_close cur port s"

section \<open>Sending\<close>

text \<open>The notification functions of Xen's own consumers, other than the default one, are a parameter.\<close>

type_synonym notifiers = "nat \<Rightarrow> nat \<Rightarrow> nat \<Rightarrow> nat \<Rightarrow> esys \<Rightarrow> esys option"

definition xen_notify :: "notifiers \<Rightarrow> nat \<Rightarrow> nat \<Rightarrow> nat \<Rightarrow> nat \<Rightarrow> esys \<Rightarrow> esys option" where
  "xen_notify notifier consumer d v port s =
     (case xen_consumers s (consumer - 1) of
        None \<Rightarrow> None
      | Some fn \<Rightarrow> if fn = 0 then default_xen_notification_fn d v s else notifier fn d v port s)"

definition evtchn_send :: "notifiers \<Rightarrow> env \<Rightarrow> nat \<Rightarrow> nat \<Rightarrow> esys \<Rightarrow> (int \<times> esys) option" where
  "evtchn_send notifier E ld lport s =
     do {
       LD \<leftarrow> doms s ld;
       if \<not> port_is_valid LD lport then Some (- EINVAL, s)
       else do {
         lchn \<leftarrow> evtchn_from_port LD lport;
         if xen_consumer lchn \<noteq> 0 then Some (- EINVAL, s)
         else if xsm E \<noteq> 0 then Some (xsm E, s)
         else
           (case chn_state lchn of
              ECS_INTERDOMAIN rd rport \<Rightarrow>
                do {
                  RD \<leftarrow> doms s rd;
                  rchn \<leftarrow> evtchn_from_port RD rport;
                  s \<leftarrow> (if xen_consumer rchn \<noteq> 0
                        then xen_notify notifier (xen_consumer rchn) rd (notify_vcpu_id rchn) rport s
                        else evtchn_set_pending rd (notify_vcpu_id rchn) rport s);
                  Some (0, s)
                }
            | ECS_IPI \<Rightarrow> do { s \<leftarrow> evtchn_set_pending ld (notify_vcpu_id lchn) lport s; Some (0, s) }
            | ECS_UNBOUND _ \<Rightarrow> Some (0, s)
            | _ \<Rightarrow> Some (- EINVAL, s))
       }
     }"

definition guest_enabled_event :: "nat \<Rightarrow> nat \<Rightarrow> nat \<Rightarrow> esys \<Rightarrow> bool" where
  "guest_enabled_event d v virq s =
     (case Option.bind (doms s d) (\<lambda>D. vcpu D v) of None \<Rightarrow> False | Some r \<Rightarrow> virq_to_evtchn r virq \<noteq> 0)"

definition send_guest_vcpu_virq :: "nat \<Rightarrow> nat \<Rightarrow> nat \<Rightarrow> esys \<Rightarrow> esys option" where
  "send_guest_vcpu_virq d v virq s =
     (if virq \<ge> NR_VIRQS \<or> virq_is_global virq then None
      else do {
        D \<leftarrow> doms s d;
        V \<leftarrow> vcpu D v;
        if virq_to_evtchn V virq = 0 then Some s else evtchn_set_pending d v (virq_to_evtchn V virq) s
      })"

definition send_guest_global_virq :: "nat option \<Rightarrow> nat \<Rightarrow> esys \<Rightarrow> esys option" where
  "send_guest_global_virq dp virq s =
     (if virq \<ge> NR_VIRQS \<or> \<not> virq_is_global virq then None
      else
        (case dp of
           None \<Rightarrow> Some s
         | Some d \<Rightarrow>
             do {
               D \<leftarrow> doms s d;
               case vcpu D 0 of
                 None \<Rightarrow> Some s
               | Some V \<Rightarrow>
                   if virq_to_evtchn V virq = 0 then Some s
                   else do {
                     e \<leftarrow> evtchn_from_port D (virq_to_evtchn V virq);
                     evtchn_set_pending d (notify_vcpu_id e) (virq_to_evtchn V virq) s
                   }
             }))"

definition send_guest_pirq :: "nat \<Rightarrow> nat \<Rightarrow> esys \<Rightarrow> esys option" where
  "send_guest_pirq d pirq s =
     do {
       D \<leftarrow> doms s d;
       if pirq_to_evtchn D pirq = 0 then (if is_hvm_domain D then Some s else None)
       else do {
         e \<leftarrow> evtchn_from_port D (pirq_to_evtchn D pirq);
         evtchn_set_pending d (notify_vcpu_id e) (pirq_to_evtchn D pirq) s
       }
     }"

definition send_global_virq :: "nat option \<Rightarrow> nat \<Rightarrow> esys \<Rightarrow> esys option" where
  "send_global_virq hardware_domain virq s =
     (if virq \<ge> NR_VIRQS then None
      else send_guest_global_virq
             (case global_virq_handlers s virq of Some d \<Rightarrow> Some d | None \<Rightarrow> hardware_domain) virq s)"

text \<open>Whether a reference to the domain can be taken is the input \<open>get_domain\<close>.\<close>

definition set_global_virq_handler :: "bool \<Rightarrow> nat \<Rightarrow> nat \<Rightarrow> esys \<Rightarrow> int \<times> esys" where
  "set_global_virq_handler get_domain d virq s =
     (if virq \<ge> NR_VIRQS then (- EINVAL, s)
      else if \<not> virq_is_global virq then (- EINVAL, s)
      else if global_virq_handlers s virq = Some d then (0, s)
      else if \<not> get_domain then (- EINVAL, s)
      else (0, s\<lparr>global_virq_handlers := (global_virq_handlers s)(virq := Some d)\<rparr>))"

definition clear_global_virq_handlers :: "nat \<Rightarrow> esys \<Rightarrow> esys" where
  "clear_global_virq_handlers d s =
     s\<lparr>global_virq_handlers :=
       (\<lambda>virq. if virq < NR_VIRQS \<and> global_virq_handlers s virq = Some d then None else global_virq_handlers s virq)\<rparr>"

section \<open>Status and configuration\<close>

datatype estatus =
  EVTCHNSTAT_closed
| EVTCHNSTAT_unbound nat
| EVTCHNSTAT_interdomain nat nat
| EVTCHNSTAT_pirq nat
| EVTCHNSTAT_virq nat
| EVTCHNSTAT_ipi

fun status_of :: "ecs \<Rightarrow> estatus" where
  "status_of ECS_FREE = EVTCHNSTAT_closed"
| "status_of ECS_RESERVED = EVTCHNSTAT_closed"
| "status_of (ECS_UNBOUND d) = EVTCHNSTAT_unbound d"
| "status_of (ECS_INTERDOMAIN d p) = EVTCHNSTAT_interdomain d p"
| "status_of (ECS_PIRQ irq _ _) = EVTCHNSTAT_pirq irq"
| "status_of (ECS_VIRQ virq) = EVTCHNSTAT_virq virq"
| "status_of ECS_IPI = EVTCHNSTAT_ipi"

definition evtchn_status :: "env \<Rightarrow> nat \<Rightarrow> nat \<Rightarrow> nat \<Rightarrow> esys \<Rightarrow> (int + estatus \<times> nat) option" where
  "evtchn_status E cur domid port s =
     (case rcu_lock_domain_by_any_id cur domid s of
        None \<Rightarrow> Some (Inl (- ESRCH))
      | Some d \<Rightarrow>
          do {
            D \<leftarrow> doms s d;
            if \<not> port_is_valid D port then Some (Inl (- EINVAL))
            else do {
              e \<leftarrow> evtchn_from_port D port;
              if xsm E \<noteq> 0 then Some (Inl (xsm E))
              else Some (Inr (status_of (chn_state e), notify_vcpu_id e))
            }
          })"

definition rebind_pirq :: "nat \<Rightarrow> nat \<Rightarrow> nat \<Rightarrow> edomain \<Rightarrow> edomain option" where
  "rebind_pirq port old vid D =
     do {
       D \<leftarrow> unlink_pirq_port port old D;
       link_pirq_port port vid (upd_chn port (\<lambda>e. e\<lparr>notify_vcpu_id := vid\<rparr>) D)
     }"

definition evtchn_bind_vcpu :: "nat \<Rightarrow> nat \<Rightarrow> nat \<Rightarrow> esys \<Rightarrow> (int \<times> esys) option" where
  "evtchn_bind_vcpu cur port vid s =
     do {
       D \<leftarrow> doms s cur;
       if vid \<ge> max_vcpus D \<or> vcpu D vid = None then Some (- ENOENT, s)
       else if \<not> port_is_valid D port then Some (- EINVAL, s)
       else do {
         e \<leftarrow> evtchn_from_port D port;
         let bind = upd_chn port (\<lambda>e. e\<lparr>notify_vcpu_id := vid\<rparr>);
         if xen_consumer e \<noteq> 0 then Some (- EINVAL, s)
         else
           (case chn_state e of
              ECS_VIRQ virq \<Rightarrow>
                if virq_is_global virq then Some (0, put_dom cur (bind D) s) else Some (- EINVAL, s)
            | ECS_UNBOUND _ \<Rightarrow> Some (0, put_dom cur (bind D) s)
            | ECS_INTERDOMAIN _ _ \<Rightarrow> Some (0, put_dom cur (bind D) s)
            | ECS_PIRQ irq _ _ \<Rightarrow>
                if notify_vcpu_id e = vid then Some (0, s)
                else map_option (\<lambda>D. (0, put_dom cur D s)) (rebind_pirq port (notify_vcpu_id e) vid D)
            | _ \<Rightarrow> Some (- EINVAL, s))
       }
     }"

definition evtchn_unmask :: "nat \<Rightarrow> nat \<Rightarrow> esys \<Rightarrow> (int \<times> esys) option" where
  "evtchn_unmask cur port s =
     do {
       D \<leftarrow> doms s cur;
       if \<not> port_is_valid D port then Some (- EINVAL, s)
       else do { D \<leftarrow> evtchn_port_unmask port D; Some (0, put_dom cur D s) }
     }"

definition evtchn_set_priority :: "nat \<Rightarrow> nat \<Rightarrow> nat \<Rightarrow> esys \<Rightarrow> int option" where
  "evtchn_set_priority cur port priority s =
     map_option (\<lambda>D. if \<not> port_is_valid D port then - EINVAL else evtchn_port_set_priority D port priority) (doms s cur)"

section \<open>Reset, creation and destruction\<close>

text \<open>Closing every port; \<open>force\<close> detaches Xen's consumers first, as the destruction of a domain does.\<close>

partial_function (option) close_ports :: "bool \<Rightarrow> nat \<Rightarrow> nat \<Rightarrow> esys \<Rightarrow> esys option" where
  "close_ports force d i s =
     do {
       D \<leftarrow> doms s d;
       if \<not> port_is_valid D i then Some s
       else do {
         let s = (if force then upd_dom d (upd_chn i (\<lambda>e. e\<lparr>xen_consumer := 0\<rparr>)) s else s);
         (_, s) \<leftarrow> do_evtchn_close d i s;
         close_ports force d (Suc i) s
       }
     }"

definition evtchn_reset :: "env \<Rightarrow> nat \<Rightarrow> nat \<Rightarrow> esys \<Rightarrow> (int \<times> esys) option" where
  "evtchn_reset E cur domid s =
     (case rcu_lock_domain_by_any_id cur domid s of
        None \<Rightarrow> Some (- ESRCH, s)
      | Some d \<Rightarrow>
          if xsm E \<noteq> 0 then Some (xsm E, s)
          else map_option (Pair 0) (close_ports False d 0 s))"

text \<open>
  The second allocation of \<^verbatim>\<open>evtchn_init\<close>, of the mask of polling virtual CPUs, has its own outcome. On a
  failure the bucket is freed; the pointer to it, which the code leaves in place, is not followed
  again, because the creation of the domain fails.
\<close>

definition evtchn_init :: "env \<Rightarrow> bool \<Rightarrow> edomain \<Rightarrow> int \<times> edomain" where
  "evtchn_init E poll_mask_ok D =
     (let D = (evtchn_2l_init D)\<lparr>max_evtchn_port := INT_MAX\<rparr>
      in if \<not> alloc_ok E then (- ENOMEM, D)
         else
           (let D = alloc_evtchn_bucket 0 D;
                (r, D) = get_free_port E D
            in if r \<noteq> Inr 0 then (- EINVAL, free_evtchn_bucket 0 D)
               else if \<not> poll_mask_ok then (- ENOMEM, free_evtchn_bucket 0 (set_state 0 ECS_RESERVED D))
               else (0, (set_state 0 ECS_RESERVED D)\<lparr>poll_mask := (\<lambda>_. False)\<rparr>)))"

definition evtchn_destroy :: "nat \<Rightarrow> esys \<Rightarrow> esys option" where
  "evtchn_destroy d s =
     do {
       D \<leftarrow> doms s d;
       if \<not> is_dying D then None
       else do {
         s \<leftarrow> close_ports True d 0 s;
         Some (clear_global_virq_handlers d (upd_dom d (\<lambda>D. D\<lparr>chn := (\<lambda>_. None)\<rparr>) s))
       }
     }"

section \<open>Channels of Xen itself\<close>

definition alloc_unbound_xen_event_channel :: "env \<Rightarrow> nat \<Rightarrow> nat \<Rightarrow> nat \<Rightarrow> nat option \<Rightarrow> esys \<Rightarrow> ((int + nat) \<times> esys) option" where
  "alloc_unbound_xen_event_channel E d vid remote fn s =
     do {
       D \<leftarrow> doms s d;
       case get_free_port E D of
         (Inl rc, D) \<Rightarrow> Some (Inl rc, put_dom d D s)
       | (Inr port, D) \<Rightarrow>
           if xsm E \<noteq> 0 then Some (if xsm E < 0 then Inl (xsm E) else Inr port, put_dom d D s)
           else do {
             (i, s) \<leftarrow> get_xen_consumer fn s;
             Some (Inr port,
                   put_dom d (upd_chn port (\<lambda>e. e\<lparr>chn_state := ECS_UNBOUND remote, xen_consumer := i, notify_vcpu_id := vid\<rparr>) D) s)
           }
     }"

definition free_xen_event_channel :: "nat \<Rightarrow> nat \<Rightarrow> esys \<Rightarrow> esys option" where
  "free_xen_event_channel d port s =
     do {
       D \<leftarrow> doms s d;
       if is_dying D then Some s
       else if \<not> port_is_valid D port then None
       else do {
         e \<leftarrow> evtchn_from_port D port;
         if xen_consumer e = 0 then None
         else map_option snd (do_evtchn_close d port (upd_dom d (upd_chn port (\<lambda>e. e\<lparr>xen_consumer := 0\<rparr>)) s))
       }
     }"

definition notify_via_xen_event_channel :: "nat \<Rightarrow> nat \<Rightarrow> esys \<Rightarrow> esys option" where
  "notify_via_xen_event_channel ld lport s =
     do {
       LD \<leftarrow> doms s ld;
       if is_dying LD then Some s
       else if \<not> port_is_valid LD lport then None
       else do {
         lchn \<leftarrow> evtchn_from_port LD lport;
         if xen_consumer lchn = 0 then None
         else
           (case chn_state lchn of
              ECS_INTERDOMAIN rd rport \<Rightarrow>
                do {
                  RD \<leftarrow> doms s rd;
                  rchn \<leftarrow> evtchn_from_port RD rport;
                  evtchn_set_pending rd (notify_vcpu_id rchn) rport s
                }
            | _ \<Rightarrow> Some s)
       }
     }"

text \<open>The interrupts of a virtual CPU's list, in the order in which their affinity is set.\<close>

partial_function (option) walk_pirqs :: "edomain \<Rightarrow> nat \<Rightarrow> nat list option" where
  "walk_pirqs D port =
     (if port = 0 then Some []
      else do {
        e \<leftarrow> evtchn_from_port D port;
        case chn_state e of
          ECS_PIRQ irq next _ \<Rightarrow> do { irqs \<leftarrow> walk_pirqs D next; Some (irq # irqs) }
        | _ \<Rightarrow> None
      })"

definition evtchn_move_pirqs :: "nat \<Rightarrow> nat \<Rightarrow> esys \<Rightarrow> nat list option" where
  "evtchn_move_pirqs d v s = do { D \<leftarrow> doms s d; V \<leftarrow> vcpu D v; walk_pirqs D (pirq_evtchn_head V) }"

section \<open>The hypercall\<close>

text \<open>
  The argument structures are the arguments of the commands. What is written back to the guest is a
  reply; a failed write leaves the operation done. The two commands of the FIFO ABI are parameters:
  given the environment, the calling domain and the command's argument they return a result, the
  first of them with the control structure it has filled in, and the new state.
\<close>

record init_control =
  control_gfn :: nat
  control_offset :: nat
  control_vcpu :: nat
  link_bits :: nat

record fifo_ops =
  evtchn_fifo_init_control :: "env \<Rightarrow> nat \<Rightarrow> init_control \<Rightarrow> esys \<Rightarrow> (int \<times> init_control \<times> esys) option"
  evtchn_fifo_expand_array :: "env \<Rightarrow> nat \<Rightarrow> nat \<Rightarrow> esys \<Rightarrow> (int \<times> esys) option"

datatype evtchnop =
  EVTCHNOP_alloc_unbound nat nat
| EVTCHNOP_bind_interdomain nat nat
| EVTCHNOP_bind_virq int int
| EVTCHNOP_bind_ipi int
| EVTCHNOP_bind_pirq int
| EVTCHNOP_close nat
| EVTCHNOP_send nat
| EVTCHNOP_status nat nat
| EVTCHNOP_bind_vcpu nat nat
| EVTCHNOP_unmask nat
| EVTCHNOP_reset nat
| EVTCHNOP_init_control init_control
| EVTCHNOP_expand_array nat
| EVTCHNOP_set_priority nat nat
| EVTCHNOP_other nat

datatype reply = No_reply | Port_reply nat | Status_reply estatus nat | Control_reply init_control

fun port_result :: "env \<Rightarrow> (int + nat) \<times> esys \<Rightarrow> int \<times> reply \<times> esys" where
  "port_result E (Inl rc, s) = (rc, No_reply, s)"
| "port_result E (Inr port, s) = (if copy_to_ok E then (0, Port_reply port, s) else (- EFAULT, No_reply, s))"

fun status_result :: "env \<Rightarrow> int + estatus \<times> nat \<Rightarrow> int \<times> reply" where
  "status_result E (Inl rc) = (rc, No_reply)"
| "status_result E (Inr (st, v)) = (if copy_to_ok E then (0, Status_reply st v) else (- EFAULT, No_reply))"

fun control_result :: "env \<Rightarrow> int \<times> init_control \<times> esys \<Rightarrow> int \<times> reply \<times> esys" where
  "control_result E (rc, c, s) =
     (if rc \<noteq> 0 then (rc, No_reply, s)
      else if copy_to_ok E then (0, Control_reply c, s) else (- EFAULT, No_reply, s))"

fun run_evtchnop :: "notifiers \<Rightarrow> fifo_ops \<Rightarrow> env \<Rightarrow> nat \<Rightarrow> evtchnop \<Rightarrow> esys \<Rightarrow> (int \<times> reply \<times> esys) option" where
  "run_evtchnop ntf fifo E cur (EVTCHNOP_alloc_unbound domid remote) s = map_option (port_result E) (evtchn_alloc_unbound E cur domid remote s)"
| "run_evtchnop ntf fifo E cur (EVTCHNOP_bind_interdomain rdom rport) s = map_option (port_result E) (evtchn_bind_interdomain E cur rdom rport s)"
| "run_evtchnop ntf fifo E cur (EVTCHNOP_bind_virq virq vid) s = map_option (port_result E) (evtchn_bind_virq E cur virq vid s)"
| "run_evtchnop ntf fifo E cur (EVTCHNOP_bind_ipi vid) s = map_option (port_result E) (evtchn_bind_ipi E cur vid s)"
| "run_evtchnop ntf fifo E cur (EVTCHNOP_bind_pirq pirq) s = map_option (port_result E) (evtchn_bind_pirq E cur pirq s)"
| "run_evtchnop ntf fifo E cur (EVTCHNOP_close port) s = map_option (\<lambda>(rc, s). (rc, No_reply, s)) (evtchn_close cur port s)"
| "run_evtchnop ntf fifo E cur (EVTCHNOP_send port) s = map_option (\<lambda>(rc, s). (rc, No_reply, s)) (evtchn_send ntf E cur port s)"
| "run_evtchnop ntf fifo E cur (EVTCHNOP_status domid port) s =
     map_option (\<lambda>r. case status_result E r of (rc, rep) \<Rightarrow> (rc, rep, s)) (evtchn_status E cur domid port s)"
| "run_evtchnop ntf fifo E cur (EVTCHNOP_bind_vcpu port vid) s = map_option (\<lambda>(rc, s). (rc, No_reply, s)) (evtchn_bind_vcpu cur port vid s)"
| "run_evtchnop ntf fifo E cur (EVTCHNOP_unmask port) s = map_option (\<lambda>(rc, s). (rc, No_reply, s)) (evtchn_unmask cur port s)"
| "run_evtchnop ntf fifo E cur (EVTCHNOP_reset domid) s = map_option (\<lambda>(rc, s). (rc, No_reply, s)) (evtchn_reset E cur domid s)"
| "run_evtchnop ntf fifo E cur (EVTCHNOP_init_control c) s = map_option (control_result E) (evtchn_fifo_init_control fifo E cur c s)"
| "run_evtchnop ntf fifo E cur (EVTCHNOP_expand_array gfn) s =
     map_option (\<lambda>(rc, s). (rc, No_reply, s)) (evtchn_fifo_expand_array fifo E cur gfn s)"
| "run_evtchnop ntf fifo E cur (EVTCHNOP_set_priority port priority) s = map_option (\<lambda>rc. (rc, No_reply, s)) (evtchn_set_priority cur port priority s)"
| "run_evtchnop ntf fifo E cur (EVTCHNOP_other cmd) s = Some (- ENOSYS, No_reply, s)"

definition do_event_channel_op :: "notifiers \<Rightarrow> fifo_ops \<Rightarrow> env \<Rightarrow> nat \<Rightarrow> evtchnop \<Rightarrow> esys \<Rightarrow> (int \<times> reply \<times> esys) option" where
  "do_event_channel_op ntf fifo E cur cmd s =
     (case cmd of
        EVTCHNOP_other _ \<Rightarrow> run_evtchnop ntf fifo E cur cmd s
      | _ \<Rightarrow> if \<not> copy_from_ok E then Some (- EFAULT, No_reply, s) else run_evtchnop ntf fifo E cur cmd s)"
end
