(* ===== verification/Evtchn_Inv.thy ===== *)
theory Evtchn_Inv
  imports Evtchn
begin

text \<open>
  What it means for the event channels of a domain to be well formed, and the primitive updates
  that keep it: buckets, reserved and free channels, the binding of virtual IRQs in both
  directions, and the doubly linked lists of physical-IRQ channels of each virtual CPU.
\<close>

section \<open>Doubly linked lists of ports\<close>

text \<open>
  A segment of a doubly linked list: it is entered at \<open>cur\<close> from \<open>prev\<close> and left at
  \<open>cur'\<close> from \<open>prev'\<close>. The links of a port are its next and its previous port.
\<close>

fun seg :: "(nat \<Rightarrow> (nat \<times> nat) option) \<Rightarrow> nat \<Rightarrow> nat \<Rightarrow> nat list \<Rightarrow> nat \<Rightarrow> nat \<Rightarrow> bool" where
  "seg c prev cur [] prev' cur' \<longleftrightarrow> prev' = prev \<and> cur' = cur"
| "seg c prev cur (p # ps) prev' cur' \<longleftrightarrow> cur = p \<and> p \<noteq> 0 \<and> (\<exists>nx. c p = Some (nx, prev) \<and> seg c p nx ps prev' cur')"

lemma seg_append: "seg c a b (xs @ ys) a' b' \<longleftrightarrow> (\<exists>m n. seg c a b xs m n \<and> seg c m n ys a' b')"
  by (induction xs arbitrary: a b) auto

lemma seg_cong: "(\<And>p. p \<in> set xs \<Longrightarrow> c' p = c p) \<Longrightarrow> seg c' a b xs m n = seg c a b xs m n"
  by (induction xs arbitrary: a b) auto

lemma seg_nonzero: "seg c a b xs m n \<Longrightarrow> 0 \<notin> set xs"
  by (induction xs arbitrary: a b) auto

lemma seg_dom: "seg c a b xs m n \<Longrightarrow> p \<in> set xs \<Longrightarrow> c p \<noteq> None"
  by (induction xs arbitrary: a b) auto

lemma seg_other:
  assumes "seg c a b xs m n" "p \<notin> set xs"
  shows "seg (c(p := z)) a b xs m n"
  using assms by (subst seg_cong [where c = c]) auto

text \<open>A whole list: it starts at its head and ends at 0.\<close>

definition linked :: "(nat \<Rightarrow> (nat \<times> nat) option) \<Rightarrow> nat \<Rightarrow> nat list \<Rightarrow> bool" where
  "linked c h ps \<longleftrightarrow> distinct ps \<and> (\<exists>l. seg c 0 h ps l 0)"

lemma seg_enter:
  assumes "seg c a b xs m 0" "b \<noteq> 0" "c b = Some (nx, pv)" "distinct xs"
  shows "\<exists>m'. seg (c(b := Some (nx, a'))) a' b xs m' 0"
proof (cases xs)
  case Nil
  then show ?thesis using assms by simp
next
  case (Cons x ys)
  then have "seg c b nx ys m 0" "b \<notin> set ys" "x = b" using assms by auto
  then show ?thesis using Cons assms(2) seg_other by fastforce
qed

lemma seg_leave:
  assumes "seg c a b xs m n" "xs \<noteq> []" "c m = Some (nx, pv)" "distinct xs"
  shows "seg (c(m := Some (n', pv))) a b xs m n'"
proof -
  obtain ys where xs: "xs = ys @ [m]" using assms(1,2)
    by (cases xs rule: rev_cases) (auto simp: seg_append)
  then obtain k where "seg c a b ys k m" "c m = Some (n, k)" "m \<noteq> 0" using assms(1) by (auto simp: seg_append)
  then show ?thesis using assms(3,4) xs seg_other by (fastforce simp: seg_append)
qed

lemma linked_push:
  assumes "linked c h ps" "p \<notin> set ps" "p \<noteq> 0"
  defines "c' \<equiv> c(p := Some (h, 0))"
  shows "linked (if h \<noteq> 0 then c'(h := Some (fst (the (c h)), p)) else c') p (p # ps)"
proof -
  obtain l where l: "seg c 0 h ps l 0" "distinct ps" using assms by (auto simp: linked_def)
  show ?thesis
  proof (cases "h = 0")
    case True
    then have "ps = []" using l by (cases ps) auto
    then show ?thesis using True assms by (auto simp: linked_def)
  next
    case False
    then obtain qs nx where qs: "ps = h # qs" "c h = Some (nx, 0)" "seg c h nx qs l 0" using l by (cases ps) auto
    have "h \<noteq> p" using assms(2) qs(1) by auto
    moreover have "seg (c'(h := Some (nx, p))) h nx qs l 0"
      using qs l(2) assms(2) unfolding c'_def by (auto intro!: seg_other)
    ultimately show ?thesis using qs l False assms(2,3) unfolding linked_def by (auto simp: c'_def)
  qed
qed

lemma linked_remove:
  fixes nx pv :: nat
  assumes "linked c h ps" "p \<in> set ps" "c p = Some (nx, pv)"
  defines "c1 \<equiv> if pv \<noteq> 0 then c(pv := Some (nx, snd (the (c pv)))) else c"
  shows "linked (if nx \<noteq> 0 then c1(nx := Some (fst (the (c1 nx)), pv)) else c1) (if pv \<noteq> 0 then h else nx) (remove1 p ps)"
proof -
  obtain xs ys where ps: "ps = xs @ p # ys" using assms(2) by (meson split_list)
  have d: "distinct (xs @ p # ys)" using assms(1) ps by (simp add: linked_def)
  then have rm: "remove1 p ps = xs @ ys" using ps by (simp add: remove1_append)
  obtain l where l: "seg c 0 h xs pv p" "seg c p nx ys l 0" "p \<noteq> 0"
    using assms(1,3) ps by (auto simp: linked_def seg_append)
  have pv: "pv = 0 \<longleftrightarrow> xs = []" "xs \<noteq> [] \<Longrightarrow> pv \<in> set xs"
    using l(1) by (cases xs rule: rev_cases; auto simp: seg_append)+
  have nx: "nx \<noteq> 0 \<Longrightarrow> nx \<in> set ys" using l(2) by (cases ys) auto
  have a: "seg c1 0 (if pv \<noteq> 0 then h else nx) xs pv nx"
  proof (cases "xs = []")
    case True
    then show ?thesis using pv(1) by (simp add: c1_def)
  next
    case False
    obtain n k where "c pv = Some (n, k)" using seg_dom [OF l(1) pv(2) [OF False]] by auto
    then show ?thesis using seg_leave [OF l(1) False] d False pv by (simp add: c1_def)
  qed
  have b: "seg c1 p nx ys l 0" using l(2) d pv unfolding c1_def by (auto intro!: seg_other)
  show ?thesis
  proof (cases "nx = 0")
    case True
    then have "ys = []" using l(2) by (cases ys) auto
    then show ?thesis using a True d rm by (auto simp: linked_def)
  next
    case False
    obtain n k where n: "c1 nx = Some (n, k)" using seg_dom [OF b nx [OF False]] by auto
    obtain l' where "seg (c1(nx := Some (n, pv))) pv nx ys l' 0" using seg_enter [OF b False n] d by auto
    moreover have "seg (c1(nx := Some (n, pv))) 0 (if pv \<noteq> 0 then h else nx) xs pv nx"
      using seg_other [OF a] nx [OF False] d by fastforce
    ultimately show ?thesis using n d False rm unfolding linked_def by (auto simp: seg_append)
  qed
qed

lemma linked_cong: "(\<And>p. p \<in> set ps \<Longrightarrow> c' p = c p) \<Longrightarrow> linked c' h ps = linked c h ps"
  unfolding linked_def using seg_cong [of ps c' c] by simp

section \<open>Well-formed domains\<close>

text \<open>What a channel contributes: a virtual IRQ, a physical IRQ and its place in a list, a link to another channel.\<close>

definition virq_of :: "evtchn \<Rightarrow> (nat \<times> nat) option" where
  "virq_of e = (case chn_state e of ECS_VIRQ virq \<Rightarrow> Some (virq, notify_vcpu_id e) | _ \<Rightarrow> None)"

definition pirq_of :: "evtchn \<Rightarrow> (nat \<times> nat) option" where
  "pirq_of e = (case chn_state e of ECS_PIRQ irq _ _ \<Rightarrow> Some (irq, notify_vcpu_id e) | _ \<Rightarrow> None)"

definition plinks_of :: "evtchn \<Rightarrow> (nat \<times> nat) option" where
  "plinks_of e = (case chn_state e of ECS_PIRQ _ nx pv \<Rightarrow> Some (nx, pv) | _ \<Rightarrow> None)"

definition link_of :: "evtchn \<Rightarrow> (nat \<times> nat) option" where
  "link_of e = (case chn_state e of ECS_INTERDOMAIN d q \<Rightarrow> Some (d, q) | _ \<Rightarrow> None)"

definition virq_port :: "edomain \<Rightarrow> nat \<Rightarrow> (nat \<times> nat) option" where
  "virq_port D p = Option.bind (chn D p) virq_of"

definition pirq_port :: "edomain \<Rightarrow> nat \<Rightarrow> (nat \<times> nat) option" where
  "pirq_port D p = Option.bind (chn D p) pirq_of"

definition pirq_links :: "edomain \<Rightarrow> nat \<Rightarrow> (nat \<times> nat) option" where
  "pirq_links D p = Option.bind (chn D p) plinks_of"

definition link_port :: "edomain \<Rightarrow> nat \<Rightarrow> (nat \<times> nat) option" where
  "link_port D p = Option.bind (chn D p) link_of"

definition consumer :: "edomain \<Rightarrow> nat \<Rightarrow> nat" where
  "consumer D p = (case chn D p of None \<Rightarrow> 0 | Some e \<Rightarrow> xen_consumer e)"

text \<open>The ports are whole buckets from 0 on; port 0 is reserved for as long as the domain lives.\<close>

definition plain_state :: "ecs \<Rightarrow> bool" where
  "plain_state st = (case st of ECS_RESERVED \<Rightarrow> False | ECS_PIRQ _ _ _ \<Rightarrow> False | ECS_VIRQ _ \<Rightarrow> False | _ \<Rightarrow> True)"

definition ports_ok :: "edomain \<Rightarrow> bool" where
  "ports_ok D \<longleftrightarrow> max_evtchns D \<le> 4096 \<and> EVTCHNS_PER_BUCKET dvd max_evtchns D
     \<and> (\<exists>k. EVTCHNS_PER_BUCKET * k \<le> max_evtchns D \<and> (\<forall>p. chn D p \<noteq> None \<longleftrightarrow> p < EVTCHNS_PER_BUCKET * k))
     \<and> (chn D 0 = None \<longrightarrow> is_dying D) \<and> (\<forall>p e. chn D p = Some e \<longrightarrow> (chn_state e = ECS_RESERVED \<longleftrightarrow> p = 0))"

definition vcpus_ok :: "edomain \<Rightarrow> bool" where
  "vcpus_ok D \<longleftrightarrow> vcpu D 0 \<noteq> None \<and> polls_ok D"

definition channel_ok :: "edomain \<Rightarrow> evtchn \<Rightarrow> bool" where
  "channel_ok D e \<longleftrightarrow> vcpu D (notify_vcpu_id e) \<noteq> None
     \<and> (chn_state e = ECS_FREE \<longrightarrow> notify_vcpu_id e = 0)
     \<and> (xen_consumer e \<noteq> 0 \<longrightarrow> (\<exists>d. chn_state e = ECS_UNBOUND d) \<or> (\<exists>d q. chn_state e = ECS_INTERDOMAIN d q))"

definition channels_ok :: "edomain \<Rightarrow> bool" where
  "channels_ok D \<longleftrightarrow> (\<forall>p e. chn D p = Some e \<longrightarrow> channel_ok D e)"

text \<open>A virtual IRQ of a virtual CPU and the channel bound to it name each other.\<close>

definition virqs_ok :: "edomain \<Rightarrow> bool" where
  "virqs_ok D \<longleftrightarrow>
     (\<forall>p virq n. virq_port D p = Some (virq, n) \<longrightarrow> (\<exists>v r. vcpu D v = Some r \<and> virq_to_evtchn r virq = p))
     \<and> (\<forall>v r virq. vcpu D v = Some r \<longrightarrow> virq_to_evtchn r virq \<noteq> 0 \<longrightarrow>
          (\<exists>n. virq_port D (virq_to_evtchn r virq) = Some (virq, n) \<and> (if virq_is_global virq then v = 0 else n = v)))"

text \<open>A physical IRQ and its channel name each other, and the channels a virtual CPU serves are its list.\<close>

definition pirq_list :: "edomain \<Rightarrow> nat \<Rightarrow> nat list \<Rightarrow> bool" where
  "pirq_list D v ps \<longleftrightarrow>
     (\<exists>r. vcpu D v = Some r \<and> linked (pirq_links D) (pirq_evtchn_head r) ps)
     \<and> (\<forall>p. p \<in> set ps \<longleftrightarrow> (\<exists>irq. pirq_port D p = Some (irq, v)))"

definition pirqs_ok :: "edomain \<Rightarrow> bool" where
  "pirqs_ok D \<longleftrightarrow>
     (\<forall>p irq n. pirq_port D p = Some (irq, n) \<longrightarrow> pirq_evtchn D irq = Some p)
     \<and> (\<forall>irq p. pirq_evtchn D irq = Some p \<longrightarrow> p \<noteq> 0 \<longrightarrow> (\<exists>n. pirq_port D p = Some (irq, n)))
     \<and> (\<forall>v. vcpu D v \<noteq> None \<longrightarrow> (\<exists>ps. pirq_list D v ps))"

definition dom_ok :: "edomain \<Rightarrow> bool" where
  "dom_ok D \<longleftrightarrow> ports_ok D \<and> vcpus_ok D \<and> channels_ok D \<and> virqs_ok D \<and> pirqs_ok D"

lemma dom_okD:
  assumes "dom_ok D"
  shows "ports_ok D" "vcpus_ok D" "channels_ok D" "virqs_ok D" "pirqs_ok D"
  using assms by (simp_all add: dom_ok_def)

subsection \<open>What the parts depend on\<close>

definition virq_tab :: "edomain \<Rightarrow> nat \<Rightarrow> (nat \<Rightarrow> nat) option" where
  "virq_tab D v = map_option virq_to_evtchn (vcpu D v)"

definition pirq_heads :: "edomain \<Rightarrow> nat \<Rightarrow> nat option" where
  "pirq_heads D v = map_option pirq_evtchn_head (vcpu D v)"

lemma virqs_ok_iff:
  "virqs_ok D \<longleftrightarrow>
     (\<forall>p virq n. virq_port D p = Some (virq, n) \<longrightarrow> (\<exists>v t. virq_tab D v = Some t \<and> t virq = p))
     \<and> (\<forall>v t virq. virq_tab D v = Some t \<longrightarrow> t virq \<noteq> 0 \<longrightarrow>
          (\<exists>n. virq_port D (t virq) = Some (virq, n) \<and> (if virq_is_global virq then v = 0 else n = v)))"
  unfolding virqs_ok_def virq_tab_def by (simp add: map_option_eq_Some) blast

lemma virqs_ok_cong: "virq_port D' = virq_port D \<Longrightarrow> virq_tab D' = virq_tab D \<Longrightarrow> virqs_ok D' = virqs_ok D"
  by (simp add: virqs_ok_iff)

lemma pirq_list_cong:
  assumes "pirq_port D' = pirq_port D" "pirq_links D' = pirq_links D" "pirq_heads D' v = pirq_heads D v"
  shows "pirq_list D' v ps = pirq_list D v ps"
proof -
  have "(\<exists>r. vcpu D v = Some r \<and> linked c (pirq_evtchn_head r) ps) \<longleftrightarrow> (\<exists>h. pirq_heads D v = Some h \<and> linked c h ps)" for D c
    by (auto simp: pirq_heads_def)
  then show ?thesis using assms by (simp add: pirq_list_def)
qed

lemma pirqs_ok_cong:
  assumes "pirq_port D' = pirq_port D" "pirq_links D' = pirq_links D" "pirq_heads D' = pirq_heads D" "pirq_evtchn D' = pirq_evtchn D"
  shows "pirqs_ok D' = pirqs_ok D"
proof -
  have "vcpu D' v \<noteq> None \<longleftrightarrow> vcpu D v \<noteq> None" for v
    using fun_cong [OF assms(3), of v] by (metis map_option_is_None pirq_heads_def)
  then show ?thesis using assms pirq_list_cong [OF assms(1,2)] by (simp add: pirqs_ok_def)
qed

lemma same_shape_views:
  assumes "same_shape D D'"
  shows "virq_port D' = virq_port D" "pirq_port D' = pirq_port D" "pirq_links D' = pirq_links D" "link_port D' = link_port D"
    "consumer D' = consumer D" "virq_tab D' = virq_tab D" "pirq_heads D' = pirq_heads D" "pirq_evtchn D' = pirq_evtchn D"
proof -
  have r: "rel_option same_vcpu (vcpu D v) (vcpu D' v)" for v using assms by (simp add: same_shape_def)
  have "virq_tab D' v = virq_tab D v" for v using r [of v] by (auto simp: virq_tab_def same_vcpu_def elim!: option.rel_cases)
  then show "virq_tab D' = virq_tab D" by blast
  have "pirq_heads D' v = pirq_heads D v" for v using r [of v] by (auto simp: pirq_heads_def same_vcpu_def elim!: option.rel_cases)
  then show "pirq_heads D' = pirq_heads D" by blast
qed (use assms in \<open>auto simp: same_shape_def virq_port_def pirq_port_def pirq_links_def link_port_def consumer_def\<close>)

lemma dom_ok_same_shape:
  assumes "dom_ok D" "same_shape D D'" "polls_ok D'"
  shows "dom_ok D'"
proof -
  have v: "vcpu D v = None \<longleftrightarrow> vcpu D' v = None" for v using same_shape_vcpu [OF assms(2)] .
  have "ports_ok D'" using assms(1,2) by (simp add: dom_ok_def ports_ok_def same_shape_def)
  moreover have "vcpus_ok D'" using assms(1,3) v by (simp add: dom_ok_def vcpus_ok_def)
  moreover have "chn D' = chn D" using assms(2) by (simp add: same_shape_def)
  then have "channels_ok D'" using dom_okD(3) [OF assms(1)] v unfolding channels_ok_def channel_ok_def by metis
  moreover have "virqs_ok D' = virqs_ok D" using same_shape_views [OF assms(2)] by (intro virqs_ok_cong)
  moreover have "pirqs_ok D' = pirqs_ok D" using same_shape_views [OF assms(2)] by (intro pirqs_ok_cong)
  ultimately show ?thesis using assms(1) by (simp add: dom_ok_def)
qed

lemma upd_chn_simps [simp]:
  "vcpu (upd_chn p f D) = vcpu D" "is_dying (upd_chn p f D) = is_dying D" "max_evtchns (upd_chn p f D) = max_evtchns D"
  "pirq_evtchn (upd_chn p f D) = pirq_evtchn D" "poll_mask (upd_chn p f D) = poll_mask D" "max_vcpus (upd_chn p f D) = max_vcpus D"
  "chn (upd_chn p f D) = (chn D)(p := map_option f (chn D p))" "virq_tab (upd_chn p f D) = virq_tab D"
  "pirq_heads (upd_chn p f D) = pirq_heads D" "is_hvm_domain (upd_chn p f D) = is_hvm_domain D"
  "evtchn_pending (upd_chn p f D) = evtchn_pending D" "evtchn_mask (upd_chn p f D) = evtchn_mask D"
  "bits_per_evtchn_word (upd_chn p f D) = bits_per_evtchn_word D" "polls_ok (upd_chn p f D) = polls_ok D"
  by (simp_all add: upd_chn_def virq_tab_def pirq_heads_def fun_eq_iff polls_ok_def evtchn_mask_def mask_bit_def)

lemma upd_chn_views:
  assumes "chn D p = Some e"
  shows "virq_port (upd_chn p f D) = (virq_port D)(p := virq_of (f e))" "pirq_port (upd_chn p f D) = (pirq_port D)(p := pirq_of (f e))"
    "pirq_links (upd_chn p f D) = (pirq_links D)(p := plinks_of (f e))" "link_port (upd_chn p f D) = (link_port D)(p := link_of (f e))"
    "consumer (upd_chn p f D) = (consumer D)(p := xen_consumer (f e))"
  using assms by (auto simp: virq_port_def pirq_port_def pirq_links_def link_port_def consumer_def fun_eq_iff)

lemma plain_of [simp]:
  "plain_state (chn_state e) \<Longrightarrow> virq_of e = None" "plain_state (chn_state e) \<Longrightarrow> pirq_of e = None" "plain_state (chn_state e) \<Longrightarrow> plinks_of e = None"
  by (auto simp: plain_state_def virq_of_def pirq_of_def plinks_of_def split: ecs.splits)

lemma ports_ok_upd:
  assumes "ports_ok D" "chn D p = Some e" "chn_state (f e) = ECS_RESERVED \<longleftrightarrow> chn_state e = ECS_RESERVED"
  shows "ports_ok (upd_chn p f D)"
proof -
  have "chn (upd_chn p f D) q = None \<longleftrightarrow> chn D q = None" for q using assms(2) by simp
  then have "(\<exists>k. EVTCHNS_PER_BUCKET * k \<le> max_evtchns D \<and> (\<forall>q. chn (upd_chn p f D) q \<noteq> None \<longleftrightarrow> q < EVTCHNS_PER_BUCKET * k))"
    using assms(1) unfolding ports_ok_def by simp
  then show ?thesis using assms by (auto simp: ports_ok_def)
qed

lemma channels_ok_upd:
  assumes "channels_ok D" "chn D p = Some e" "channel_ok D (f e)"
  shows "channels_ok (upd_chn p f D)"
  using assms by (auto simp: channels_ok_def channel_ok_def)

lemma dom_ok_plain:
  assumes ok: "dom_ok D" and e: "chn D p = Some e" and pl: "plain_state (chn_state e)" "plain_state (chn_state (f e))"
    and ch: "channel_ok D (f e)"
  shows "dom_ok (upd_chn p f D)"
proof -
  have "virq_port D p = None" "pirq_port D p = None" "pirq_links D p = None"
    using e pl by (simp_all add: virq_port_def pirq_port_def pirq_links_def)
  then have "virq_port (upd_chn p f D) = virq_port D" "pirq_port (upd_chn p f D) = pirq_port D" "pirq_links (upd_chn p f D) = pirq_links D"
    using upd_chn_views [OF e, of f] pl by (simp_all add: fun_upd_idem)
  moreover have "ports_ok (upd_chn p f D)" using dom_okD(1) [OF ok] e pl by (intro ports_ok_upd) (auto simp: plain_state_def)
  moreover have "vcpus_ok (upd_chn p f D)" using ok by (simp add: dom_ok_def vcpus_ok_def)
  moreover have "channels_ok (upd_chn p f D)" using dom_okD(3) [OF ok] e ch by (rule channels_ok_upd)
  ultimately show ?thesis using ok virqs_ok_cong [of "upd_chn p f D" D] pirqs_ok_cong [of "upd_chn p f D" D] by (simp add: dom_ok_def)
qed

subsection \<open>Free ports\<close>

definition free_chn :: evtchn where
  "free_chn = \<lparr>chn_state = ECS_FREE, xen_consumer = 0, notify_vcpu_id = 0\<rparr>"

definition is_free :: "edomain \<Rightarrow> nat \<Rightarrow> bool" where
  "is_free D p \<longleftrightarrow> map_option chn_state (chn D p) = Some ECS_FREE"

lemma channel_okD: "dom_ok D \<Longrightarrow> chn D p = Some e \<Longrightarrow> channel_ok D e"
  unfolding dom_ok_def channels_ok_def by blast

lemma free_chn_unique:
  assumes "dom_ok D" "chn D p = Some e" "chn_state e = ECS_FREE"
  shows "e = free_chn"
  using channel_okD [OF assms(1,2)] assms(3) by (cases e) (auto simp: channel_ok_def free_chn_def)

lemma free_port_scan_unfold:
  "free_port_scan D i =
     (if \<not> port_is_valid D i then Scan_end i else if i > max_evtchn_port D then Scan_full
      else if is_free D i then Scan_found i else free_port_scan D (Suc i))"
  by (subst free_port_scan.simps) (simp only: is_free_def evtchn_from_port_def)

lemma free_port_scan_cases:
  "case free_port_scan D i of
     Scan_found p \<Rightarrow> i \<le> p \<and> port_is_valid D p \<and> p \<le> max_evtchn_port D \<and> is_free D p \<and> (\<forall>q. i \<le> q \<longrightarrow> q < p \<longrightarrow> port_is_valid D q \<and> \<not> is_free D q)
   | Scan_full \<Rightarrow> (\<forall>q. i \<le> q \<longrightarrow> q \<le> max_evtchn_port D \<longrightarrow> port_is_valid D q \<and> \<not> is_free D q)
   | Scan_end p \<Rightarrow> i \<le> p \<and> \<not> port_is_valid D p \<and> (\<forall>q. i \<le> q \<longrightarrow> q < p \<longrightarrow> port_is_valid D q \<and> \<not> is_free D q)"
proof (induction "max_evtchns D - i" arbitrary: i rule: less_induct)
  case less
  show ?case
  proof (cases "port_is_valid D i \<and> \<not> i > max_evtchn_port D \<and> \<not> is_free D i")
    case True
    then have "free_port_scan D i = free_port_scan D (Suc i)" by (simp add: free_port_scan_unfold [of D i])
    moreover have "max_evtchns D - Suc i < max_evtchns D - i" using True by (auto simp: port_is_valid_def)
    moreover have "i \<le> q \<longleftrightarrow> q = i \<or> Suc i \<le> q" for q by auto
    ultimately show ?thesis using less [of "Suc i"] True by (auto split: scan.splits)
  next
    case False
    then show ?thesis using free_port_scan_unfold [of D i] by auto
  qed
qed

lemma valid_iff: "ports_ok D \<Longrightarrow> port_is_valid D p \<longleftrightarrow> chn D p \<noteq> None"
  unfolding ports_ok_def port_is_valid_def by (metis order_less_le_trans)

lemma reserved_iff: "ports_ok D \<Longrightarrow> chn D p = Some e \<Longrightarrow> chn_state e = ECS_RESERVED \<longleftrightarrow> p = 0"
  unfolding ports_ok_def by blast

lemma bucket_absent:
  assumes "ports_ok D" "chn D p = None" "q div EVTCHNS_PER_BUCKET = p div EVTCHNS_PER_BUCKET"
  shows "chn D q = None"
proof -
  obtain k where k: "\<And>q. chn D q \<noteq> None \<longleftrightarrow> q < EVTCHNS_PER_BUCKET * k" using assms(1) unfolding ports_ok_def by blast
  have "q < EVTCHNS_PER_BUCKET * k \<longleftrightarrow> q div EVTCHNS_PER_BUCKET < k" for q
    by (simp add: EVTCHNS_PER_BUCKET_def) linarith
  then show ?thesis using k assms(2,3) by metis
qed

lemma ports_end:
  assumes "ports_ok D" "\<And>q. q < p \<Longrightarrow> chn D q \<noteq> None"
  shows "p \<le> max_evtchns D"
proof (rule ccontr)
  assume "\<not> p \<le> max_evtchns D"
  then have "port_is_valid D (max_evtchns D)" using assms valid_iff by simp
  then show False by (simp add: port_is_valid_def)
qed

lemma new_bucket_ok:
  assumes ok: "dom_ok D" and p: "chn D p = None" "p < max_evtchns D" "\<And>q. q < p \<Longrightarrow> chn D q \<noteq> None" "p \<noteq> 0"
  shows "ports_ok (alloc_evtchn_bucket p D)"
proof -
  let ?B = EVTCHNS_PER_BUCKET
  obtain k where k: "?B * k \<le> max_evtchns D" "\<And>q. chn D q \<noteq> None \<longleftrightarrow> q < ?B * k" using dom_okD(1) [OF ok] by (auto simp: ports_ok_def)
  have pk: "p = ?B * k" using k(2) [of p] p(1) p(3) [of "?B * k"] k(2) [of "?B * k"] by (metis less_irrefl linorder_neqE_nat)
  then have pd: "p div ?B = k" by (simp add: EVTCHNS_PER_BUCKET_def)
  have "?B dvd max_evtchns D" using dom_okD(1) [OF ok] by (simp add: ports_ok_def)
  then obtain n where n: "max_evtchns D = ?B * n" by (rule dvdE)
  have "k < n" using p(2) pk n by simp
  then have "?B * Suc k \<le> max_evtchns D" using n mult_le_mono2 [of "Suc k" n ?B] by simp
  moreover have "chn (alloc_evtchn_bucket p D) q \<noteq> None \<longleftrightarrow> q < ?B * Suc k" for q
  proof -
    have "q div ?B = k \<longleftrightarrow> ?B * k \<le> q \<and> q < ?B * Suc k" by (simp add: EVTCHNS_PER_BUCKET_def) linarith
    moreover have "chn (alloc_evtchn_bucket p D) q \<noteq> None \<longleftrightarrow> q div ?B = k \<or> q < ?B * k"
      using k(2) [of q] pd by (simp add: alloc_evtchn_bucket_def)
    ultimately show ?thesis by (auto simp: EVTCHNS_PER_BUCKET_def)
  qed
  moreover have "chn_state e = ECS_RESERVED \<longleftrightarrow> q = 0" if "chn (alloc_evtchn_bucket p D) q = Some e" for q e
  proof (cases "q div ?B = k")
    case True
    then have "q \<noteq> 0" using pk p(4) by (auto simp: EVTCHNS_PER_BUCKET_def)
    then show ?thesis using that True pd by (auto simp: alloc_evtchn_bucket_def)
  next
    case False
    then have "chn D q = Some e" using that pd by (simp add: alloc_evtchn_bucket_def)
    then show ?thesis using dom_okD(1) [OF ok] unfolding ports_ok_def by blast
  qed
  moreover have "0 div ?B \<noteq> p div ?B" using pk p(4) by (simp add: EVTCHNS_PER_BUCKET_def)
  then have "chn (alloc_evtchn_bucket p D) 0 = chn D 0" by (simp add: alloc_evtchn_bucket_def)
  moreover have "max_evtchns (alloc_evtchn_bucket p D) = max_evtchns D" "is_dying (alloc_evtchn_bucket p D) = is_dying D"
    by (simp_all add: alloc_evtchn_bucket_def)
  ultimately show ?thesis using dom_okD(1) [OF ok] unfolding ports_ok_def by metis
qed

text \<open>A domain that has grown by free channels.\<close>

definition grown :: "edomain \<Rightarrow> edomain \<Rightarrow> bool" where
  "grown D D' \<longleftrightarrow> D' = D\<lparr>chn := chn D'\<rparr> \<and> (\<forall>q. chn D' q = chn D q \<or> (chn D q = None \<and> chn D' q = Some free_chn))"

lemma free_chn_of [simp]:
  "virq_of free_chn = None" "pirq_of free_chn = None" "plinks_of free_chn = None" "link_of free_chn = None" "xen_consumer free_chn = 0"
  "chn_state free_chn = ECS_FREE" "notify_vcpu_id free_chn = 0"
  by (simp_all add: free_chn_def virq_of_def pirq_of_def plinks_of_def link_of_def)

lemma grown_fields:
  assumes "grown D D'"
  shows "vcpu D' = vcpu D" "is_dying D' = is_dying D" "is_hvm_domain D' = is_hvm_domain D" "max_evtchns D' = max_evtchns D"
    "pirq_evtchn D' = pirq_evtchn D" "nr_pirqs D' = nr_pirqs D" "max_vcpus D' = max_vcpus D" "evtchn_pending D' = evtchn_pending D"
    "evtchn_mask D' = evtchn_mask D" "poll_mask D' = poll_mask D" "bits_per_evtchn_word D' = bits_per_evtchn_word D"
    "max_evtchn_port D' = max_evtchn_port D"
proof -
  have "D' = D\<lparr>chn := chn D'\<rparr>" using assms by (simp add: grown_def)
  then obtain c where "D' = D\<lparr>chn := c\<rparr>" by blast
  then show "vcpu D' = vcpu D" "is_dying D' = is_dying D" "is_hvm_domain D' = is_hvm_domain D" "max_evtchns D' = max_evtchns D"
    "pirq_evtchn D' = pirq_evtchn D" "nr_pirqs D' = nr_pirqs D" "max_vcpus D' = max_vcpus D" "evtchn_pending D' = evtchn_pending D"
    "evtchn_mask D' = evtchn_mask D" "poll_mask D' = poll_mask D" "bits_per_evtchn_word D' = bits_per_evtchn_word D"
    "max_evtchn_port D' = max_evtchn_port D" by (simp_all add: fun_eq_iff evtchn_mask_def mask_bit_def)
qed

lemma grown_view:
  assumes "grown D D'" "f free_chn = z"
  shows "(case chn D' q of None \<Rightarrow> z | Some e \<Rightarrow> f e) = (case chn D q of None \<Rightarrow> z | Some e \<Rightarrow> f e)"
proof -
  have "chn D' q = chn D q \<or> (chn D q = None \<and> chn D' q = Some free_chn)" using assms(1) by (simp add: grown_def)
  then show ?thesis using assms(2) by auto
qed

lemma bind_case: "Option.bind x f = (case x of None \<Rightarrow> None | Some e \<Rightarrow> f e)"
  by (cases x) auto

lemma grown_views:
  assumes "grown D D'"
  shows "virq_port D' = virq_port D" "pirq_port D' = pirq_port D" "pirq_links D' = pirq_links D" "link_port D' = link_port D"
    "consumer D' = consumer D" "virq_tab D' = virq_tab D" "pirq_heads D' = pirq_heads D"
proof -
  note g = grown_view [OF assms]
  show "virq_port D' = virq_port D" "pirq_port D' = pirq_port D" "pirq_links D' = pirq_links D" "link_port D' = link_port D"
    "consumer D' = consumer D"
    by (rule ext, simp only: virq_port_def pirq_port_def pirq_links_def link_port_def consumer_def bind_case, rule g, simp)+
  show "virq_tab D' = virq_tab D" "pirq_heads D' = pirq_heads D"
    using grown_fields(1) [OF assms] by (simp_all add: virq_tab_def pirq_heads_def fun_eq_iff)
qed

lemma dom_ok_grown:
  assumes "dom_ok D" "grown D D'" "ports_ok D'"
  shows "dom_ok D'"
proof -
  have "vcpus_ok D'" using assms(1) grown_fields [OF assms(2)] by (simp add: dom_ok_def vcpus_ok_def polls_ok_def)
  moreover have "channel_ok D' e" if "chn D' q = Some e" for q e
  proof -
    have "chn D q = Some e \<or> e = free_chn" using assms(2) that unfolding grown_def by (metis option.inject)
    then show ?thesis using channel_okD [OF assms(1)] dom_okD(2) [OF assms(1)] grown_fields [OF assms(2)]
      by (auto simp: channel_ok_def vcpus_ok_def)
  qed
  then have "channels_ok D'" by (simp add: channels_ok_def)
  moreover have "virqs_ok D' = virqs_ok D" using grown_views [OF assms(2)] by (intro virqs_ok_cong)
  moreover have "pirqs_ok D' = pirqs_ok D" using grown_views [OF assms(2)] grown_fields [OF assms(2)] by (intro pirqs_ok_cong)
  ultimately show ?thesis using assms(1,3) by (simp add: dom_ok_def)
qed

text \<open>The lowest free port is found, or a new bucket starts at the lowest port that has none.\<close>

lemma get_free_port_ok:
  assumes ok: "dom_ok D" and r: "get_free_port E D = (r, D')"
  shows "case r of
      Inl rc \<Rightarrow> rc < 0 \<and> D' = D
    | Inr p \<Rightarrow> dom_ok D' \<and> grown D D' \<and> chn D' p = Some free_chn \<and> p \<noteq> 0 \<and> p < max_evtchns D \<and> p \<le> max_evtchn_port D
        \<and> \<not> is_dying D \<and> (\<forall>q<p. \<exists>e. chn D q = Some e \<and> chn_state e \<noteq> ECS_FREE)"
proof (cases "is_dying D")
  case True
  then show ?thesis using r by (auto simp: get_free_port_def)
next
  case alive: False
  have po: "ports_ok D" using ok by (rule dom_okD)
  then have z: "chn D 0 \<noteq> None" using alive unfolding ports_ok_def by blast
  then have zero: "chn D 0 \<noteq> None" "\<not> is_free D 0" using reserved_iff [OF po, of 0] by (auto simp: is_free_def)
  have used: "\<exists>e. chn D q = Some e \<and> chn_state e \<noteq> ECS_FREE" if "port_is_valid D q \<and> \<not> is_free D q" for q
    using that valid_iff [OF po] by (auto simp: is_free_def)
  note c = free_port_scan_cases [of 0 D]
  show ?thesis
  proof (cases "free_port_scan D 0")
    case Scan_full
    then show ?thesis using r alive by (auto simp: get_free_port_def)
  next
    case (Scan_found p)
    then have "r = Inr p" "D' = D" using r alive by (auto simp: get_free_port_def)
    moreover have "p \<noteq> 0" using zero c Scan_found by (auto intro: ccontr)
    moreover have "chn D p = Some free_chn" using c Scan_found free_chn_unique [OF ok] by (auto simp: is_free_def)
    ultimately show ?thesis using c Scan_found used ok alive by (auto simp: grown_def port_is_valid_def)
  next
    case (Scan_end p)
    show ?thesis
    proof (cases "p = max_evtchns D \<or> p > max_evtchn_port D \<or> \<not> alloc_ok E")
      case True
      then show ?thesis using r alive Scan_end by (auto simp: get_free_port_def split: if_splits)
    next
      case False
      then have r': "r = Inr p" "D' = alloc_evtchn_bucket p D" using r alive Scan_end by (auto simp: get_free_port_def)
      have p: "chn D p = None" "\<And>q. q < p \<Longrightarrow> chn D q \<noteq> None" using c Scan_end valid_iff [OF po] by auto
      then have p0: "p \<noteq> 0" using zero by metis
      have pm: "p < max_evtchns D" using ports_end [OF po, of p] p(2) False by (metis order_le_less)
      moreover have "ports_ok D'" unfolding r' using new_bucket_ok [OF ok p(1) pm p(2) p0] by simp
      moreover have "grown D D'" using bucket_absent [OF po p(1)] by (auto simp: grown_def r' alloc_evtchn_bucket_def free_chn_def)
      moreover have "chn D' p = Some free_chn" using r' by (simp add: alloc_evtchn_bucket_def free_chn_def)
      ultimately show ?thesis using dom_ok_grown [OF ok] r' p0 False c Scan_end used alive by auto
    qed
  qed
qed

section \<open>Binding and unbinding virtual IRQs\<close>

lemma dom_ok_pending [simp]: "dom_ok (D\<lparr>evtchn_pending := x\<rparr>) = dom_ok D"
proof -
  have "same_shape D (D\<lparr>evtchn_pending := x\<rparr>)" "same_shape (D\<lparr>evtchn_pending := x\<rparr>) D"
    by (simp, simp add: same_shape_def option.rel_refl)
  moreover have "polls_ok (D\<lparr>evtchn_pending := x\<rparr>) = polls_ok D" by (simp add: polls_ok_def)
  ultimately show ?thesis using dom_ok_same_shape dom_okD(2) unfolding vcpus_ok_def by blast
qed

lemma upd_vcpu_views:
  assumes "\<And>r. pirq_evtchn_head (f r) = pirq_evtchn_head r"
  shows "pirq_heads (upd_vcpu v f D) = pirq_heads D"
  using assms by (auto simp: pirq_heads_def fun_eq_iff option.map_comp comp_def)

lemma upd_vcpu_None: "vcpu (upd_vcpu v f D) w = None \<longleftrightarrow> vcpu D w = None"
  by simp

lemma upd_vcpu_channel_ok: "channel_ok (upd_vcpu v f D) e = channel_ok D e"
  unfolding channel_ok_def upd_vcpu_None ..

lemma upd_vcpu_keeps:
  "ports_ok (upd_vcpu v f D) = ports_ok D" "vcpus_ok (upd_vcpu v f D) = vcpus_ok D" "channels_ok (upd_vcpu v f D) = channels_ok D"
  "virq_port (upd_vcpu v f D) = virq_port D" "pirq_port (upd_vcpu v f D) = pirq_port D" "pirq_links (upd_vcpu v f D) = pirq_links D"
  "link_port (upd_vcpu v f D) = link_port D" "consumer (upd_vcpu v f D) = consumer D" "pirq_evtchn (upd_vcpu v f D) = pirq_evtchn D"
proof -
  show "channels_ok (upd_vcpu v f D) = channels_ok D" unfolding channels_ok_def upd_vcpu_channel_ok by simp
  show "vcpus_ok (upd_vcpu v f D) = vcpus_ok D" unfolding vcpus_ok_def polls_ok_def upd_vcpu_None by simp
qed (simp_all add: upd_vcpu_def ports_ok_def virq_port_def pirq_port_def pirq_links_def link_port_def consumer_def fun_eq_iff)

lemma port0:
  assumes "ports_ok D"
  shows "virq_port D 0 = None" "pirq_port D 0 = None" "pirq_links D 0 = None" "link_port D 0 = None"
  using reserved_iff [OF assms, of 0]
  by (auto simp: virq_port_def virq_of_def pirq_port_def pirq_of_def pirq_links_def plinks_of_def link_port_def link_of_def bind_case split: option.splits ecs.splits)

lemma bind_virq_ok:
  fixes D :: edomain
  assumes ok: "dom_ok D" and p: "chn D p = Some free_chn" "p \<noteq> 0" and v: "vcpu D v = Some r" "virq_to_evtchn r virq = 0"
    and g: "virq_is_global virq \<Longrightarrow> v = 0"
  shows "dom_ok (upd_vcpu v (\<lambda>r. r\<lparr>virq_to_evtchn := (virq_to_evtchn r)(virq := p)\<rparr>)
           (upd_chn p (\<lambda>e. e\<lparr>chn_state := ECS_VIRQ virq, notify_vcpu_id := v\<rparr>) D))" (is "dom_ok (upd_vcpu v ?f (upd_chn p ?g D))")
proof -
  let ?D = "upd_vcpu v ?f (upd_chn p ?g D)"
  have vp: "virq_port D p = None" "pirq_port D p = None" "pirq_links D p = None"
    using p by (simp_all add: virq_port_def pirq_port_def pirq_links_def)
  have 1: "virq_port ?D = (virq_port D)(p := Some (virq, v))"
    using p by (simp add: upd_vcpu_keeps upd_chn_views virq_of_def)
  have 2: "virq_tab ?D = (virq_tab D)(v := Some ((virq_to_evtchn r)(virq := p)))"
    using v by (auto simp: virq_tab_def fun_eq_iff)
  have tv: "virq_tab D v = Some (virq_to_evtchn r)" using v by (simp add: virq_tab_def)
  note V = dom_okD(4) [OF ok, unfolded virqs_ok_iff]
  have old: "\<exists>v t. virq_tab ?D v = Some t \<and> t virq' = q" if x: "virq_port D q = Some (virq', n)" for q virq' n
  proof -
    obtain w t where w: "virq_tab D w = Some t" "t virq' = q" using V x by blast
    have "q \<noteq> 0" using x port0(1) [OF dom_okD(1) [OF ok]] by (metis option.distinct(1))
    then have "virq_tab ?D w = Some (if w = v then (virq_to_evtchn r)(virq := p) else t)" "(if w = v then (virq_to_evtchn r)(virq := p) else t) virq' = q"
      using w v(2) tv 2 by auto
    then show ?thesis by blast
  qed
  have "virqs_ok ?D" unfolding virqs_ok_iff 1
  proof (intro conjI allI impI)
    fix q virq' n assume a: "((virq_port D)(p := Some (virq, v))) q = Some (virq', n)"
    show "\<exists>v t. virq_tab ?D v = Some t \<and> t virq' = q"
    proof (cases "q = p")
      case True
      then show ?thesis using a 2 by auto
    next
      case False
      then show ?thesis using a old by simp
    qed
  next
    fix w t virq' assume a: "virq_tab ?D w = Some t" "t virq' \<noteq> 0"
    show "\<exists>n. ((virq_port D)(p := Some (virq, v))) (t virq') = Some (virq', n) \<and> (if virq_is_global virq' then w = 0 else n = w)"
    proof (cases "w = v \<and> virq' = virq")
      case True
      then show ?thesis using a 2 g by auto
    next
      case False
      then obtain t' where "virq_tab D w = Some t'" "t' virq' = t virq'" using a 2 tv by (auto split: if_splits)
      then have x: "\<exists>n. virq_port D (t virq') = Some (virq', n) \<and> (if virq_is_global virq' then w = 0 else n = w)" using V a(2) by metis
      then have "t virq' \<noteq> p" using vp by auto
      then show ?thesis using x by simp
    qed
  qed
  moreover have "pirqs_ok ?D = pirqs_ok D" using p vp
    by (intro pirqs_ok_cong) (auto simp: upd_vcpu_keeps upd_chn_views pirq_of_def plinks_of_def upd_vcpu_views fun_upd_idem)
  moreover have "ports_ok ?D" using ports_ok_upd [OF dom_okD(1) [OF ok] p(1), of ?g] by (simp add: upd_vcpu_keeps)
  moreover have "vcpus_ok ?D" using dom_okD(2) [OF ok] by (simp add: upd_vcpu_keeps) (simp add: vcpus_ok_def)
  moreover have "channels_ok ?D" using channels_ok_upd [OF dom_okD(3) [OF ok] p(1), of ?g] v by (simp add: upd_vcpu_keeps channel_ok_def)
  ultimately show ?thesis using dom_okD(5) [OF ok] by (simp add: dom_ok_def)
qed

lemma clear_virq_keeps:
  "chn (clear_virq virq p D) = chn D" "max_evtchns (clear_virq virq p D) = max_evtchns D" "is_dying (clear_virq virq p D) = is_dying D"
  "poll_mask (clear_virq virq p D) = poll_mask D" "pirq_evtchn (clear_virq virq p D) = pirq_evtchn D"
  "vcpu (clear_virq virq p D) w = None \<longleftrightarrow> vcpu D w = None" "pirq_heads (clear_virq virq p D) = pirq_heads D"
  "virq_tab (clear_virq virq p D) w = map_option (\<lambda>t. if t virq = p then t(virq := 0) else t) (virq_tab D w)"
  by (auto simp: clear_virq_def pirq_heads_def virq_tab_def fun_eq_iff option.map_comp comp_def intro!: option.map_cong0)

lemma close_virq_ok:
  fixes D :: edomain
  assumes ok: "dom_ok D" and e: "chn D p = Some e" "chn_state e = ECS_VIRQ virq"
  shows "dom_ok (upd_chn p (\<lambda>e. e\<lparr>chn_state := ECS_FREE, notify_vcpu_id := 0\<rparr>) (clear_virq virq p D))" (is "dom_ok (upd_chn p ?g ?C)")
proof -
  let ?D = "upd_chn p ?g ?C"
  have ec: "chn ?C p = Some e" using e by (simp add: clear_virq_keeps)
  have vp: "virq_port D p = Some (virq, notify_vcpu_id e)" "pirq_port D p = None" "pirq_links D p = None"
    using e by (simp_all add: virq_port_def pirq_port_def pirq_links_def virq_of_def pirq_of_def plinks_of_def)
  have c: "virq_port ?C = virq_port D" "pirq_port ?C = pirq_port D" "pirq_links ?C = pirq_links D"
    by (simp_all add: virq_port_def pirq_port_def pirq_links_def clear_virq_keeps fun_eq_iff)
  have 1: "virq_port ?D = (virq_port D)(p := None)" using upd_chn_views(1) [OF ec, of ?g] c by (simp add: virq_of_def)
  have 2: "virq_tab ?D w = map_option (\<lambda>t. if t virq = p then t(virq := 0) else t) (virq_tab D w)" for w
    by (simp add: clear_virq_keeps)
  have p0: "p \<noteq> 0" using vp port0(1) [OF dom_okD(1) [OF ok]] by (metis option.distinct(1))
  note V = dom_okD(4) [OF ok, unfolded virqs_ok_iff]
  have "virqs_ok ?D" unfolding virqs_ok_iff 1
  proof (intro conjI allI impI)
    fix q virq' n assume a: "((virq_port D)(p := None)) q = Some (virq', n)"
    then have q: "virq_port D q = Some (virq', n)" "q \<noteq> p" by (simp_all split: if_splits)
    then obtain w t where w: "virq_tab D w = Some t" "t virq' = q" using V by blast
    then have "(if t virq = p then t(virq := 0) else t) virq' = q" using q(2) by auto
    then show "\<exists>v t. virq_tab ?D v = Some t \<and> t virq' = q" using w(1) 2 [of w] by auto
  next
    fix w t virq' assume a: "virq_tab ?D w = Some t" "t virq' \<noteq> 0"
    have "map_option (\<lambda>t. if t virq = p then t(virq := 0) else t) (virq_tab D w) = Some t" using 2 [of w] a(1) by metis
    then obtain t' where t': "virq_tab D w = Some t'" "t = (if t' virq = p then t'(virq := 0) else t')" by auto
    then have tq: "t virq' = t' virq'" using a(2) by (auto split: if_splits)
    then have x: "\<exists>n. virq_port D (t virq') = Some (virq', n) \<and> (if virq_is_global virq' then w = 0 else n = w)" using V a(2) t'(1) by metis
    have "t virq' \<noteq> p"
    proof
      assume "t virq' = p"
      then have "virq' = virq" using x vp(1) by auto
      then show False using \<open>t virq' = p\<close> t' p0 tq by (auto split: if_splits)
    qed
    then show "\<exists>n. ((virq_port D)(p := None)) (t virq') = Some (virq', n) \<and> (if virq_is_global virq' then w = 0 else n = w)" using x by simp
  qed
  moreover have "pirqs_ok ?D = pirqs_ok D" using upd_chn_views [OF ec, of ?g] vp c
    by (intro pirqs_ok_cong) (auto simp: pirq_of_def plinks_of_def fun_upd_idem clear_virq_keeps)
  moreover have "ports_ok ?C" using dom_okD(1) [OF ok] by (simp add: ports_ok_def clear_virq_keeps)
  then have "ports_ok ?D" using ports_ok_upd [OF _ ec, of ?g] e by simp
  moreover have "vcpus_ok ?C" using dom_okD(2) [OF ok] by (simp add: vcpus_ok_def polls_ok_def clear_virq_keeps)
  then have "vcpus_ok ?D" by (simp add: vcpus_ok_def)
  moreover have "channel_ok ?C e = channel_ok D e" for e unfolding channel_ok_def clear_virq_keeps ..
  then have "channels_ok ?C" using dom_okD(3) [OF ok] by (simp add: channels_ok_def clear_virq_keeps)
  then have "channels_ok ?D" using channels_ok_upd [OF _ ec, of ?g] \<open>vcpus_ok ?C\<close> channel_okD [OF ok e(1)] e(2) by (simp add: channel_ok_def vcpus_ok_def)
  ultimately show ?thesis using dom_okD(5) [OF ok] by (simp add: dom_ok_def)
qed

section \<open>Lists of physical-IRQ channels\<close>

definition lists_ok :: "(nat \<Rightarrow> (nat \<times> nat) option) \<Rightarrow> (nat \<Rightarrow> (nat \<times> nat) option) \<Rightarrow> (nat \<Rightarrow> nat option) \<Rightarrow> bool" where
  "lists_ok P c H \<longleftrightarrow> (\<forall>v h. H v = Some h \<longrightarrow> (\<exists>ps. linked c h ps \<and> (\<forall>p. p \<in> set ps \<longleftrightarrow> (\<exists>irq. P p = Some (irq, v)))))"

definition pushed :: "(nat \<Rightarrow> (nat \<times> nat) option) \<Rightarrow> nat \<Rightarrow> nat \<Rightarrow> nat \<Rightarrow> (nat \<times> nat) option" where
  "pushed c p h = (let c' = c(p := Some (h, 0)) in if h \<noteq> 0 then c'(h := Some (fst (the (c h)), p)) else c')"

definition unhooked :: "(nat \<Rightarrow> (nat \<times> nat) option) \<Rightarrow> nat \<Rightarrow> nat \<Rightarrow> nat \<Rightarrow> (nat \<times> nat) option" where
  "unhooked c nx pv =
     (let c1 = (if pv \<noteq> 0 then c(pv := Some (nx, snd (the (c pv)))) else c)
      in if nx \<noteq> 0 then c1(nx := Some (fst (the (c1 nx)), pv)) else c1)"

lemma linked_head: "linked c h ps \<Longrightarrow> h = 0 \<longleftrightarrow> ps = []" "linked c h ps \<Longrightarrow> h \<noteq> 0 \<Longrightarrow> h \<in> set ps \<and> c h \<noteq> None"
  unfolding linked_def by (cases ps; auto)+

lemma linked_nonzero: "linked c h ps \<Longrightarrow> 0 \<notin> set ps"
  unfolding linked_def using seg_nonzero by blast

lemma linked_neighbours:
  assumes "linked c h ps" "p \<in> set ps"
  obtains nx pv where "c p = Some (nx, pv)" "nx \<noteq> 0 \<Longrightarrow> nx \<in> set ps \<and> c nx \<noteq> None \<and> nx \<noteq> p" "pv \<noteq> 0 \<Longrightarrow> pv \<in> set ps \<and> c pv \<noteq> None \<and> pv \<noteq> p"
    "nx \<noteq> 0 \<Longrightarrow> nx \<noteq> pv" "pv = 0 \<longleftrightarrow> h = p"
proof -
  obtain xs ys where ps: "ps = xs @ p # ys" using assms(2) by (meson split_list)
  have d: "distinct (xs @ p # ys)" using assms(1) ps by (simp add: linked_def)
  obtain l nx pv where l: "seg c 0 h xs pv p" "c p = Some (nx, pv)" "seg c p nx ys l 0" "p \<noteq> 0"
    using assms(1) ps by (auto simp: linked_def seg_append)
  have pv: "pv = 0 \<longleftrightarrow> xs = []" "xs \<noteq> [] \<Longrightarrow> pv \<in> set xs"
    using l(1) by (cases xs rule: rev_cases; auto simp: seg_append)+
  have nx: "nx \<noteq> 0 \<Longrightarrow> nx \<in> set ys" using l(3) by (cases ys) auto
  have h: "pv = 0 \<longleftrightarrow> h = p" using pv(1) l(1) d by (cases xs) auto
  show ?thesis
  proof (rule that [of nx pv])
    show "c p = Some (nx, pv)" by (rule l)
    show "nx \<in> set ps \<and> c nx \<noteq> None \<and> nx \<noteq> p" if "nx \<noteq> 0" using nx [OF that] seg_dom [OF l(3)] d ps by auto
    show "pv \<in> set ps \<and> c pv \<noteq> None \<and> pv \<noteq> p" if "pv \<noteq> 0" using pv that seg_dom [OF l(1)] d ps by auto
    show "nx \<noteq> pv" if "nx \<noteq> 0"
    proof
      assume "nx = pv"
      then have "pv \<in> set xs" "pv \<in> set ys" using pv nx [OF that] that by auto
      then show False using d by auto
    qed
    show "pv = 0 \<longleftrightarrow> h = p" by (rule h)
  qed
qed

lemma lists_ok_frame:
  assumes "lists_ok P c H" "P p = None"
  shows "lists_ok P (c(p := z)) H"
  unfolding lists_ok_def
proof (intro allI impI)
  fix v h assume "H v = Some h"
  then obtain ps where ps: "linked c h ps" "\<And>p. p \<in> set ps \<longleftrightarrow> (\<exists>irq. P p = Some (irq, v))" using assms(1) unfolding lists_ok_def by blast
  have "p \<notin> set ps" using ps(2) assms(2) by simp
  then have "linked (c(p := z)) h ps = linked c h ps" by (intro linked_cong) auto
  then show "\<exists>ps. linked (c(p := z)) h ps \<and> (\<forall>p. p \<in> set ps \<longleftrightarrow> (\<exists>irq. P p = Some (irq, v)))" using ps by blast
qed

lemma lists_ok_push:
  assumes L: "lists_ok P c H" and p: "P p = None" "p \<noteq> 0" and h: "H v = Some h"
  shows "lists_ok (P(p := Some (irq, v))) (pushed c p h) (H(v := Some p))"
  unfolding lists_ok_def
proof (intro allI impI)
  fix w h' assume w: "(H(v := Some p)) w = Some h'"
  obtain ps where ps: "linked c h ps" "\<And>q. q \<in> set ps \<longleftrightarrow> (\<exists>irq. P q = Some (irq, v))" using L h unfolding lists_ok_def by blast
  have pn: "p \<notin> set ps" using ps(2) p(1) by simp
  show "\<exists>qs. linked (pushed c p h) h' qs \<and> (\<forall>q. q \<in> set qs \<longleftrightarrow> (\<exists>i. (P(p := Some (irq, v))) q = Some (i, w)))"
  proof (cases "w = v")
    case True
    have "linked (pushed c p h) p (p # ps)" using linked_push [OF ps(1) pn p(2)] unfolding pushed_def Let_def by blast
    then show ?thesis using True w ps(2) by (intro exI [of _ "p # ps"]) auto
  next
    case False
    then obtain qs where qs: "linked c h' qs" "\<And>q. q \<in> set qs \<longleftrightarrow> (\<exists>irq. P q = Some (irq, w))" using L w unfolding lists_ok_def by force
    have "q \<noteq> p \<and> (h \<noteq> 0 \<longrightarrow> q \<noteq> h)" if "q \<in> set qs" for q
    proof -
      have "q \<notin> set ps" using that qs(2) ps(2) False by fastforce
      then show ?thesis using that qs(2) p(1) linked_head(2) [OF ps(1)] by fastforce
    qed
    then have "linked (pushed c p h) h' qs = linked c h' qs" by (intro linked_cong) (auto simp: pushed_def Let_def)
    then show ?thesis using qs False p(1) by (intro exI [of _ qs]) auto
  qed
qed

lemma lists_ok_remove:
  assumes L: "lists_ok P c H" and p: "P p = Some (irq, v)" "c p = Some (nx, pv)" and h: "H v = Some h"
  shows "lists_ok (P(p := None)) (unhooked c nx pv) (H(v := Some (if pv \<noteq> 0 then h else nx)))"
  unfolding lists_ok_def
proof (intro allI impI)
  fix w h' assume w: "(H(v := Some (if pv \<noteq> 0 then h else nx))) w = Some h'"
  obtain ps where ps: "linked c h ps" "\<And>q. q \<in> set ps \<longleftrightarrow> (\<exists>irq. P q = Some (irq, v))" using L h unfolding lists_ok_def by blast
  have pin: "p \<in> set ps" using ps(2) p(1) by blast
  show "\<exists>qs. linked (unhooked c nx pv) h' qs \<and> (\<forall>q. q \<in> set qs \<longleftrightarrow> (\<exists>i. (P(p := None)) q = Some (i, w)))"
  proof (cases "w = v")
    case True
    have "linked (unhooked c nx pv) (if pv \<noteq> 0 then h else nx) (remove1 p ps)"
      using linked_remove [OF ps(1) pin p(2)] unfolding unhooked_def Let_def .
    moreover have "set (remove1 p ps) = set ps - {p}" using ps(1) by (simp add: linked_def)
    ultimately show ?thesis using True w ps(2) by (intro exI [of _ "remove1 p ps"]) auto
  next
    case False
    then obtain qs where qs: "linked c h' qs" "\<And>q. q \<in> set qs \<longleftrightarrow> (\<exists>irq. P q = Some (irq, w))" using L w unfolding lists_ok_def by force
    have "q \<noteq> p \<and> (nx \<noteq> 0 \<longrightarrow> q \<noteq> nx) \<and> (pv \<noteq> 0 \<longrightarrow> q \<noteq> pv)" if "q \<in> set qs" for q
    proof -
      have "q \<notin> set ps" using that qs(2) ps(2) False by fastforce
      then show ?thesis using linked_neighbours [OF ps(1) pin] p(2) pin by (metis Pair_inject option.inject)
    qed
    then have "linked (unhooked c nx pv) h' qs = linked c h' qs" by (intro linked_cong) (auto simp: unhooked_def Let_def)
    moreover have "p \<notin> set qs" using qs(2) p(1) False by auto
    ultimately show ?thesis using qs False by (intro exI [of _ qs]) auto
  qed
qed

lemma pirqs_ok_iff:
  "pirqs_ok D \<longleftrightarrow>
     (\<forall>p irq n. pirq_port D p = Some (irq, n) \<longrightarrow> pirq_evtchn D irq = Some p)
     \<and> (\<forall>irq p. pirq_evtchn D irq = Some p \<longrightarrow> p \<noteq> 0 \<longrightarrow> (\<exists>n. pirq_port D p = Some (irq, n)))
     \<and> lists_ok (pirq_port D) (pirq_links D) (pirq_heads D)"
proof -
  have "(\<forall>v. vcpu D v \<noteq> None \<longrightarrow> (\<exists>ps. pirq_list D v ps)) \<longleftrightarrow> lists_ok (pirq_port D) (pirq_links D) (pirq_heads D)"
    unfolding pirq_list_def lists_ok_def pirq_heads_def by fastforce
  then show ?thesis by (simp add: pirqs_ok_def)
qed

text \<open>Rewriting links and list heads changes nothing else.\<close>

definition forget_link :: "evtchn \<Rightarrow> evtchn" where
  "forget_link e = (case chn_state e of ECS_PIRQ irq _ _ \<Rightarrow> e\<lparr>chn_state := ECS_PIRQ irq 0 0\<rparr> | _ \<Rightarrow> e)"

definition forget_links :: "edomain \<Rightarrow> edomain" where
  "forget_links D = D\<lparr>chn := (\<lambda>p. map_option forget_link (chn D p)), vcpu := (\<lambda>v. map_option (\<lambda>r. r\<lparr>pirq_evtchn_head := 0\<rparr>) (vcpu D v))\<rparr>"

definition relinked :: "edomain \<Rightarrow> edomain \<Rightarrow> bool" where
  "relinked D D' \<longleftrightarrow> forget_links D' = forget_links D"

lemma relinked_refl [simp]: "relinked D D"
  by (simp add: relinked_def)

lemma relinked_trans: "relinked A B \<Longrightarrow> relinked B C \<Longrightarrow> relinked A C"
  by (simp add: relinked_def)

lemma forget_link_simps [simp]:
  "notify_vcpu_id (forget_link e) = notify_vcpu_id e" "xen_consumer (forget_link e) = xen_consumer e"
  "virq_of (forget_link e) = virq_of e" "pirq_of (forget_link e) = pirq_of e" "link_of (forget_link e) = link_of e"
  "chn_state (forget_link e) = ECS_RESERVED \<longleftrightarrow> chn_state e = ECS_RESERVED" "chn_state (forget_link e) = ECS_FREE \<longleftrightarrow> chn_state e = ECS_FREE"
  "chn_state (forget_link e) = ECS_UNBOUND d \<longleftrightarrow> chn_state e = ECS_UNBOUND d"
  "chn_state (forget_link e) = ECS_INTERDOMAIN d q \<longleftrightarrow> chn_state e = ECS_INTERDOMAIN d q"
  by (auto simp: forget_link_def virq_of_def pirq_of_def link_of_def split: ecs.splits)

lemma forget_links_simps [simp]:
  "vcpu (forget_links D) v = None \<longleftrightarrow> vcpu D v = None" "chn (forget_links D) p = None \<longleftrightarrow> chn D p = None"
  "is_dying (forget_links D) = is_dying D" "max_evtchns (forget_links D) = max_evtchns D" "poll_mask (forget_links D) = poll_mask D"
  "pirq_evtchn (forget_links D) = pirq_evtchn D" "is_hvm_domain (forget_links D) = is_hvm_domain D"
  "evtchn_pending (forget_links D) = evtchn_pending D" "evtchn_mask (forget_links D) = evtchn_mask D" "max_vcpus (forget_links D) = max_vcpus D"
  "nr_pirqs (forget_links D) = nr_pirqs D" "bits_per_evtchn_word (forget_links D) = bits_per_evtchn_word D"
  by (simp_all add: forget_links_def fun_eq_iff evtchn_mask_def mask_bit_def)

lemma forget_links_views:
  "virq_port (forget_links D) = virq_port D" "pirq_port (forget_links D) = pirq_port D" "link_port (forget_links D) = link_port D"
  "consumer (forget_links D) = consumer D" "virq_tab (forget_links D) = virq_tab D"
  by (auto simp: forget_links_def virq_port_def pirq_port_def link_port_def consumer_def virq_tab_def fun_eq_iff bind_case option.map_comp comp_def
      split: option.splits)

lemma forget_links_channel: "channel_ok (forget_links D) (forget_link e) = channel_ok D e"
  unfolding channel_ok_def forget_links_simps forget_link_simps ..

lemma forget_links_chn: "chn (forget_links D) p = map_option forget_link (chn D p)"
  by (simp add: forget_links_def)

lemma forget_links_ok: "ports_ok (forget_links D) = ports_ok D" "vcpus_ok (forget_links D) = vcpus_ok D" "channels_ok (forget_links D) = channels_ok D"
proof -
  have "(\<forall>p e. chn (forget_links D) p = Some e \<longrightarrow> P p e) \<longleftrightarrow> (\<forall>p e. chn D p = Some e \<longrightarrow> P p (forget_link e))" for P
    by (auto simp: forget_links_chn)
  note all = this
  show "ports_ok (forget_links D) = ports_ok D" unfolding ports_ok_def all by simp
  show "channels_ok (forget_links D) = channels_ok D" unfolding channels_ok_def
    using all [of "\<lambda>_ e. channel_ok (forget_links D) e"] by (simp add: forget_links_channel)
  show "vcpus_ok (forget_links D) = vcpus_ok D" by (simp add: vcpus_ok_def polls_ok_def)
qed

lemma relinked_keeps:
  assumes "relinked D D'"
  shows "virq_port D' = virq_port D" "pirq_port D' = pirq_port D" "link_port D' = link_port D" "consumer D' = consumer D"
    "virq_tab D' = virq_tab D" "ports_ok D' = ports_ok D" "vcpus_ok D' = vcpus_ok D" "channels_ok D' = channels_ok D"
    "vcpu D' v = None \<longleftrightarrow> vcpu D v = None" "pirq_evtchn D' = pirq_evtchn D" "is_dying D' = is_dying D"
    "max_evtchns D' = max_evtchns D" "map_option forget_link (chn D' p) = map_option forget_link (chn D p)"
    "evtchn_pending D' = evtchn_pending D" "evtchn_mask D' = evtchn_mask D"
  using assms unfolding relinked_def by (metis forget_links_views forget_links_ok forget_links_simps forget_links_chn)+

lemma set_next_port_ok:
  assumes "pirq_links D p = Some (nx, pv)"
  shows "\<exists>D'. set_next_port p n D = Some D' \<and> relinked D D' \<and> pirq_links D' = (pirq_links D)(p := Some (n, pv)) \<and> pirq_heads D' = pirq_heads D"
proof -
  obtain e irq where e: "chn D p = Some e" "chn_state e = ECS_PIRQ irq nx pv"
    using assms by (auto simp: pirq_links_def plinks_of_def bind_case split: option.splits ecs.splits)
  let ?D = "set_state p (ECS_PIRQ irq n pv) D"
  have "set_next_port p n D = Some ?D" using e by (simp add: set_next_port_def evtchn_from_port_def)
  moreover have "relinked D ?D" using e by (auto simp: relinked_def forget_links_def set_state_def upd_chn_def forget_link_def fun_eq_iff)
  moreover have "pirq_links ?D = (pirq_links D)(p := Some (n, pv))"
    unfolding set_state_def using upd_chn_views(3) [OF e(1)] by (simp add: plinks_of_def)
  ultimately show ?thesis by (simp add: set_state_def)
qed

lemma set_prev_port_ok:
  assumes "pirq_links D p = Some (nx, pv)"
  shows "\<exists>D'. set_prev_port p n D = Some D' \<and> relinked D D' \<and> pirq_links D' = (pirq_links D)(p := Some (nx, n)) \<and> pirq_heads D' = pirq_heads D"
proof -
  obtain e irq where e: "chn D p = Some e" "chn_state e = ECS_PIRQ irq nx pv"
    using assms by (auto simp: pirq_links_def plinks_of_def bind_case split: option.splits ecs.splits)
  let ?D = "set_state p (ECS_PIRQ irq nx n) D"
  have "set_prev_port p n D = Some ?D" using e by (simp add: set_prev_port_def evtchn_from_port_def)
  moreover have "relinked D ?D" using e by (auto simp: relinked_def forget_links_def set_state_def upd_chn_def forget_link_def fun_eq_iff)
  moreover have "pirq_links ?D = (pirq_links D)(p := Some (nx, n))"
    unfolding set_state_def using upd_chn_views(3) [OF e(1)] by (simp add: plinks_of_def)
  ultimately show ?thesis by (simp add: set_state_def)
qed

lemma set_head_ok:
  assumes "vcpu D v \<noteq> None"
  shows "relinked D (upd_vcpu v (\<lambda>r. r\<lparr>pirq_evtchn_head := h\<rparr>) D)" "pirq_links (upd_vcpu v (\<lambda>r. r\<lparr>pirq_evtchn_head := h\<rparr>) D) = pirq_links D"
    "pirq_heads (upd_vcpu v (\<lambda>r. r\<lparr>pirq_evtchn_head := h\<rparr>) D) = (pirq_heads D)(v := Some h)"
  using assms by (auto simp: relinked_def forget_links_def upd_vcpu_def option.map_comp comp_def pirq_links_def pirq_heads_def fun_eq_iff)

lemma pirq_headsD: "pirq_heads D v = Some h \<Longrightarrow> \<exists>r. vcpu D v = Some r \<and> pirq_evtchn_head r = h"
  by (simp add: pirq_heads_def)

lemma link_pirq_port_ok:
  assumes h: "pirq_heads D v = Some h" and p: "pirq_links D p = Some l" and hp: "h \<noteq> p" "h \<noteq> 0 \<Longrightarrow> pirq_links D h \<noteq> None"
  shows "\<exists>D'. link_pirq_port p v D = Some D' \<and> relinked D D' \<and> pirq_links D' = pushed (pirq_links D) p h
    \<and> pirq_heads D' = (pirq_heads D)(v := Some p)"
proof -
  obtain r where r: "vcpu D v = Some r" "pirq_evtchn_head r = h" using pirq_headsD [OF h] by blast
  obtain nx pv where l: "l = (nx, pv)" by (cases l)
  obtain D1 where 1: "set_prev_port p 0 D = Some D1" "relinked D D1" "pirq_links D1 = (pirq_links D)(p := Some (nx, 0))" "pirq_heads D1 = pirq_heads D"
    using set_prev_port_ok p l by blast
  have "pirq_links D1 p = Some (nx, 0)" using 1 by simp
  then obtain D2 where 2: "set_next_port p h D1 = Some D2" "relinked D1 D2" "pirq_links D2 = (pirq_links D1)(p := Some (h, 0))" "pirq_heads D2 = pirq_heads D1"
    using set_next_port_ok by blast
  obtain D3 where 3: "(if h \<noteq> 0 then set_prev_port h p D2 else Some D2) = Some D3" "relinked D2 D3"
    "pirq_links D3 = (if h \<noteq> 0 then (pirq_links D2)(h := Some (fst (the (pirq_links D h)), p)) else pirq_links D2)" "pirq_heads D3 = pirq_heads D2"
  proof (cases "h = 0")
    case False
    then obtain a b where ab: "pirq_links D h = Some (a, b)" using hp by fastforce
    then have "pirq_links D2 h = Some (a, b)" using 1 2 hp by simp
    then show ?thesis using that set_prev_port_ok [of D2 h a b p] False ab by auto
  qed (use that in auto)
  have v3: "vcpu D3 v \<noteq> None" using relinked_keeps(9) [OF 1(2)] relinked_keeps(9) [OF 2(2)] relinked_keeps(9) [OF 3(2)] r by simp
  let ?D' = "upd_vcpu v (\<lambda>r. r\<lparr>pirq_evtchn_head := p\<rparr>) D3"
  have "link_pirq_port p v D = Some ?D'" using r 1(1) 2(1) 3(1) by (auto simp: link_pirq_port_def split: if_splits)
  moreover have "relinked D ?D'" using relinked_trans 1(2) 2(2) 3(2) set_head_ok(1) [OF v3] by blast
  moreover have "pirq_links ?D' = pushed (pirq_links D) p h" using 1(3) 2(3) 3(3) set_head_ok(2) [OF v3] by (simp add: pushed_def Let_def)
  moreover have "pirq_heads ?D' = (pirq_heads D)(v := Some p)" using 1(4) 2(4) 3(4) set_head_ok(3) [OF v3] by simp
  ultimately show ?thesis by blast
qed

lemma unlink_pirq_port_ok:
  assumes h: "pirq_heads D v = Some h" and p: "pirq_links D p = Some (nx, pv)"
    and n: "nx \<noteq> 0 \<Longrightarrow> pirq_links D nx \<noteq> None" "pv \<noteq> 0 \<Longrightarrow> pirq_links D pv \<noteq> None"
  shows "\<exists>D'. unlink_pirq_port p v D = Some D' \<and> relinked D D' \<and> pirq_links D' = unhooked (pirq_links D) nx pv
    \<and> pirq_heads D' = (pirq_heads D)(v := Some (if pv \<noteq> 0 then h else nx))"
proof -
  obtain r where r: "vcpu D v = Some r" using pirq_headsD [OF h] by blast
  obtain e irq where e: "chn D p = Some e" "chn_state e = ECS_PIRQ irq nx pv"
    using p by (auto simp: pirq_links_def plinks_of_def bind_case split: option.splits ecs.splits)
  let ?c1 = "if pv \<noteq> 0 then (pirq_links D)(pv := Some (nx, snd (the (pirq_links D pv)))) else pirq_links D"
  obtain D1 where 1: "(if pv \<noteq> 0 then set_next_port pv nx D else Some (upd_vcpu v (\<lambda>r. r\<lparr>pirq_evtchn_head := nx\<rparr>) D)) = Some D1"
    "relinked D D1" "pirq_links D1 = ?c1" "pirq_heads D1 = (pirq_heads D)(v := Some (if pv \<noteq> 0 then h else nx))"
  proof (cases "pv = 0")
    case True
    then show ?thesis using that [of "upd_vcpu v (\<lambda>r. r\<lparr>pirq_evtchn_head := nx\<rparr>) D"] set_head_ok [of D v nx] r by auto
  next
    case False
    then obtain a b where "pirq_links D pv = Some (a, b)" using n by fastforce
    then show ?thesis using that set_next_port_ok [of D pv a b nx] False h by (auto simp: fun_upd_idem)
  qed
  obtain D2 where 2: "(if nx \<noteq> 0 then set_prev_port nx pv D1 else Some D1) = Some D2" "relinked D1 D2"
    "pirq_links D2 = (if nx \<noteq> 0 then (pirq_links D1)(nx := Some (fst (the (pirq_links D1 nx)), pv)) else pirq_links D1)" "pirq_heads D2 = pirq_heads D1"
  proof (cases "nx = 0")
    case False
    then obtain a b where "pirq_links D1 nx = Some (a, b)" using n 1(3) by (cases "pirq_links D1 nx") (auto split: if_splits)
    then show ?thesis using that set_prev_port_ok [of D1 nx a b pv] False by auto
  qed (use that in auto)
  have "unlink_pirq_port p v D = Some D2" using r e 1(1) 2(1) by (auto simp: unlink_pirq_port_def evtchn_from_port_def split: if_splits)
  moreover have "relinked D D2" using relinked_trans 1(2) 2(2) by blast
  moreover have "pirq_links D2 = unhooked (pirq_links D) nx pv" using 1(3) 2(3) by (simp add: unhooked_def Let_def)
  ultimately show ?thesis using 1(4) 2(4) by simp
qed

lemma lists_head:
  assumes "lists_ok P c H" "H v = Some h" "h \<noteq> 0"
  shows "c h \<noteq> None" "P h \<noteq> None"
proof -
  obtain ps where ps: "linked c h ps" "\<And>p. p \<in> set ps \<longleftrightarrow> (\<exists>irq. P p = Some (irq, v))" using assms(1,2) unfolding lists_ok_def by blast
  show "c h \<noteq> None" "P h \<noteq> None" using linked_head(2) [OF ps(1) assms(3)] ps(2) [of h] by auto
qed

lemma lists_neighbours:
  assumes "lists_ok P c H" "H v = Some h" "P p = Some (irq, v)" "c p = Some (nx, pv)"
  shows "nx \<noteq> 0 \<Longrightarrow> c nx \<noteq> None" "pv \<noteq> 0 \<Longrightarrow> c pv \<noteq> None"
proof -
  obtain ps where ps: "linked c h ps" "\<And>p. p \<in> set ps \<longleftrightarrow> (\<exists>irq. P p = Some (irq, v))" using assms(1,2) unfolding lists_ok_def by blast
  have "p \<in> set ps" using ps(2) assms(3) by blast
  then show "nx \<noteq> 0 \<Longrightarrow> c nx \<noteq> None" "pv \<noteq> 0 \<Longrightarrow> c pv \<noteq> None"
    using linked_neighbours [OF ps(1)] assms(4) by (metis option.inject prod.inject)+
qed

lemma pirq_evtchn_upd [simp]:
  "ports_ok (D\<lparr>pirq_evtchn := x\<rparr>) = ports_ok D" "vcpus_ok (D\<lparr>pirq_evtchn := x\<rparr>) = vcpus_ok D" "channels_ok (D\<lparr>pirq_evtchn := x\<rparr>) = channels_ok D"
  "virq_port (D\<lparr>pirq_evtchn := x\<rparr>) = virq_port D" "pirq_port (D\<lparr>pirq_evtchn := x\<rparr>) = pirq_port D" "pirq_links (D\<lparr>pirq_evtchn := x\<rparr>) = pirq_links D"
  "link_port (D\<lparr>pirq_evtchn := x\<rparr>) = link_port D" "consumer (D\<lparr>pirq_evtchn := x\<rparr>) = consumer D" "virq_tab (D\<lparr>pirq_evtchn := x\<rparr>) = virq_tab D"
  "pirq_heads (D\<lparr>pirq_evtchn := x\<rparr>) = pirq_heads D"
  by (simp_all add: ports_ok_def vcpus_ok_def polls_ok_def channels_ok_def channel_ok_def virq_port_def pirq_port_def
      pirq_links_def link_port_def consumer_def virq_tab_def pirq_heads_def fun_eq_iff)

lemma vcpu_head: "vcpu D v \<noteq> None \<Longrightarrow> \<exists>h. pirq_heads D v = Some h"
  by (auto simp: pirq_heads_def)

lemma bind_pirq_dom_ok:
  fixes D :: edomain
  assumes ok: "dom_ok D" and p: "chn D p = Some free_chn" "p \<noteq> 0" and irq: "pirq_to_evtchn D irq = 0"
  shows "\<exists>D'. link_pirq_port p 0 (set_state p (ECS_PIRQ irq 0 0) (D\<lparr>pirq_evtchn := (pirq_evtchn D)(irq := Some p)\<rparr>)) = Some D'
    \<and> dom_ok D' \<and> link_port D' = link_port D \<and> consumer D' = consumer D \<and> pirq_port D' = (pirq_port D)(p := Some (irq, 0))"
proof -
  let ?D0 = "D\<lparr>pirq_evtchn := (pirq_evtchn D)(irq := Some p)\<rparr>"
  let ?g = "\<lambda>e. e\<lparr>chn_state := ECS_PIRQ irq 0 0\<rparr>"
  let ?D1 = "upd_chn p ?g ?D0"
  have p0: "chn ?D0 p = Some free_chn" using p by simp
  have none: "virq_port D p = None" "pirq_port D p = None" "link_port D p = None" "consumer D p = 0" using p by (simp_all add: virq_port_def pirq_port_def link_port_def consumer_def)
  have V1: "virq_port ?D1 = virq_port D" "pirq_port ?D1 = (pirq_port D)(p := Some (irq, 0))" "pirq_links ?D1 = (pirq_links D)(p := Some (0, 0))"
    "link_port ?D1 = link_port D" "consumer ?D1 = consumer D" "pirq_heads ?D1 = pirq_heads D" "virq_tab ?D1 = virq_tab D"
    using upd_chn_views [OF p0, of ?g] none by (simp_all add: pirq_evtchn_upd virq_of_def pirq_of_def plinks_of_def link_of_def fun_upd_idem)
  note P = dom_okD(5) [OF ok, unfolded pirqs_ok_iff]
  have L1: "lists_ok (pirq_port D) (pirq_links D) (pirq_heads D)" using P by blast
  have L: "lists_ok (pirq_port D) ((pirq_links D)(p := Some (0, 0))) (pirq_heads D)" by (rule lists_ok_frame [OF L1 none(2)])
  have v0: "vcpu D 0 \<noteq> None" using dom_okD(2) [OF ok] by (simp add: vcpus_ok_def)
  obtain h where h: "pirq_heads D 0 = Some h" using vcpu_head [OF v0] by blast
  have "pirq_heads ?D1 0 = Some h" "pirq_links ?D1 p = Some (0, 0)" "h \<noteq> p" "h \<noteq> 0 \<Longrightarrow> pirq_links ?D1 h \<noteq> None"
    using h V1 lists_head [OF L1 h] none p(2) by (auto)
  then obtain D' where D': "link_pirq_port p 0 ?D1 = Some D'" "relinked ?D1 D'" "pirq_links D' = pushed (pirq_links ?D1) p h"
    "pirq_heads D' = (pirq_heads ?D1)(0 := Some p)" using link_pirq_port_ok [of ?D1 0 h p "(0, 0)"] by blast
  note K = relinked_keeps [OF D'(2)]
  have "lists_ok (pirq_port D') (pirq_links D') (pirq_heads D')"
    using lists_ok_push [OF L none(2) p(2) h, of irq] by (simp add: K(2) D'(3,4) V1)
  moreover have "\<forall>q i n. pirq_port D' q = Some (i, n) \<longrightarrow> pirq_evtchn D' i = Some q"
  proof (intro allI impI)
    fix q i n assume a: "pirq_port D' q = Some (i, n)"
    have E: "pirq_evtchn D' i = ((pirq_evtchn D)(irq := Some p)) i" by (simp add: K(10))
    show "pirq_evtchn D' i = Some q"
    proof (cases "q = p")
      case True
      then show ?thesis using a E by (simp add: K(2) V1)
    next
      case False
      then have b: "pirq_port D q = Some (i, n)" using a by (simp add: K(2) V1)
      then have b': "pirq_evtchn D i = Some q" using P by blast
      moreover have "q \<noteq> 0" using b port0(2) [OF dom_okD(1) [OF ok]] by (metis option.distinct(1))
      ultimately have "i \<noteq> irq" using irq by (auto simp: pirq_to_evtchn_def)
      then show ?thesis using b' E by simp
    qed
  qed
  moreover have "\<forall>i q. pirq_evtchn D' i = Some q \<longrightarrow> q \<noteq> 0 \<longrightarrow> (\<exists>n. pirq_port D' q = Some (i, n))"
  proof (intro allI impI)
    fix i q assume a: "pirq_evtchn D' i = Some q" "q \<noteq> 0"
    show "\<exists>n. pirq_port D' q = Some (i, n)"
    proof (cases "i = irq")
      case True
      then have "p = q" using a by (simp add: K(10))
      moreover have "pirq_port D' p = Some (irq, 0)" by (simp add: K(2) V1(2))
      ultimately show ?thesis using True by simp
    next
      case False
      then have "pirq_evtchn D i = Some q" using a by (simp add: K(10))
      then have "\<exists>n. pirq_port D q = Some (i, n)" using a(2) P by blast
      then show ?thesis using none by (auto simp: K V1)
    qed
  qed
  ultimately have "pirqs_ok D'" unfolding pirqs_ok_iff by blast
  moreover have "virqs_ok D'" using dom_okD(4) [OF ok] virqs_ok_cong [of D' D] K V1 by simp
  moreover have "ports_ok D'" "channels_ok D'"
    using ports_ok_upd [OF _ p0, of ?g] channels_ok_upd [OF _ p0, of ?g] dom_okD(1,3) [OF ok] v0 by (simp_all add: K channel_ok_def)
  moreover have "vcpus_ok ?D1" using dom_okD(2) [OF ok] by (simp add: vcpus_ok_def polls_ok_def)
  then have "vcpus_ok D'" by (simp add: K)
  ultimately have "dom_ok D'" by (simp add: dom_ok_def)
  then show ?thesis using D'(1) K V1 by (simp add: set_state_def)
qed

lemma forget_link_eq:
  assumes "forget_link e1 = forget_link e" "chn_state e = ECS_PIRQ irq nx pv"
  shows "\<exists>a b. chn_state e1 = ECS_PIRQ irq a b" "xen_consumer e1 = xen_consumer e" "notify_vcpu_id e1 = notify_vcpu_id e"
proof -
  have "chn_state (forget_link e1) = ECS_PIRQ irq 0 0" using assms by (simp add: forget_link_def)
  then show "\<exists>a b. chn_state e1 = ECS_PIRQ irq a b" by (auto simp: forget_link_def split: ecs.splits)
  show "xen_consumer e1 = xen_consumer e" "notify_vcpu_id e1 = notify_vcpu_id e" using assms(1) by (metis forget_link_simps(1,2))+
qed

lemma close_pirq_dom_ok:
  fixes D :: edomain
  assumes ok: "dom_ok D" and e: "chn D p = Some e" "chn_state e = ECS_PIRQ irq nx pv"
  shows "\<exists>D1. unlink_pirq_port p (notify_vcpu_id e) (D\<lparr>pirq_evtchn := (pirq_evtchn D)(irq := Some 0)\<rparr>) = Some D1
    \<and> dom_ok (upd_chn p (\<lambda>e. e\<lparr>chn_state := ECS_FREE, notify_vcpu_id := 0\<rparr>) D1)
    \<and> relinked (D\<lparr>pirq_evtchn := (pirq_evtchn D)(irq := Some 0)\<rparr>) D1"
proof -
  let ?D0 = "D\<lparr>pirq_evtchn := (pirq_evtchn D)(irq := Some 0)\<rparr>" and ?v = "notify_vcpu_id e"
  let ?g = "\<lambda>e. e\<lparr>chn_state := ECS_FREE, notify_vcpu_id := 0\<rparr>"
  have P0: "pirq_port D p = Some (irq, ?v)" "pirq_links D p = Some (nx, pv)" "virq_port D p = None"
    using e by (simp_all add: pirq_port_def pirq_of_def pirq_links_def plinks_of_def virq_port_def virq_of_def)
  have "vcpu D ?v \<noteq> None" using channel_okD [OF ok e(1)] by (simp add: channel_ok_def)
  then obtain h where h: "pirq_heads D ?v = Some h" using vcpu_head by blast
  note P = dom_okD(5) [OF ok, unfolded pirqs_ok_iff]
  have L: "lists_ok (pirq_port D) (pirq_links D) (pirq_heads D)" using P by blast
  obtain D1 where D1: "unlink_pirq_port p ?v ?D0 = Some D1" "relinked ?D0 D1" "pirq_links D1 = unhooked (pirq_links D) nx pv"
    "pirq_heads D1 = (pirq_heads D)(?v := Some (if pv \<noteq> 0 then h else nx))"
    using unlink_pirq_port_ok [of ?D0 ?v h p nx pv] h P0 lists_neighbours [OF L h P0(1,2)] by auto
  note K = relinked_keeps [OF D1(2)]
  let ?D' = "upd_chn p ?g D1"
  obtain e1 where e1: "chn D1 p = Some e1" "forget_link e1 = forget_link e" using K(13) [of p] e(1) by auto
  have V: "virq_port ?D' = virq_port D" "pirq_port ?D' = (pirq_port D)(p := None)" "pirq_links ?D' = (unhooked (pirq_links D) nx pv)(p := None)"
    "pirq_heads ?D' = (pirq_heads D)(?v := Some (if pv \<noteq> 0 then h else nx))" "virq_tab ?D' = virq_tab D"
    using upd_chn_views [OF e1(1), of ?g] P0(3) by (simp_all add: K D1(3,4) virq_of_def pirq_of_def plinks_of_def fun_upd_idem)
  have "lists_ok (pirq_port ?D') (pirq_links ?D') (pirq_heads ?D')"
    unfolding V by (rule lists_ok_frame [OF lists_ok_remove [OF L P0(1,2) h]]) simp
  moreover have E: "pirq_evtchn ?D' = (pirq_evtchn D)(irq := Some 0)" by (simp add: K)
  have "\<forall>q i n. pirq_port ?D' q = Some (i, n) \<longrightarrow> pirq_evtchn ?D' i = Some q"
  proof (intro allI impI)
    fix q i n assume "pirq_port ?D' q = Some (i, n)"
    then have a: "pirq_port D q = Some (i, n)" "q \<noteq> p" unfolding V by (simp_all split: if_splits)
    then have b: "pirq_evtchn D i = Some q" "pirq_evtchn D irq = Some p" using P P0(1) by blast+
    then have "i \<noteq> irq" using a(2) by auto
    then show "pirq_evtchn ?D' i = Some q" using b unfolding E by simp
  qed
  moreover have "\<forall>i q. pirq_evtchn ?D' i = Some q \<longrightarrow> q \<noteq> 0 \<longrightarrow> (\<exists>n. pirq_port ?D' q = Some (i, n))"
  proof (intro allI impI)
    fix i q assume a: "pirq_evtchn ?D' i = Some q" "q \<noteq> 0"
    then have i: "i \<noteq> irq" "pirq_evtchn D i = Some q" unfolding E by (auto split: if_splits)
    then obtain n where n: "pirq_port D q = Some (i, n)" using P a(2) by blast
    then have "q \<noteq> p" using i P0(1) by auto
    then show "\<exists>n. pirq_port ?D' q = Some (i, n)" using n unfolding V by simp
  qed
  ultimately have "pirqs_ok ?D'" unfolding pirqs_ok_iff by blast
  moreover have "virqs_ok ?D'" using dom_okD(4) [OF ok] virqs_ok_cong [of ?D' D] V by simp
  moreover have st: "chn_state e1 \<noteq> ECS_RESERVED" using forget_link_eq(1) [OF e1(2) e(2)] by auto
  have "ports_ok ?D'" using ports_ok_upd [OF _ e1(1), of ?g] dom_okD(1) [OF ok] st by (simp add: K)
  moreover have v1: "vcpus_ok D1" using dom_okD(2) [OF ok] by (simp add: K)
  then have "vcpus_ok ?D'" by (simp add: vcpus_ok_def)
  moreover have "xen_consumer e1 = 0"
    using forget_link_eq(2) [OF e1(2) e(2)] channel_okD [OF ok e(1)] e(2) by (auto simp: channel_ok_def)
  then have "channels_ok ?D'" using channels_ok_upd [OF _ e1(1), of ?g] dom_okD(3) [OF ok] v1 by (simp add: K channel_ok_def vcpus_ok_def)
  ultimately have "dom_ok ?D'" by (simp add: dom_ok_def)
  then show ?thesis using D1 by blast
qed

lemma rebind_pirq_dom_ok:
  fixes D :: edomain
  assumes ok: "dom_ok D" and e: "chn D p = Some e" "chn_state e = ECS_PIRQ irq nx pv" and vid: "vcpu D vid \<noteq> None" "vid \<noteq> notify_vcpu_id e"
  shows "\<exists>D'. rebind_pirq p (notify_vcpu_id e) vid D = Some D' \<and> dom_ok D' \<and> link_port D' = link_port D \<and> consumer D' = consumer D
    \<and> pirq_port D' = (pirq_port D)(p := Some (irq, vid))"
proof -
  let ?v = "notify_vcpu_id e" and ?g = "\<lambda>e. e\<lparr>notify_vcpu_id := vid\<rparr>"
  have P0: "pirq_port D p = Some (irq, ?v)" "pirq_links D p = Some (nx, pv)" "virq_port D p = None" "link_port D p = None"
    using e by (simp_all add: pirq_port_def pirq_of_def pirq_links_def plinks_of_def virq_port_def virq_of_def link_port_def link_of_def)
  have p0: "p \<noteq> 0" using P0(1) port0(2) [OF dom_okD(1) [OF ok]] by (metis option.distinct(1))
  have ch: "channel_ok D e" by (rule channel_okD [OF ok e(1)])
  then obtain h where h: "pirq_heads D ?v = Some h" using vcpu_head [of D ?v] by (auto simp: channel_ok_def)
  note P = dom_okD(5) [OF ok, unfolded pirqs_ok_iff]
  have L: "lists_ok (pirq_port D) (pirq_links D) (pirq_heads D)" using P by blast
  let ?c = "unhooked (pirq_links D) nx pv" and ?H = "(pirq_heads D)(?v := Some (if pv \<noteq> 0 then h else nx))"
  obtain D1 where D1: "unlink_pirq_port p ?v D = Some D1" "relinked D D1" "pirq_links D1 = ?c" "pirq_heads D1 = ?H"
    using unlink_pirq_port_ok [of D ?v h p nx pv] h P0 lists_neighbours [OF L h P0(1,2)] by auto
  have L1: "lists_ok ((pirq_port D)(p := None)) ?c ?H" by (rule lists_ok_remove [OF L P0(1,2) h])
  note K = relinked_keeps [OF D1(2)]
  obtain e1 where e1: "chn D1 p = Some e1" "forget_link e1 = forget_link e" using K(13) [of p] e(1) by auto
  obtain a b where ab: "chn_state e1 = ECS_PIRQ irq a b" "xen_consumer e1 = 0"
    using forget_link_eq [OF e1(2) e(2)] ch e(2) by (auto simp: channel_ok_def)
  let ?D2 = "upd_chn p ?g D1"
  have c0: "consumer D p = 0" using ch e by (auto simp: consumer_def channel_ok_def)
  have V: "virq_port ?D2 = virq_port D" "pirq_port ?D2 = (pirq_port D)(p := Some (irq, vid))" "pirq_links ?D2 = ?c(p := Some (a, b))"
    "link_port ?D2 = link_port D" "consumer ?D2 = consumer D" "pirq_heads ?D2 = ?H" "virq_tab ?D2 = virq_tab D"
    using upd_chn_views [OF e1(1), of ?g] P0 ab c0 by (simp_all add: K D1(3,4) virq_of_def pirq_of_def plinks_of_def link_of_def fun_upd_idem)
  have L2: "lists_ok ((pirq_port D)(p := None)) (?c(p := Some (a, b))) ?H" by (rule lists_ok_frame [OF L1]) simp
  obtain h' where h': "?H vid = Some h'" using vcpu_head [OF vid(1)] vid(2) by auto
  have "h' \<noteq> 0 \<Longrightarrow> h' \<noteq> p \<and> ?c h' \<noteq> None" using lists_head [OF L1 h'] by (auto split: if_splits)
  then have hp: "h' \<noteq> p" "h' \<noteq> 0 \<Longrightarrow> pirq_links ?D2 h' \<noteq> None" using p0 unfolding V by auto
  have hv: "pirq_heads ?D2 vid = Some h'" "pirq_links ?D2 p = Some (a, b)" unfolding V using h' by simp_all
  obtain D' where D': "link_pirq_port p vid ?D2 = Some D'" "relinked ?D2 D'" "pirq_links D' = pushed (pirq_links ?D2) p h'"
    "pirq_heads D' = (pirq_heads ?D2)(vid := Some p)" using link_pirq_port_ok [OF hv hp] by blast
  note K' = relinked_keeps [OF D'(2)]
  have PD: "pirq_port D' = (pirq_port D)(p := Some (irq, vid))" unfolding K' V ..
  have "lists_ok (((pirq_port D)(p := None))(p := Some (irq, vid))) (pushed (?c(p := Some (a, b))) p h') (?H(vid := Some p))"
    by (rule lists_ok_push [OF L2 _ p0 h']) simp
  then have "lists_ok (pirq_port D') (pirq_links D') (pirq_heads D')" unfolding PD D'(3,4) V by simp
  moreover have E: "pirq_evtchn D' = pirq_evtchn D" by (simp add: K'(10)) (simp add: K(10))
  have "\<forall>q i n. pirq_port D' q = Some (i, n) \<longrightarrow> pirq_evtchn D' i = Some q"
    unfolding PD E using P P0(1) by (metis fun_upd_apply option.inject prod.inject)
  moreover have "\<forall>i q. pirq_evtchn D' i = Some q \<longrightarrow> q \<noteq> 0 \<longrightarrow> (\<exists>n. pirq_port D' q = Some (i, n))"
    unfolding PD E using P P0(1) by (metis fun_upd_apply option.inject prod.inject)
  ultimately have "pirqs_ok D'" unfolding pirqs_ok_iff by blast
  moreover have "virqs_ok D'" using dom_okD(4) [OF ok] virqs_ok_cong [of D' D] K' V by simp
  moreover have "ports_ok D'" using ports_ok_upd [OF _ e1(1), of ?g] dom_okD(1) [OF ok] by (simp add: K' K(6))
  moreover have "vcpus_ok ?D2" using dom_okD(2) [OF ok] K(7) by (simp add: vcpus_ok_def)
  then have "vcpus_ok D'" by (simp add: K')
  moreover have "channel_ok D1 (?g e1)" using ab vid(1) K(9) [of vid] by (simp add: channel_ok_def)
  then have "channels_ok ?D2" using channels_ok_upd [OF _ e1(1), of ?g] dom_okD(3) [OF ok] K(8) by simp
  then have "channels_ok D'" by (simp add: K')
  ultimately have "dom_ok D'" by (simp add: dom_ok_def)
  moreover have "rebind_pirq p ?v vid D = Some D'" using D1(1) D'(1) by (simp add: rebind_pirq_def)
  ultimately show ?thesis using K' V PD by simp
qed

end
