(* ===== verification/Evtchn_System.thy ===== *)
theory Evtchn_System
  imports Evtchn_Inv
begin

text \<open>
  The event channels of all domains: the invariant over domains, the pairing of channels between
  them and the consumers inside Xen; that every operation called within its contract keeps it and returns; and the
  properties of the component.
\<close>

section \<open>The invariant of the system\<close>

definition doms_ok :: "esys \<Rightarrow> bool" where
  "doms_ok s \<longleftrightarrow> (\<forall>d D. doms s d = Some D \<longrightarrow> dom_ok D)"

definition links :: "esys \<Rightarrow> nat \<times> nat \<Rightarrow> (nat \<times> nat) option" where
  "links s x = Option.bind (doms s (fst x)) (\<lambda>D. link_port D (snd x))"

text \<open>Channels between domains come in pairs that name each other.\<close>

definition links_ok :: "esys \<Rightarrow> bool" where
  "links_ok s \<longleftrightarrow> (\<forall>x y. links s x = Some y \<longrightarrow> links s y = Some x)"

definition consumers_ok :: "esys \<Rightarrow> bool" where
  "consumers_ok s \<longleftrightarrow> (\<forall>d D p. doms s d = Some D \<longrightarrow> consumer D p \<noteq> 0 \<longrightarrow> xen_consumers s (consumer D p - 1) \<noteq> None)"

definition einv :: "esys \<Rightarrow> bool" where
  "einv s \<longleftrightarrow> doms_ok s \<and> links_ok s \<and> consumers_ok s"

lemma einvD: "einv s \<Longrightarrow> doms s d = Some D \<Longrightarrow> dom_ok D" "einv s \<Longrightarrow> links_ok s" "einv s \<Longrightarrow> consumers_ok s" "einv s \<Longrightarrow> doms_ok s"
  by (auto simp: einv_def doms_ok_def)

lemma put_dom_simps [simp]:
  "doms (put_dom d D s) = (doms s)(d := Some D)" "xen_consumers (put_dom d D s) = xen_consumers s"
  "global_virq_handlers (put_dom d D s) = global_virq_handlers s"
  by (simp_all add: put_dom_def)

lemma upd_dom_put: "doms s d = Some D \<Longrightarrow> upd_dom d f s = put_dom d (f D) s"
  by (simp add: upd_dom_def put_dom_def)

lemma put_dom_twice [simp]: "put_dom d D (put_dom d D' s) = put_dom d D s"
  by (simp add: put_dom_def)

lemma doms_ok_put: "doms_ok s \<Longrightarrow> dom_ok D' \<Longrightarrow> doms_ok (put_dom d D' s)"
  by (auto simp: doms_ok_def)

lemma links_put: "links (put_dom d D' s) = (\<lambda>x. if fst x = d then link_port D' (snd x) else links s x)"
  by (auto simp: links_def fun_eq_iff)

lemma links_put_same: "doms s d = Some D \<Longrightarrow> link_port D' = link_port D \<Longrightarrow> links (put_dom d D' s) = links s"
  by (auto simp: links_def fun_eq_iff)

lemma links_put_upd: "doms s d = Some D \<Longrightarrow> link_port D' = (link_port D)(p := l) \<Longrightarrow> links (put_dom d D' s) = (links s)((d, p) := l)"
  by (auto simp: links_def fun_eq_iff)

lemma consumers_ok_put:
  assumes "consumers_ok s" "doms s d = Some D" "\<And>p. consumer D' p = consumer D p \<or> consumer D' p = 0"
  shows "consumers_ok (put_dom d D' s)"
  unfolding consumers_ok_def
proof (intro allI impI)
  fix d' E p assume a: "doms (put_dom d D' s) d' = Some E" "consumer E p \<noteq> 0"
  then have "\<exists>E'. doms s d' = Some E' \<and> consumer E' p = consumer E p" using assms(2) assms(3) [of p] by (auto split: if_splits)
  then show "xen_consumers (put_dom d D' s) (consumer E p - 1) \<noteq> None" using assms(1) a(2) unfolding consumers_ok_def by (metis put_dom_simps(2))
qed

lemma einv_put:
  assumes "einv s" "doms s d = Some D" "dom_ok D'" "link_port D' = link_port D" "\<And>p. consumer D' p = consumer D p \<or> consumer D' p = 0"
  shows "einv (put_dom d D' s)"
proof -
  have "doms_ok (put_dom d D' s)" by (rule doms_ok_put [OF einvD(4) [OF assms(1)] assms(3)])
  moreover have "consumers_ok (put_dom d D' s)" by (rule consumers_ok_put [OF einvD(3) [OF assms(1)] assms(2,5)])
  moreover have "links_ok (put_dom d D' s)" using einvD(2) [OF assms(1)] unfolding links_ok_def links_put_same [OF assms(2,4)] .
  ultimately show ?thesis by (simp add: einv_def)
qed

lemma einv_same_shape:
  assumes "einv s" "doms s d = Some D" "same_shape D D'" "polls_ok D'"
  shows "einv (put_dom d D' s)"
  using einv_put [OF assms(1,2) dom_ok_same_shape [OF einvD(1) [OF assms(1,2)] assms(3,4)]] same_shape_views [OF assms(3)] by simp

lemma evtchn_set_pending_ok:
  assumes s: "einv s" "doms s d = Some D" and p: "chn D p \<noteq> None" and v: "vcpu D v \<noteq> None"
  shows "\<exists>D'. evtchn_set_pending d v p s = Some (put_dom d D' s) \<and> einv (put_dom d D' s) \<and> same_shape D D'
    \<and> evtchn_pending D' = (evtchn_pending D)(p := True)
    \<and> (has_bit D p \<longrightarrow> \<not> evtchn_pending D p \<longrightarrow> \<not> evtchn_mask D p \<longrightarrow> evtchn_mask D' = evtchn_mask D
         \<and> told D' = (told D)(v := tell_port D p (told D v))
         \<and> (\<forall>w. polling D' w = (if w < max_vcpus D then woken p (polling D w) else polling D w)))"
proof -
  have "polls_ok D" using dom_okD(2) [OF einvD(1) [OF s]] by (simp add: vcpus_ok_def)
  then obtain D' where D': "evtchn_2l_set_pending v p D = Some D'" "same_shape D D'" "polls_ok D'"
    "evtchn_pending D' = (evtchn_pending D)(p := True)"
    and eff: "has_bit D p \<longrightarrow> evtchn_mask D' = evtchn_mask D
         \<and> told D' = (if evtchn_pending D p \<or> evtchn_mask D p then told D else (told D)(v := tell_port D p (told D v)))
         \<and> polling D' = (\<lambda>w. if \<not> evtchn_pending D p \<and> w < max_vcpus D then woken p (polling D w) else polling D w)"
    using set_pending_correct [OF v, of p] by blast
  have "evtchn_set_pending d v p s = Some (put_dom d D' s)"
    using s(2) p D'(1) by (auto simp: evtchn_set_pending_def evtchn_from_port_def evtchn_port_set_pending_def)
  moreover have "einv (put_dom d D' s)" by (rule einv_same_shape [OF s D'(2,3)])
  moreover have "evtchn_mask D' = evtchn_mask D \<and> told D' = (told D)(v := tell_port D p (told D v))
      \<and> (\<forall>w. polling D' w = (if w < max_vcpus D then woken p (polling D w) else polling D w))"
    if "has_bit D p" "\<not> evtchn_pending D p" "\<not> evtchn_mask D p"
    using eff that by simp
  ultimately show ?thesis using D'(2,4) by blast
qed

lemma evtchn_unmask_ok:
  assumes s: "einv s" "doms s cur = Some D"
  shows "\<exists>r s'. evtchn_unmask cur port s = Some (r, s') \<and> einv s'"
proof (cases "port_is_valid D port")
  case False
  then show ?thesis using s by (simp add: evtchn_unmask_def)
next
  case True
  then obtain e where e: "chn D port = Some e" by (auto simp: port_is_valid_def)
  have v: "vcpu D (notify_vcpu_id e) \<noteq> None" using channel_okD [OF einvD(1) [OF s] e] by (simp add: channel_ok_def)
  have "polls_ok D" using dom_okD(2) [OF einvD(1) [OF s]] by (simp add: vcpus_ok_def)
  then obtain D' where "evtchn_2l_unmask (notify_vcpu_id e) port D = Some D'" "same_shape D D'" "polls_ok D'" using unmask_correct [OF v] by blast
  then show ?thesis using s e True einv_same_shape [OF s] by (auto simp: evtchn_unmask_def evtchn_port_unmask_def evtchn_from_port_def)
qed

section \<open>Binding\<close>

lemma einv_grown:
  assumes "einv s" "doms s d = Some D" "grown D D'" "dom_ok D'"
  shows "einv (put_dom d D' s)"
  using einv_put [OF assms(1,2,4)] grown_views [OF assms(3)] by simp

lemma link_port_None: "chn D p = Some free_chn \<Longrightarrow> link_port D p = None" "chn D p = Some free_chn \<Longrightarrow> consumer D p = 0"
  by (simp_all add: link_port_def consumer_def)

lemma einv_plain:
  assumes "einv s" "doms s d = Some D" "chn D p = Some e" "plain_state (chn_state e)" "plain_state (chn_state (f e))" "channel_ok D (f e)"
    "link_of (f e) = link_of e" "xen_consumer (f e) = xen_consumer e \<or> xen_consumer (f e) = 0"
  shows "einv (put_dom d (upd_chn p f D) s)"
proof (rule einv_put [OF assms(1,2)])
  show "dom_ok (upd_chn p f D)" using einvD(1) [OF assms(1,2)] assms(3-6) by (rule dom_ok_plain)
  have "link_port D p = link_of e" "consumer D p = xen_consumer e" using assms(3) by (simp_all add: link_port_def consumer_def)
  then show "link_port (upd_chn p f D) = link_port D" "\<And>q. consumer (upd_chn p f D) q = consumer D q \<or> consumer (upd_chn p f D) q = 0"
    using upd_chn_views [OF assms(3), of f] assms(7,8) by (auto simp: fun_eq_iff)
qed

lemma einv_new:
  assumes s: "einv s" "doms s d = Some D" and g: "get_free_port E D = (Inr p, D')"
    and f: "plain_state (chn_state (f free_chn))" "channel_ok D (f free_chn)" "link_of (f free_chn) = None" "xen_consumer (f free_chn) = 0"
  shows "einv (put_dom d (upd_chn p f D') s)"
proof -
  have G: "dom_ok D'" "grown D D'" "chn D' p = Some free_chn" using get_free_port_ok [OF einvD(1) [OF s] g] by auto
  have "channel_ok D' (f free_chn)" using f(2) grown_fields [OF G(2)] by (simp add: channel_ok_def)
  then have "einv (put_dom d (upd_chn p f D') (put_dom d D' s))"
    using f G by (intro einv_plain [OF einv_grown [OF s G(2,1)], where e = free_chn]) (auto simp: plain_state_def)
  then show ?thesis by simp
qed

lemma by_any_id: "doms s cur \<noteq> None \<Longrightarrow> rcu_lock_domain_by_any_id cur domid s = Some d \<Longrightarrow> \<exists>D. doms s d = Some D"
  by (auto simp: rcu_lock_domain_by_any_id_def split: if_splits)

lemma channel_ok_new: "vcpu D (notify_vcpu_id e) \<noteq> None \<Longrightarrow> chn_state e \<noteq> ECS_FREE \<Longrightarrow> xen_consumer e = 0 \<Longrightarrow> channel_ok D e"
  by (simp add: channel_ok_def)

lemma get_free_port_err: "dom_ok D \<Longrightarrow> get_free_port E D = (Inl rc, D') \<Longrightarrow> D' = D"
  using get_free_port_ok by fastforce

lemma put_same: "doms s d = Some D \<Longrightarrow> put_dom d D s = s"
  by (simp add: put_dom_def fun_upd_idem)

lemma evtchn_alloc_unbound_ok:
  assumes s: "einv s" "doms s cur \<noteq> None"
  shows "\<exists>r s'. evtchn_alloc_unbound E cur domid remote s = Some (r, s') \<and> einv s'"
proof (cases "rcu_lock_domain_by_any_id cur domid s")
  case None
  then show ?thesis using s by (simp add: evtchn_alloc_unbound_def)
next
  case (Some d)
  then obtain D where D: "doms s d = Some D" using by_any_id [OF s(2)] by blast
  have ok: "dom_ok D" by (rule einvD(1) [OF s(1) D])
  have v0: "vcpu D 0 \<noteq> None" using dom_okD(2) [OF ok] by (simp add: vcpus_ok_def)
  obtain r D' where g: "get_free_port E D = (r, D')" by fastforce
  show ?thesis
  proof (cases r)
    case (Inl rc)
    then have "D' = D" using get_free_port_err [OF ok] g by blast
    then show ?thesis using Some D g Inl s(1) by (simp add: evtchn_alloc_unbound_def put_same)
  next
    case (Inr p)
    have G: "dom_ok D'" "grown D D'" using get_free_port_ok [OF ok g] Inr by auto
    have "einv (put_dom d (set_state p (ECS_UNBOUND x) D') s)" for x unfolding set_state_def
      using g Inr v0 by (intro einv_new [OF s(1) D]) (auto simp: plain_state_def link_of_def intro!: channel_ok_new)
    then show ?thesis using Some D g Inr einv_grown [OF s(1) D G(2,1)] by (simp add: evtchn_alloc_unbound_def Let_def)
  qed
qed

lemma evtchn_bind_ipi_ok:
  assumes s: "einv s" "doms s cur = Some D"
  shows "\<exists>r s'. evtchn_bind_ipi E cur vid s = Some (r, s') \<and> einv s'"
proof (cases "vid < 0 \<or> vid \<ge> int (max_vcpus D) \<or> vcpu D (nat vid) = None")
  case True
  then show ?thesis using s by (auto simp: evtchn_bind_ipi_def)
next
  case False
  have ok: "dom_ok D" by (rule einvD(1) [OF s])
  obtain r D' where g: "get_free_port E D = (r, D')" by fastforce
  show ?thesis
  proof (cases r)
    case (Inl rc)
    then have "D' = D" using get_free_port_err [OF ok] g by blast
    then show ?thesis using s g Inl False by (auto simp: evtchn_bind_ipi_def put_same)
  next
    case (Inr p)
    have "einv (put_dom cur (upd_chn p (\<lambda>e. e\<lparr>chn_state := ECS_IPI, notify_vcpu_id := nat vid\<rparr>) D') s)"
      using g Inr False by (intro einv_new [OF s]) (auto simp: plain_state_def link_of_def intro!: channel_ok_new)
    then show ?thesis using s g Inr False by (auto simp: evtchn_bind_ipi_def)
  qed
qed

lemma evtchn_bind_virq_ok:
  assumes s: "einv s" "doms s cur = Some D"
  shows "\<exists>r s'. evtchn_bind_virq E cur virq vid s = Some (r, s') \<and> einv s'"
proof -
  have ok: "dom_ok D" by (rule einvD(1) [OF s])
  obtain r D' where g: "get_free_port E D = (r, D')" by fastforce
  consider "virq < 0 \<or> virq \<ge> int NR_VIRQS \<or> (virq_is_global (nat virq) \<and> vid \<noteq> 0) \<or> vid < 0 \<or> vid \<ge> int (max_vcpus D) \<or> vcpu D (nat vid) = None"
    | v where "\<not> (virq < 0 \<or> virq \<ge> int NR_VIRQS \<or> (virq_is_global (nat virq) \<and> vid \<noteq> 0) \<or> vid < 0 \<or> vid \<ge> int (max_vcpus D))" "vcpu D (nat vid) = Some v"
    by fastforce
  then show ?thesis
  proof cases
    case 1
    then show ?thesis using s by (auto simp: evtchn_bind_virq_def)
  next
    case (2 v)
    show ?thesis
    proof (cases r)
      case (Inl rc)
      then have "D' = D" using get_free_port_err [OF ok] g by blast
      then show ?thesis using s g Inl 2 by (auto simp: evtchn_bind_virq_def put_same)
    next
      case (Inr p)
      have G: "dom_ok D'" "grown D D'" "chn D' p = Some free_chn" "p \<noteq> 0" using get_free_port_ok [OF ok g] Inr by auto
      let ?D = "upd_vcpu (nat vid) (\<lambda>v. v\<lparr>virq_to_evtchn := (virq_to_evtchn v)(nat virq := p)\<rparr>)
           (upd_chn p (\<lambda>e. e\<lparr>chn_state := ECS_VIRQ (nat virq), notify_vcpu_id := nat vid\<rparr>) D')"
      have "einv (put_dom cur ?D s)" if z: "virq_to_evtchn v (nat virq) = 0"
      proof (rule einv_put [OF s])
        show "dom_ok ?D" using z 2 G grown_fields(1) [OF G(2)] by (intro bind_virq_ok) auto
        show "link_port ?D = link_port D" "\<And>q. consumer ?D q = consumer D q \<or> consumer ?D q = 0"
          using upd_chn_views [OF G(3)] link_port_None [OF G(3)] grown_views [OF G(2)]
          by (auto simp: upd_vcpu_keeps link_of_def fun_eq_iff)
      qed
      then show ?thesis using s g Inr 2 by (auto simp: evtchn_bind_virq_def Let_def)
    qed
  qed
qed

lemma pirq_zero_ok:
  assumes ok: "dom_ok D" and z: "pirq_to_evtchn D irq = 0"
  shows "dom_ok (D\<lparr>pirq_evtchn := (pirq_evtchn D)(irq := Some 0)\<rparr>)" (is "dom_ok ?D")
proof -
  note P = dom_okD(5) [OF ok, unfolded pirqs_ok_iff]
  have e: "pirq_evtchn ?D i = Some p \<longleftrightarrow> pirq_evtchn D i = Some p" if "p \<noteq> 0" for i p
    using z that by (auto simp: pirq_to_evtchn_def)
  have "pirq_evtchn ?D i = Some p" if a: "pirq_port D p = Some (i, n)" for p i n
  proof -
    have "p \<noteq> 0" using a port0(2) [OF dom_okD(1) [OF ok]] by (metis option.distinct(1))
    moreover have "pirq_evtchn D i = Some p" using P a by blast
    ultimately show ?thesis using e by blast
  qed
  moreover have "\<exists>n. pirq_port D p = Some (i, n)" if "pirq_evtchn ?D i = Some p" "p \<noteq> 0" for i p
    using P e [OF that(2)] that by blast
  ultimately have "pirqs_ok ?D" unfolding pirqs_ok_iff pirq_evtchn_upd using P by blast
  moreover have "virqs_ok ?D = virqs_ok D" by (rule virqs_ok_cong) simp_all
  ultimately show ?thesis using ok by (simp add: dom_ok_def)
qed

lemma evtchn_bind_pirq_ok:
  assumes s: "einv s" "doms s cur = Some D"
  shows "\<exists>r s'. evtchn_bind_pirq E cur pirq s = Some (r, s') \<and> einv s'"
proof (cases "pirq < 0 \<or> pirq \<ge> int (nr_pirqs D) \<or> (\<not> is_hvm_domain D \<and> \<not> pirq_permitted E) \<or> pirq_to_evtchn D (nat pirq) \<noteq> 0")
  case True
  then show ?thesis using s by (auto simp: evtchn_bind_pirq_def)
next
  case c: False
  have ok: "dom_ok D" by (rule einvD(1) [OF s])
  obtain r D' where g: "get_free_port E D = (r, D')" by fastforce
  show ?thesis
  proof (cases r)
    case (Inl rc)
    then have "D' = D" using get_free_port_err [OF ok] g by blast
    then show ?thesis using s g Inl c by (auto simp: evtchn_bind_pirq_def put_same)
  next
    case (Inr p)
    have G: "dom_ok D'" "grown D D'" "chn D' p = Some free_chn" "p \<noteq> 0" "p < max_evtchns D" using get_free_port_ok [OF ok g] Inr by auto
    note F = grown_fields [OF G(2)] grown_views [OF G(2)]
    have p16: "p mod 65536 = p" using G(5) dom_okD(1) [OF ok] by (simp add: ports_ok_def)
    have z: "pirq_to_evtchn D' (nat pirq) = 0" using c F by (simp add: pirq_to_evtchn_def)
    let ?Z = "D'\<lparr>pirq_evtchn := (pirq_evtchn D')(nat pirq := Some 0)\<rparr>"
    have 1: "einv (put_dom cur D' s)" by (rule einv_grown [OF s G(2,1)])
    have 2: "einv (put_dom cur ?Z s)"
      using pirq_zero_ok [OF G(1) z] by (intro einv_put [OF s]) (simp_all add: F)
    obtain D2 where D2: "link_pirq_port p 0 (set_state p (ECS_PIRQ (nat pirq) 0 0) (D'\<lparr>pirq_evtchn := (pirq_evtchn D')(nat pirq := Some p)\<rparr>)) = Some D2"
      "dom_ok D2" "link_port D2 = link_port D'" "consumer D2 = consumer D'" using bind_pirq_dom_ok [OF G(1,3,4) z] by blast
    have "einv (put_dom cur D2 s)" using D2 F by (intro einv_put [OF s]) auto
    then show ?thesis using s g Inr c 1 2 D2(1) p16 by (auto simp: evtchn_bind_pirq_def Let_def)
  qed
qed

text \<open>Linking two free channels, and unlinking a pair, keep the pairing.\<close>

lemma links_ok_bind:
  assumes "links_ok s" "links s x = None" "links s y = None" "links s' = (links s)(x := Some y, y := Some x)"
  shows "links_ok s'"
  unfolding links_ok_def
proof (intro allI impI)
  fix a b assume l: "links s' a = Some b"
  have old: "links s c \<noteq> Some x \<and> links s c \<noteq> Some y" for c using assms(1-3) unfolding links_ok_def by (metis option.distinct(1))
  show "links s' b = Some a"
  proof (cases "a = x \<or> a = y")
    case True
    then show ?thesis using l assms(4) by (auto split: if_splits)
  next
    case False
    then have ab: "links s a = Some b" using l assms(4) by simp
    then have "b \<noteq> x" "b \<noteq> y" using old [of a] by auto
    moreover have "links s b = Some a" using ab assms(1) unfolding links_ok_def by blast
    ultimately show ?thesis using assms(4) by simp
  qed
qed

lemma links_ok_unbind:
  assumes "links_ok s" "links s x = Some y" "links s' = (links s)(x := None, y := None)"
  shows "links_ok s'"
  unfolding links_ok_def
proof (intro allI impI)
  fix a b assume l: "links s' a = Some b"
  then have a: "links s a = Some b" "a \<noteq> x" "a \<noteq> y" using assms(3) by (auto split: if_splits)
  then have b: "links s b = Some a" using assms(1) unfolding links_ok_def by blast
  moreover have "links s y = Some x" using assms(1,2) unfolding links_ok_def by blast
  ultimately have "b \<noteq> x" "b \<noteq> y" using a assms(2) by auto
  then show "links s' b = Some a" using assms(3) b by simp
qed

lemma upd_chn_plain:
  assumes "doms_ok s" "consumers_ok s" "doms s d = Some D" "chn D p = Some e" "plain_state (chn_state e)" "plain_state (chn_state (f e))"
    "channel_ok D (f e)" "xen_consumer (f e) = xen_consumer e"
  shows "doms_ok (upd_dom d (upd_chn p f) s)" "consumers_ok (upd_dom d (upd_chn p f) s)"
    "links (upd_dom d (upd_chn p f) s) = (links s)((d, p) := link_of (f e))"
proof -
  have ok: "dom_ok D" using assms(1,3) by (simp add: doms_ok_def)
  have "dom_ok (upd_chn p f D)" using ok assms(4-7) by (rule dom_ok_plain)
  then show "doms_ok (upd_dom d (upd_chn p f) s)" using doms_ok_put [OF assms(1)] by (simp add: upd_dom_put [OF assms(3)])
  have "consumer (upd_chn p f D) = consumer D" using upd_chn_views(5) [OF assms(4), of f] assms(4,8) by (auto simp: fun_eq_iff consumer_def)
  then show "consumers_ok (upd_dom d (upd_chn p f) s)" unfolding upd_dom_put [OF assms(3)] by (intro consumers_ok_put [OF assms(2,3)]) simp
  show "links (upd_dom d (upd_chn p f) s) = (links s)((d, p) := link_of (f e))"
    unfolding upd_dom_put [OF assms(3)] by (rule links_put_upd [OF assms(3) upd_chn_views(4) [OF assms(4)]])
qed

lemma unlinked: "doms s d = Some D \<Longrightarrow> chn D p = Some e \<Longrightarrow> link_of e = None \<Longrightarrow> links s (d, p) = None"
  by (simp add: links_def link_port_def)

lemma channel_ok_state:
  assumes "channel_ok D e" "chn_state e \<noteq> ECS_FREE \<or> notify_vcpu_id e = 0" "(\<exists>d. st = ECS_UNBOUND d) \<or> (\<exists>d q. st = ECS_INTERDOMAIN d q)"
  shows "channel_ok D (e\<lparr>chn_state := st\<rparr>)"
  using assms by (auto simp: channel_ok_def)

lemma bind_link_ok:
  fixes ld lport rd rport :: nat
  assumes s: "einv s" and L: "doms s ld = Some LD" "chn LD lport = Some free_chn"
    and R: "doms s rd = Some RD" "chn RD rport = Some e" "chn_state e = ECS_UNBOUND ld"
  defines "s1 \<equiv> upd_dom ld (set_state lport (ECS_INTERDOMAIN rd rport)) s"
  defines "s2 \<equiv> upd_dom rd (set_state rport (ECS_INTERDOMAIN ld lport)) s1"
  shows "einv s2" "links s2 = (links s)((ld, lport) := Some (rd, rport), (rd, rport) := Some (ld, lport))"
    "\<exists>D2. doms s2 ld = Some D2 \<and> chn D2 lport = Some (free_chn\<lparr>chn_state := ECS_INTERDOMAIN rd rport\<rparr>) \<and> vcpu D2 = vcpu LD
       \<and> evtchn_pending D2 = evtchn_pending LD \<and> evtchn_mask D2 = evtchn_mask LD"
    "\<exists>D2. doms s2 rd = Some D2 \<and> chn D2 rport = Some (e\<lparr>chn_state := ECS_INTERDOMAIN ld lport\<rparr>)"
proof -
  let ?f = "\<lambda>e. e\<lparr>chn_state := ECS_INTERDOMAIN rd rport\<rparr>" and ?g = "\<lambda>e. e\<lparr>chn_state := ECS_INTERDOMAIN ld lport\<rparr>"
  have ne: "(ld, lport) \<noteq> (rd, rport)" using L R by (auto simp: free_chn_def)
  have okL: "channel_ok LD (?f free_chn)" using channel_okD [OF einvD(1) [OF s L(1)] L(2)] by (intro channel_ok_state) simp_all
  have 1: "doms_ok s1" "consumers_ok s1" "links s1 = (links s)((ld, lport) := Some (rd, rport))"
    using upd_chn_plain [OF einvD(4,3) [OF s] L, of ?f] okL by (simp_all add: s1_def set_state_def plain_state_def link_of_def)
  obtain RD1 where R1: "doms s1 rd = Some RD1" "chn RD1 rport = Some e" "vcpu RD1 = vcpu RD"
    using R L ne by (cases "rd = ld") (auto simp: s1_def upd_dom_def set_state_def)
  have "channel_ok RD (?g e)" using channel_okD [OF einvD(1) [OF s R(1)] R(2)] R(3) by (intro channel_ok_state) simp_all
  then have okR: "channel_ok RD1 (?g e)" using R1(3) by (simp add: channel_ok_def)
  have 2: "doms_ok s2" "consumers_ok s2" "links s2 = (links s1)((rd, rport) := Some (ld, lport))"
    using upd_chn_plain [OF 1(1,2) R1(1,2), of ?g] okR R(3) by (simp_all add: s2_def set_state_def plain_state_def link_of_def)
  show l2: "links s2 = (links s)((ld, lport) := Some (rd, rport), (rd, rport) := Some (ld, lport))" using 2(3) 1(3) by simp
  have "links s (ld, lport) = None" "links s (rd, rport) = None"
    using unlinked [OF L] unlinked [OF R(1,2)] R(3) by (simp_all add: link_of_def)
  then have "links_ok s2" using links_ok_bind [OF einvD(2) [OF s] _ _ l2] by blast
  then show "einv s2" using 2 by (simp add: einv_def)
  show "\<exists>D2. doms s2 ld = Some D2 \<and> chn D2 lport = Some (?f free_chn) \<and> vcpu D2 = vcpu LD
       \<and> evtchn_pending D2 = evtchn_pending LD \<and> evtchn_mask D2 = evtchn_mask LD"
    using L R ne by (cases "rd = ld") (auto simp: s1_def s2_def upd_dom_def set_state_def)
  show "\<exists>D2. doms s2 rd = Some D2 \<and> chn D2 rport = Some (?g e)"
    using L R ne by (cases "rd = ld") (auto simp: s1_def s2_def upd_dom_def set_state_def)
qed

lemma links_same_shape: "doms s d = Some D \<Longrightarrow> same_shape D D' \<Longrightarrow> links (put_dom d D' s) = links s"
  using links_put_same same_shape_views(4) by blast

lemma bind_remote_ok:
  assumes s: "einv s" and L: "doms s ld = Some LD" "chn LD lport = Some free_chn" and R: "doms s rd = Some RD"
  shows "\<exists>r s'. bind_remote E ld lport rd rport s = Some (r, s') \<and> einv s'
    \<and> (case r of Inl _ \<Rightarrow> s' = s
       | Inr p \<Rightarrow> p = lport \<and> links s (rd, rport) = None \<and> (rd, rport) \<noteq> (ld, lport) \<and> links s' = (links s)((ld, lport) := Some (rd, rport), (rd, rport) := Some (ld, lport))
           \<and> (\<exists>D. doms s' ld = Some D \<and> evtchn_pending D lport \<and> consumer D lport = 0))"
proof (cases "port_is_valid RD rport")
  case False
  then show ?thesis using s R by (simp add: bind_remote_def)
next
  case True
  then obtain e where e: "chn RD rport = Some e" by (auto simp: port_is_valid_def)
  show ?thesis
  proof (cases "chn_state e = ECS_UNBOUND ld \<and> xsm E = 0")
    case False
    then show ?thesis using s R e True by (auto simp: bind_remote_def evtchn_from_port_def)
  next
    case ok: True
    let ?s2 = "upd_dom rd (set_state rport (ECS_INTERDOMAIN ld lport)) (upd_dom ld (set_state lport (ECS_INTERDOMAIN rd rport)) s)"
    note B = bind_link_ok [OF s L R e conjunct1 [OF ok]]
    obtain D2 where D2: "doms ?s2 ld = Some D2" "chn D2 lport = Some (free_chn\<lparr>chn_state := ECS_INTERDOMAIN rd rport\<rparr>)" "vcpu D2 = vcpu LD"
      using B(3) by blast
    have "vcpu D2 0 \<noteq> None" using dom_okD(2) [OF einvD(1) [OF s L(1)]] D2(3) by (simp add: vcpus_ok_def)
    then obtain D' where D': "evtchn_set_pending ld 0 lport ?s2 = Some (put_dom ld D' ?s2)" "einv (put_dom ld D' ?s2)" "same_shape D2 D'"
      "evtchn_pending D' = (evtchn_pending D2)(lport := True)" using evtchn_set_pending_ok [OF B(1) D2(1), of lport 0] D2(2) by auto
    have "bind_remote E ld lport rd rport s = Some (Inr lport, put_dom ld D' ?s2)"
      using R e True ok D2(1,2) D'(1) by (simp add: bind_remote_def evtchn_from_port_def Let_def)
    moreover have "links (put_dom ld D' ?s2) = links ?s2" by (rule links_same_shape [OF D2(1) D'(3)])
    moreover have "links s (rd, rport) = None" using unlinked [OF R e] ok by (simp add: link_of_def)
    moreover have "(rd, rport) \<noteq> (ld, lport)" using L R e ok by auto
    moreover have "consumer D' lport = 0" using same_shape_views(5) [OF D'(3)] D2(2) by (simp add: consumer_def)
    ultimately show ?thesis using D' B(2) by simp
  qed
qed

lemma evtchn_bind_interdomain_ok:
  fixes rdom :: nat
  assumes s: "einv s" "doms s cur = Some LD"
  defines "rd \<equiv> (if rdom = DOMID_SELF then cur else rdom)"
  shows "\<exists>r s'. evtchn_bind_interdomain E cur rdom rport s = Some (r, s') \<and> einv s'
    \<and> (case r of Inl _ \<Rightarrow> links s' = links s
       | Inr lport \<Rightarrow> links s (cur, lport) = None \<and> links s (rd, rport) = None \<and> (rd, rport) \<noteq> (cur, lport) \<and> links s' = (links s)((cur, lport) := Some (rd, rport), (rd, rport) := Some (cur, lport))
           \<and> (\<exists>D. doms s' cur = Some D \<and> evtchn_pending D lport \<and> consumer D lport = 0))"
proof (cases "doms s rd")
  case None
  then show ?thesis using s by (simp add: evtchn_bind_interdomain_def rd_def)
next
  case (Some RD)
  have ok: "dom_ok LD" by (rule einvD(1) [OF s])
  obtain r LD' where g: "get_free_port E LD = (r, LD')" by fastforce
  show ?thesis
  proof (cases r)
    case (Inl rc)
    then have "LD' = LD" using get_free_port_err [OF ok] g by blast
    then show ?thesis using s Some g Inl unfolding rd_def by (auto simp: evtchn_bind_interdomain_def Let_def put_same)
  next
    case (Inr p)
    have G: "dom_ok LD'" "grown LD LD'" "chn LD' p = Some free_chn" using get_free_port_ok [OF ok g] Inr by auto
    let ?s0 = "put_dom cur LD' s"
    have l0: "links ?s0 = links s" by (rule links_put_same [OF s(2) grown_views(4) [OF G(2)]])
    have i0: "einv ?s0" by (rule einv_grown [OF s G(2,1)])
    have d0: "doms ?s0 cur = Some LD'" "\<exists>RD'. doms ?s0 rd = Some RD'" using Some by auto
    have "links s (cur, p) = None" using unlinked [OF d0(1) G(3)] l0 by simp
    moreover have "evtchn_bind_interdomain E cur rdom rport s = bind_remote E cur p rd rport ?s0"
      using s(2) Some g Inr by (simp add: evtchn_bind_interdomain_def Let_def rd_def)
    moreover obtain RD' where "doms ?s0 rd = Some RD'" using d0(2) by blast
    moreover then obtain r' s' where "bind_remote E cur p rd rport ?s0 = Some (r', s') \<and> einv s'
      \<and> (case r' of Inl _ \<Rightarrow> s' = ?s0
         | Inr q \<Rightarrow> q = p \<and> links ?s0 (rd, rport) = None \<and> (rd, rport) \<noteq> (cur, p) \<and> links s' = (links ?s0)((cur, p) := Some (rd, rport), (rd, rport) := Some (cur, p))
             \<and> (\<exists>D. doms s' cur = Some D \<and> evtchn_pending D p \<and> consumer D p = 0))"
      using bind_remote_ok [OF i0 d0(1) G(3), of rd RD' E rport] by blast
    ultimately show ?thesis using l0 by (cases r') auto
  qed
qed

section \<open>Closing\<close>

text \<open>What closing a channel leaves alone: it allocates nothing, reopens nothing and attaches no consumer.\<close>

definition dframe :: "edomain \<Rightarrow> edomain \<Rightarrow> bool" where
  "dframe E E' \<longleftrightarrow> (\<forall>q. chn E' q = None \<longleftrightarrow> chn E q = None) \<and> (\<forall>q. is_free E q \<longrightarrow> is_free E' q) \<and> consumer E' = consumer E
     \<and> is_dying E' = is_dying E \<and> max_evtchns E' = max_evtchns E"

definition sframe :: "esys \<Rightarrow> esys \<Rightarrow> bool" where
  "sframe s s' \<longleftrightarrow> (\<forall>d. rel_option dframe (doms s d) (doms s' d)) \<and> xen_consumers s' = xen_consumers s
     \<and> global_virq_handlers s' = global_virq_handlers s"

lemma dframe_refl [simp]: "dframe E E"
  by (simp add: dframe_def)

lemma dframe_trans: "dframe A B \<Longrightarrow> dframe B C \<Longrightarrow> dframe A C"
  by (simp add: dframe_def)

lemma sframe_refl [simp]: "sframe s s"
  by (simp add: sframe_def option.rel_refl)

lemma sframe_trans:
  assumes "sframe a b" "sframe b c"
  shows "sframe a c"
proof -
  have "rel_option dframe (doms a d) (doms c d)" for d
    using assms dframe_trans unfolding sframe_def by (metis (mono_tags, lifting) option.rel_transp transpD transpI)
  then show ?thesis using assms by (simp add: sframe_def)
qed

lemma sframe_put: "doms s d = Some D \<Longrightarrow> dframe D D' \<Longrightarrow> sframe s (put_dom d D' s)"
  by (simp add: sframe_def option.rel_refl)

lemma sframeD: "sframe s s' \<Longrightarrow> doms s d = Some D \<Longrightarrow> \<exists>D'. doms s' d = Some D' \<and> dframe D D'"
  unfolding sframe_def by (metis option.rel_cases option.distinct(1) option.inject)

lemma dframe_upd_chn:
  assumes "chn D p = Some e" "xen_consumer (f e) = xen_consumer e" "chn_state e = ECS_FREE \<Longrightarrow> chn_state (f e) = ECS_FREE"
  shows "dframe D (upd_chn p f D)"
  using assms upd_chn_views(5) [OF assms(1), of f] by (auto simp: dframe_def is_free_def consumer_def fun_eq_iff)

lemma dframe_clear_virq: "dframe D (clear_virq virq p D)"
  by (simp add: dframe_def is_free_def consumer_def clear_virq_keeps fun_eq_iff)

lemma dframe_pending: "dframe D (D\<lparr>evtchn_pending := x\<rparr>)" "dframe D (D\<lparr>pirq_evtchn := y\<rparr>)"
  by (simp_all add: dframe_def is_free_def consumer_def fun_eq_iff)

lemma dframe_relinked:
  assumes "relinked D D'"
  shows "dframe D D'"
proof -
  have k: "map_option forget_link (chn D' q) = map_option forget_link (chn D q)" for q by (rule relinked_keeps(13) [OF assms])
  have "is_free X q \<longleftrightarrow> map_option chn_state (map_option forget_link (chn X q)) = Some ECS_FREE" for X q
    by (auto simp: is_free_def option.map_comp)
  then have "is_free D q \<Longrightarrow> is_free D' q" for q using k by metis
  moreover have "chn D' q = None \<longleftrightarrow> chn D q = None" for q using k [of q] by (metis map_option_is_None)
  ultimately show ?thesis using relinked_keeps [OF assms] by (simp add: dframe_def)
qed

text \<open>The end of a close: the pending bit is cleared and the channel becomes free.\<close>

definition freed :: "nat \<Rightarrow> edomain \<Rightarrow> edomain" where
  "freed p D = upd_chn p (\<lambda>e. e\<lparr>chn_state := ECS_FREE, notify_vcpu_id := 0\<rparr>) (evtchn_port_clear_pending p D)"

lemma freed_alt: "freed p D = (upd_chn p (\<lambda>e. e\<lparr>chn_state := ECS_FREE, notify_vcpu_id := 0\<rparr>) D)\<lparr>evtchn_pending := (evtchn_pending D)(p := False)\<rparr>"
  by (simp add: freed_def evtchn_port_clear_pending_def evtchn_2l_clear_pending_def upd_chn_def)

lemma freed_frame:
  assumes "chn D p = Some e"
  shows "dframe D (freed p D)" "is_free (freed p D) p" "\<not> evtchn_pending (freed p D) p" "link_port (freed p D) = (link_port D)(p := None)"
    "consumer (freed p D) = consumer D"
proof -
  let ?f = "\<lambda>e. e\<lparr>chn_state := ECS_FREE, notify_vcpu_id := 0\<rparr>"
  have "dframe D (upd_chn p ?f D)" using assms by (intro dframe_upd_chn) simp_all
  then show f: "dframe D (freed p D)" unfolding freed_alt using dframe_trans dframe_pending(1) by blast
  show "is_free (freed p D) p" "\<not> evtchn_pending (freed p D) p" using assms by (simp_all add: freed_alt is_free_def)
  have "link_port (D\<lparr>evtchn_pending := x\<rparr>) = link_port D" for D x by (simp add: link_port_def fun_eq_iff)
  then show "link_port (freed p D) = (link_port D)(p := None)" using upd_chn_views(4) [OF assms, of ?f] by (simp add: freed_alt link_of_def)
  show "consumer (freed p D) = consumer D" using f by (simp add: dframe_def)
qed

lemma do_evtchn_close_unfold:
  assumes "doms s d = Some D" "port_is_valid D p" "chn D p = Some e" "xen_consumer e = 0" "close_switch d p e s = Some (0, s1)" "doms s1 d = Some D1"
  shows "do_evtchn_close d p s = Some (0, put_dom d (freed p D1) s1)"
proof -
  have "doms (put_dom d (evtchn_port_clear_pending p D1) s1) d = Some (evtchn_port_clear_pending p D1)" by simp
  then show ?thesis using assms unfolding do_evtchn_close_def freed_def
    by (simp add: evtchn_from_port_def upd_dom_put [OF assms(6)] Let_def) (simp add: upd_dom_def put_dom_def)
qed

lemma close_plain_ok:
  assumes s: "einv s" "doms s d = Some D" and e: "chn D p = Some e" "plain_state (chn_state e)" "link_of e = None" "xen_consumer e = 0"
  shows "einv (put_dom d (freed p D) s)"
proof -
  have ok: "dom_ok D" by (rule einvD(1) [OF s])
  have "dom_ok (upd_chn p (\<lambda>e. e\<lparr>chn_state := ECS_FREE, notify_vcpu_id := 0\<rparr>) D)"
    using dom_okD(2) [OF ok] e by (intro dom_ok_plain [OF ok e(1,2)]) (auto simp: plain_state_def channel_ok_def vcpus_ok_def)
  then show ?thesis using freed_frame [OF e(1)] e by (intro einv_put [OF s]) (simp_all add: freed_alt fun_upd_idem link_port_def)
qed

definition close_links :: "esys \<Rightarrow> nat \<times> nat \<Rightarrow> nat \<times> nat \<Rightarrow> (nat \<times> nat) option" where
  "close_links s x = (case links s x of None \<Rightarrow> links s | Some y \<Rightarrow> (links s)(y := None, x := None))"

definition closes :: "nat \<Rightarrow> nat \<Rightarrow> evtchn \<Rightarrow> esys \<Rightarrow> bool" where
  "closes d p e s \<longleftrightarrow> (\<exists>s1 D1 e1. close_switch d p e s = Some (0, s1) \<and> doms s1 d = Some D1 \<and> chn D1 p = Some e1
     \<and> einv (put_dom d (freed p D1) s1) \<and> sframe s (put_dom d (freed p D1) s1) \<and> links (put_dom d (freed p D1) s1) = close_links s (d, p))"

lemma closesI:
  assumes "close_switch d p e s = Some (0, s1)" "doms s1 d = Some D1" "chn D1 p = Some e1" "einv (put_dom d (freed p D1) s1)" "sframe s s1"
    "links (put_dom d (freed p D1) s1) = close_links s (d, p)"
  shows "closes d p e s"
proof -
  have "sframe s (put_dom d (freed p D1) s1)" using sframe_trans [OF assms(5)] sframe_put [OF assms(2) freed_frame(1) [OF assms(3)]] by blast
  then show ?thesis using assms unfolding closes_def by blast
qed

lemma closes_simple:
  assumes s: "einv s" "doms s d = Some D" and e: "chn D p = Some e" "plain_state (chn_state e)" "link_of e = None" "xen_consumer e = 0"
    "close_switch d p e s = Some (0, s)"
  shows "closes d p e s"
proof (rule closesI [OF e(5) s(2) e(1) close_plain_ok [OF s e(1-4)] sframe_refl])
  have "link_port D p = None" using e by (simp add: link_port_def)
  then have "link_port (freed p D) = link_port D" using freed_frame(4) [OF e(1)] by (simp add: fun_upd_idem)
  then have "links (put_dom d (freed p D) s) = links s" by (rule links_put_same [OF s(2)])
  then show "links (put_dom d (freed p D) s) = close_links s (d, p)" using unlinked [OF s(2) e(1,3)] by (simp add: close_links_def)
qed

lemma closes_virq:
  assumes s: "einv s" "doms s d = Some D" and e: "chn D p = Some e" "chn_state e = ECS_VIRQ virq"
  shows "closes d p e s"
proof -
  let ?D1 = "clear_virq virq p D"
  have c1: "chn ?D1 p = Some e" using e by (simp add: clear_virq_keeps)
  have l: "link_port D p = None" "link_port ?D1 = link_port D" "consumer ?D1 = consumer D"
    using e by (simp_all add: link_port_def link_of_def consumer_def clear_virq_keeps fun_eq_iff)
  then have lf: "link_port (freed p ?D1) = link_port D" using freed_frame(4) [OF c1] by (simp add: fun_upd_idem)
  have ok: "dom_ok (freed p ?D1)" using close_virq_ok [OF einvD(1) [OF s] e] by (simp add: freed_alt)
  have i: "einv (put_dom d (freed p ?D1) s)" using ok lf freed_frame(5) [OF c1] l by (intro einv_put [OF s]) simp_all
  show ?thesis
  proof (rule closesI)
    show "close_switch d p e s = Some (0, put_dom d ?D1 s)" using e s by (simp add: close_switch_def upd_dom_put)
    show "sframe s (put_dom d ?D1 s)" using s(2) dframe_clear_virq by (intro sframe_put)
    have "links (put_dom d (freed p ?D1) s) = links s" by (rule links_put_same [OF s(2) lf])
    moreover have "links s (d, p) = None" using unlinked [OF s(2) e(1)] e(2) by (simp add: link_of_def)
    ultimately show "links (put_dom d (freed p ?D1) (put_dom d ?D1 s)) = close_links s (d, p)" by (simp add: close_links_def)
  qed (use i c1 in simp_all)
qed

lemma closes_pirq:
  assumes s: "einv s" "doms s d = Some D" and e: "chn D p = Some e" "chn_state e = ECS_PIRQ irq nx pv"
  shows "closes d p e s"
proof -
  let ?D0 = "D\<lparr>pirq_evtchn := (pirq_evtchn D)(irq := Some 0)\<rparr>"
  have ok: "dom_ok D" by (rule einvD(1) [OF s])
  obtain D1 where D1: "unlink_pirq_port p (notify_vcpu_id e) ?D0 = Some D1"
    "dom_ok (upd_chn p (\<lambda>e. e\<lparr>chn_state := ECS_FREE, notify_vcpu_id := 0\<rparr>) D1)" "relinked ?D0 D1"
    using close_pirq_dom_ok [OF ok e] by blast
  note K = relinked_keeps [OF D1(3)]
  obtain e1 where c1: "chn D1 p = Some e1" using K(13) [of p] e(1) by auto
  have pp: "pirq_port D p = Some (irq, notify_vcpu_id e)" using e by (simp add: pirq_port_def pirq_of_def)
  then have bound: "pirq_evtchn D irq \<noteq> None" using dom_okD(5) [OF ok] unfolding pirqs_ok_def by blast
  have l: "link_port D p = None" using e by (simp add: link_port_def link_of_def)
  then have lf: "link_port (freed p D1) = link_port D" using freed_frame(4) [OF c1] K by (simp add: fun_upd_idem)
  have i: "einv (put_dom d (freed p D1) s)" using D1(2) lf freed_frame(5) [OF c1] K by (intro einv_put [OF s]) (simp_all add: freed_alt)
  show ?thesis
  proof (rule closesI)
    show "close_switch d p e s = Some (0, put_dom d D1 s)" using e s bound D1(1) by (auto simp: close_switch_def)
    show "sframe s (put_dom d D1 s)" using dframe_trans [OF dframe_pending(2) dframe_relinked [OF D1(3)]] by (intro sframe_put [OF s(2)])
    have "links (put_dom d (freed p D1) s) = links s" by (rule links_put_same [OF s(2) lf])
    moreover have "links s (d, p) = None" using unlinked [OF s(2) e(1)] e(2) by (simp add: link_of_def)
    ultimately show "links (put_dom d (freed p D1) (put_dom d D1 s)) = close_links s (d, p)" by (simp add: close_links_def)
  qed (use i c1 in simp_all)
qed

lemma closes_interdomain:
  assumes s: "einv s" "doms s d = Some D" and e: "chn D p = Some e" "chn_state e = ECS_INTERDOMAIN d2 p2" "xen_consumer e = 0"
  shows "closes d p e s" "close_interdomain d d2 p2 s = Some (upd_dom d2 (set_state p2 (ECS_UNBOUND d)) s)"
proof -
  have l1: "links s (d, p) = Some (d2, p2)" using s(2) e by (simp add: links_def link_port_def link_of_def)
  then have l2: "links s (d2, p2) = Some (d, p)" using einvD(2) [OF s(1)] unfolding links_ok_def by blast
  obtain D2 e2 where D2: "doms s d2 = Some D2" "chn D2 p2 = Some e2" "chn_state e2 = ECS_INTERDOMAIN d p"
    using l2 by (auto simp: links_def link_port_def link_of_def bind_case split: option.splits ecs.splits)
  have v2: "port_is_valid D2 p2" using valid_iff [OF dom_okD(1) [OF einvD(1) [OF s(1) D2(1)]]] D2(2) by simp
  let ?f = "\<lambda>e. e\<lparr>chn_state := ECS_UNBOUND d\<rparr>" and ?g = "\<lambda>e. e\<lparr>chn_state := ECS_FREE, notify_vcpu_id := 0\<rparr>"
  let ?s1 = "upd_dom d2 (upd_chn p2 ?f) s"
  have ok2: "channel_ok D2 (?f e2)" using channel_okD [OF einvD(1) [OF s(1) D2(1)] D2(2)] D2(3) by (intro channel_ok_state) simp_all
  have 1: "doms_ok ?s1" "consumers_ok ?s1" "links ?s1 = (links s)((d2, p2) := None)"
    using upd_chn_plain [OF einvD(4,3) [OF s(1)] D2(1,2), of ?f] ok2 D2(3) by (simp_all add: plain_state_def link_of_def)
  obtain D1 e1 where D1: "doms ?s1 d = Some D1" "chn D1 p = Some e1" "plain_state (chn_state e1)" "xen_consumer e1 = 0" "vcpu D1 = vcpu D"
  proof (cases "d2 = d")
    case True
    then have "D2 = D" using D2(1) s(2) by simp
    then show ?thesis using that [of "upd_chn p2 ?f D" "if p2 = p then ?f e else e"] True e D2 by (cases "p2 = p") (simp_all add: upd_dom_put plain_state_def)
  next
    case False
    then show ?thesis using that [of D e] s(2) e by (simp add: upd_dom_def plain_state_def)
  qed
  have "vcpu D1 0 \<noteq> None" using dom_okD(2) [OF einvD(1) [OF s]] D1(5) by (simp add: vcpus_ok_def)
  then have "channel_ok D1 (?g e1)" using D1(4) by (simp add: channel_ok_def)
  then have 2: "doms_ok (upd_dom d (upd_chn p ?g) ?s1)" "consumers_ok (upd_dom d (upd_chn p ?g) ?s1)"
    "links (upd_dom d (upd_chn p ?g) ?s1) = (links s)((d2, p2) := None, (d, p) := None)"
    using upd_chn_plain [OF 1(1,2) D1(1,2), of ?g] D1(3,4) 1(3) by (simp_all add: plain_state_def link_of_def)
  have sw: "(links s)((d2, p2) := None, (d, p) := None) = (links s)((d, p) := None, (d2, p2) := None)" by auto
  have "links_ok (upd_dom d (upd_chn p ?g) ?s1)" by (rule links_ok_unbind [OF einvD(2) [OF s(1)] l1 2(3) [unfolded sw]])
  then have i: "einv (put_dom d (upd_chn p ?g D1) ?s1)" using 2 unfolding einv_def upd_dom_put [OF D1(1)] by blast
  let ?F = "freed p D1"
  have same: "same_shape (upd_chn p ?g D1) ?F" unfolding freed_alt by simp
  have "polls_ok ?F" using dom_okD(2) [OF einvD(1) [OF i, of d]] unfolding freed_alt by (simp add: vcpus_ok_def polls_ok_def)
  then have i': "einv (put_dom d ?F ?s1)" using einv_same_shape [OF i, of d "upd_chn p ?g D1" ?F] same by simp
  have ci: "close_interdomain d d2 p2 s = Some ?s1" using D2 v2 by (simp add: close_interdomain_def evtchn_from_port_def set_state_def)
  then show "close_interdomain d d2 p2 s = Some (upd_dom d2 (set_state p2 (ECS_UNBOUND d)) s)" by (simp add: set_state_def)
  show "closes d p e s"
  proof (rule closesI [OF _ D1(1,2) i'])
    show "close_switch d p e s = Some (0, ?s1)" using e ci by (simp add: close_switch_def)
    have "dframe D2 (upd_chn p2 ?f D2)" using D2 by (intro dframe_upd_chn) auto
    then show "sframe s ?s1" unfolding upd_dom_put [OF D2(1)] by (rule sframe_put [OF D2(1)])
    have "links (put_dom d ?F ?s1) = links (put_dom d (upd_chn p ?g D1) ?s1)"
      using links_same_shape [of "put_dom d (upd_chn p ?g D1) ?s1" d, OF _ same] by simp
    also have "\<dots> = (links s)((d2, p2) := None, (d, p) := None)" using 2(3) unfolding upd_dom_put [OF D1(1)] .
    finally show "links (put_dom d ?F ?s1) = close_links s (d, p)" using l1 by (simp add: close_links_def)
  qed
qed

lemma do_evtchn_close_ok:
  assumes s: "einv s" "doms s d = Some D"
  shows "\<exists>rc s'. do_evtchn_close d p s = Some (rc, s') \<and> einv s' \<and> sframe s s'
    \<and> (if rc = 0 then (\<exists>D'. doms s' d = Some D' \<and> is_free D' p \<and> \<not> evtchn_pending D' p) \<and> links s' = close_links s (d, p)
       else rc = - EINVAL \<and> s' = s \<and> (chn D p = None \<or> consumer D p \<noteq> 0 \<or> is_free D p \<or> p = 0))"
proof (cases "chn D p")
  case None
  then show ?thesis using s by (simp add: do_evtchn_close_def port_is_valid_def)
next
  case (Some e)
  have po: "ports_ok D" by (rule dom_okD(1) [OF einvD(1) [OF s]])
  have v: "port_is_valid D p" using valid_iff [OF po] Some by simp
  show ?thesis
  proof (cases "xen_consumer e = 0 \<and> chn_state e \<noteq> ECS_FREE \<and> chn_state e \<noteq> ECS_RESERVED")
    case False
    then have "do_evtchn_close d p s = Some (- EINVAL, s)"
      using s Some v by (auto simp: do_evtchn_close_def evtchn_from_port_def close_switch_def)
    moreover have "chn_state e = ECS_RESERVED \<longleftrightarrow> p = 0" by (rule reserved_iff [OF po Some])
    ultimately show ?thesis using False s Some by (auto simp: consumer_def is_free_def)
  next
    case True
    have "closes d p e s"
    proof (cases "chn_state e")
      case (ECS_UNBOUND x)
      then show ?thesis using True s by (intro closes_simple [OF s Some]) (simp_all add: plain_state_def link_of_def close_switch_def)
    next
      case ECS_IPI
      then show ?thesis using True s by (intro closes_simple [OF s Some]) (simp_all add: plain_state_def link_of_def close_switch_def)
    qed (use True closes_interdomain(1) [OF s Some] closes_virq [OF s Some] closes_pirq [OF s Some] in auto)
    then obtain s1 D1 e1 where C: "close_switch d p e s = Some (0, s1)" "doms s1 d = Some D1" "chn D1 p = Some e1"
      "einv (put_dom d (freed p D1) s1)" "sframe s (put_dom d (freed p D1) s1)" "links (put_dom d (freed p D1) s1) = close_links s (d, p)"
      unfolding closes_def by blast
    then show ?thesis using do_evtchn_close_unfold [OF s(2) v Some _ C(1,2)] True freed_frame [OF C(3)] by simp
  qed
qed

section \<open>Sending\<close>

text \<open>What is assumed of Xen's own notification functions: they return and keep the event channels well formed.\<close>

definition notifiers_ok :: "notifiers \<Rightarrow> bool" where
  "notifiers_ok ntf \<longleftrightarrow> (\<forall>fn d v p s. einv s \<longrightarrow> (\<exists>D. doms s d = Some D \<and> vcpu D v \<noteq> None) \<longrightarrow> (\<exists>s'. ntf fn d v p s = Some s' \<and> einv s'))"

lemma einv_upd_vcpu:
  assumes s: "einv s" "doms s d = Some D" and f: "\<And>r. virq_to_evtchn (f r) = virq_to_evtchn r \<and> pirq_evtchn_head (f r) = pirq_evtchn_head r"
  shows "einv (put_dom d (upd_vcpu v f D) s)"
proof (rule einv_put [OF s])
  have "virq_tab (upd_vcpu v f D) = virq_tab D" by (rule ext) (simp add: virq_tab_def option.map_comp comp_def f)
  then have "virqs_ok (upd_vcpu v f D) = virqs_ok D" by (intro virqs_ok_cong) (simp_all add: upd_vcpu_keeps)
  moreover have "pirqs_ok (upd_vcpu v f D) = pirqs_ok D" using upd_vcpu_views f by (intro pirqs_ok_cong) (simp_all add: upd_vcpu_keeps)
  ultimately show "dom_ok (upd_vcpu v f D)" using einvD(1) [OF s] by (simp add: dom_ok_def upd_vcpu_keeps)
qed (simp_all add: upd_vcpu_keeps)

lemma xen_notify_ok:
  assumes s: "einv s" "doms s d = Some D" and n: "notifiers_ok ntf" and v: "vcpu D v \<noteq> None" and c: "xen_consumers s (c - 1) \<noteq> None"
  shows "\<exists>s'. xen_notify ntf c d v p s = Some s' \<and> einv s'"
proof -
  obtain fn where fn: "xen_consumers s (c - 1) = Some fn" using c by blast
  have "\<exists>s'. default_xen_notification_fn d v s = Some s' \<and> einv s'"
    using s v einv_upd_vcpu [OF s, of "\<lambda>r. r\<lparr>vpf_blocked_in_xen := False\<rparr>" v] by (auto simp: default_xen_notification_fn_def)
  moreover have "\<exists>s'. ntf fn d v p s = Some s' \<and> einv s'" using n s v unfolding notifiers_ok_def by blast
  ultimately show ?thesis using fn by (simp add: xen_notify_def)
qed

lemma notify_vcpu: "einv s \<Longrightarrow> doms s d = Some D \<Longrightarrow> chn D p = Some e \<Longrightarrow> vcpu D (notify_vcpu_id e) \<noteq> None"
  using channel_okD einvD(1) unfolding channel_ok_def by blast

lemma linked_to:
  assumes "einv s" "doms s d = Some D" "chn D p = Some e" "chn_state e = ECS_INTERDOMAIN d2 p2"
  obtains D2 e2 where "doms s d2 = Some D2" "chn D2 p2 = Some e2" "chn_state e2 = ECS_INTERDOMAIN d p"
proof -
  have "links s (d, p) = Some (d2, p2)" using assms(2-4) by (simp add: links_def link_port_def link_of_def)
  then have "links s (d2, p2) = Some (d, p)" using einvD(2) [OF assms(1)] unfolding links_ok_def by blast
  then show ?thesis using that by (auto simp: links_def link_port_def link_of_def bind_case split: option.splits ecs.splits)
qed

lemma einv_set_pending: "einv s \<Longrightarrow> doms s d = Some D \<Longrightarrow> chn D p = Some e \<Longrightarrow> vcpu D v \<noteq> None \<Longrightarrow> \<exists>s'. evtchn_set_pending d v p s = Some s' \<and> einv s'"
  using evtchn_set_pending_ok by blast

lemma evtchn_send_ok:
  assumes s: "einv s" "doms s ld = Some D" and n: "notifiers_ok ntf"
  shows "\<exists>r s'. evtchn_send ntf E ld lport s = Some (r, s') \<and> einv s'"
proof (cases "port_is_valid D lport")
  case False
  then show ?thesis using s by (simp add: evtchn_send_def)
next
  case True
  then obtain e where e: "chn D lport = Some e" by (auto simp: port_is_valid_def)
  show ?thesis
  proof (cases "xen_consumer e \<noteq> 0 \<or> xsm E \<noteq> 0")
    case True
    then show ?thesis using s e \<open>port_is_valid D lport\<close> by (auto simp: evtchn_send_def evtchn_from_port_def)
  next
    case ok: False
    show ?thesis
    proof (cases "chn_state e")
      case (ECS_INTERDOMAIN rd rport)
      obtain RD re where R: "doms s rd = Some RD" "chn RD rport = Some re" using linked_to [OF s e ECS_INTERDOMAIN] by blast
      have v: "vcpu RD (notify_vcpu_id re) \<noteq> None" by (rule notify_vcpu [OF s(1) R])
      have "\<exists>s'. (if xen_consumer re \<noteq> 0 then xen_notify ntf (xen_consumer re) rd (notify_vcpu_id re) rport s
                 else evtchn_set_pending rd (notify_vcpu_id re) rport s) = Some s' \<and> einv s'"
      proof (cases "xen_consumer re = 0")
        case False
        moreover have "consumer RD rport = xen_consumer re" using R(2) by (simp add: consumer_def)
        ultimately have "xen_consumers s (xen_consumer re - 1) \<noteq> None" using einvD(3) [OF s(1)] R(1) unfolding consumers_ok_def by metis
        then show ?thesis using xen_notify_ok [OF s(1) R(1) n v] False by simp
      qed (use einv_set_pending [OF s(1) R v] in simp)
      then show ?thesis using s e True ok R ECS_INTERDOMAIN by (auto simp: evtchn_send_def evtchn_from_port_def split: if_splits)
    next
      case ECS_IPI
      then show ?thesis using s e True ok einv_set_pending [OF s e notify_vcpu [OF s e]] by (auto simp: evtchn_send_def evtchn_from_port_def)
    qed (use s e True ok in \<open>simp_all add: evtchn_send_def evtchn_from_port_def\<close>)
  qed
qed

lemma virq_chn:
  assumes "dom_ok D" "vcpu D v = Some r" "virq_to_evtchn r virq \<noteq> 0"
  obtains e where "chn D (virq_to_evtchn r virq) = Some e" "chn_state e = ECS_VIRQ virq" "virq_is_global virq \<Longrightarrow> v = 0" "\<not> virq_is_global virq \<Longrightarrow> notify_vcpu_id e = v"
proof -
  obtain n where n: "virq_port D (virq_to_evtchn r virq) = Some (virq, n)" "if virq_is_global virq then v = 0 else n = v"
    using dom_okD(4) [OF assms(1)] assms(2,3) unfolding virqs_ok_def by blast
  then show ?thesis using that by (auto simp: virq_port_def virq_of_def bind_case split: option.splits ecs.splits if_splits)
qed

lemma pirq_chn:
  assumes "dom_ok D" "pirq_to_evtchn D irq \<noteq> 0"
  obtains e nx pv where "chn D (pirq_to_evtchn D irq) = Some e" "chn_state e = ECS_PIRQ irq nx pv"
proof -
  obtain p where p: "pirq_evtchn D irq = Some p" "p \<noteq> 0" "pirq_to_evtchn D irq = p" using assms(2) by (auto simp: pirq_to_evtchn_def split: option.splits)
  then obtain n where "pirq_port D p = Some (irq, n)" using dom_okD(5) [OF assms(1)] unfolding pirqs_ok_def by blast
  then show ?thesis using that p(3) by (auto simp: pirq_port_def pirq_of_def bind_case split: option.splits ecs.splits)
qed

lemma send_guest_vcpu_virq_ok:
  assumes s: "einv s" "doms s d = Some D" and v: "vcpu D v = Some r" and virq: "virq < NR_VIRQS" "\<not> virq_is_global virq"
  shows "\<exists>s'. send_guest_vcpu_virq d v virq s = Some s' \<and> einv s'"
proof (cases "virq_to_evtchn r virq = 0")
  case True
  then show ?thesis using s v virq by (simp add: send_guest_vcpu_virq_def)
next
  case False
  obtain e where "chn D (virq_to_evtchn r virq) = Some e" using virq_chn [OF einvD(1) [OF s] v False] by blast
  then show ?thesis using s v virq False einv_set_pending [OF s, of "virq_to_evtchn r virq" e v] by (simp add: send_guest_vcpu_virq_def)
qed

lemma send_guest_global_virq_ok:
  assumes s: "einv s" and d: "\<And>d. dp = Some d \<Longrightarrow> doms s d \<noteq> None" and virq: "virq < NR_VIRQS" "virq_is_global virq"
  shows "\<exists>s'. send_guest_global_virq dp virq s = Some s' \<and> einv s'"
proof (cases dp)
  case None
  then show ?thesis using s virq by (simp add: send_guest_global_virq_def)
next
  case (Some d)
  then obtain D where D: "doms s d = Some D" using assms(2) by blast
  show ?thesis
  proof (cases "vcpu D 0")
    case None
    then show ?thesis using s virq Some D by (simp add: send_guest_global_virq_def)
  next
    case v: (Some r)
    show ?thesis
    proof (cases "virq_to_evtchn r virq = 0")
      case True
      then show ?thesis using s virq Some D v by (simp add: send_guest_global_virq_def)
    next
      case False
      obtain e where "chn D (virq_to_evtchn r virq) = Some e" using virq_chn [OF einvD(1) [OF s D] v False] by blast
      then show ?thesis using s D v virq Some False einv_set_pending [OF s D] notify_vcpu [OF s D]
        by (simp add: send_guest_global_virq_def evtchn_from_port_def)
    qed
  qed
qed

lemma send_guest_pirq_ok:
  assumes s: "einv s" "doms s d = Some D" and p: "pirq_to_evtchn D pirq \<noteq> 0 \<or> is_hvm_domain D"
  shows "\<exists>s'. send_guest_pirq d pirq s = Some s' \<and> einv s'"
proof (cases "pirq_to_evtchn D pirq = 0")
  case True
  then show ?thesis using s p by (simp add: send_guest_pirq_def)
next
  case False
  obtain e where "chn D (pirq_to_evtchn D pirq) = Some e" using pirq_chn [OF einvD(1) [OF s] False] by blast
  then show ?thesis using s False einv_set_pending [OF s] notify_vcpu [OF s] by (simp add: send_guest_pirq_def evtchn_from_port_def)
qed

section \<open>Binding to virtual CPUs\<close>

lemma virq_notify_ok:
  fixes D :: edomain
  assumes ok: "dom_ok D" and e: "chn D p = Some e" "chn_state e = ECS_VIRQ virq" "virq_is_global virq" and v: "vcpu D vid \<noteq> None"
  shows "dom_ok (upd_chn p (\<lambda>e. e\<lparr>notify_vcpu_id := vid\<rparr>) D)" (is "dom_ok (upd_chn p ?g D)")
proof -
  note V = upd_chn_views [OF e(1), of ?g]
  have vp: "virq_port D p = Some (virq, notify_vcpu_id e)" "pirq_port D p = None" "pirq_links D p = None"
    using e by (simp_all add: virq_port_def pirq_port_def pirq_links_def virq_of_def pirq_of_def plinks_of_def)
  have 1: "virq_port (upd_chn p ?g D) = (virq_port D)(p := Some (virq, vid))" using V e by (simp add: virq_of_def)
  note W = dom_okD(4) [OF ok, unfolded virqs_ok_iff]
  have "virqs_ok (upd_chn p ?g D)" unfolding virqs_ok_iff 1
  proof (intro conjI allI impI)
    fix q virq' n assume "((virq_port D)(p := Some (virq, vid))) q = Some (virq', n)"
    then have "\<exists>n. virq_port D q = Some (virq', n)" using vp(1) by (auto split: if_splits)
    then show "\<exists>v t. virq_tab (upd_chn p ?g D) v = Some t \<and> t virq' = q" using W unfolding upd_chn_simps by blast
  next
    fix w t virq' assume a: "virq_tab (upd_chn p ?g D) w = Some t" "t virq' \<noteq> 0"
    then have x: "\<exists>n. virq_port D (t virq') = Some (virq', n) \<and> (if virq_is_global virq' then w = 0 else n = w)" using W unfolding upd_chn_simps by blast
    show "\<exists>n. ((virq_port D)(p := Some (virq, vid))) (t virq') = Some (virq', n) \<and> (if virq_is_global virq' then w = 0 else n = w)"
    proof (cases "t virq' = p")
      case True
      then show ?thesis using x vp(1) e(3) by auto
    qed (use x in simp)
  qed
  moreover have "pirqs_ok (upd_chn p ?g D) = pirqs_ok D" using V vp e by (intro pirqs_ok_cong) (simp_all add: pirq_of_def plinks_of_def fun_upd_idem)
  moreover have "ports_ok (upd_chn p ?g D)" using dom_okD(1) [OF ok] e(1) by (rule ports_ok_upd) simp
  moreover have "channel_ok D (?g e)" using channel_okD [OF ok e(1)] e(2) v by (simp add: channel_ok_def)
  then have "channels_ok (upd_chn p ?g D)" using channels_ok_upd [OF dom_okD(3) [OF ok] e(1), of ?g] by simp
  moreover have "vcpus_ok (upd_chn p ?g D)" using dom_okD(2) [OF ok] by (simp add: vcpus_ok_def)
  ultimately show ?thesis using dom_okD(5) [OF ok] by (simp add: dom_ok_def)
qed

lemma evtchn_bind_vcpu_ok:
  assumes s: "einv s" "doms s cur = Some D"
  shows "\<exists>r s'. evtchn_bind_vcpu cur port vid s = Some (r, s') \<and> einv s'"
proof (cases "(vid \<ge> max_vcpus D \<or> vcpu D vid = None) \<or> \<not> port_is_valid D port")
  case True
  then show ?thesis using s by (auto simp: evtchn_bind_vcpu_def)
next
  case ok: False
  then obtain e where e: "chn D port = Some e" by (auto simp: port_is_valid_def)
  have v: "vcpu D vid \<noteq> None" using ok by blast
  let ?g = "\<lambda>e. e\<lparr>notify_vcpu_id := vid\<rparr>"
  have ch: "channel_ok D e" by (rule channel_okD [OF einvD(1) [OF s] e])
  have plain: "einv (put_dom cur (upd_chn port ?g D) s)" if "plain_state (chn_state e)" "chn_state e \<noteq> ECS_FREE"
    using that ch v by (intro einv_plain [OF s e]) (auto simp: channel_ok_def link_of_def)
  have virq: "einv (put_dom cur (upd_chn port ?g D) s)" if "chn_state e = ECS_VIRQ virq" "virq_is_global virq" for virq
  proof (rule einv_put [OF s virq_notify_ok [OF einvD(1) [OF s] e that v]])
    show "link_port (upd_chn port ?g D) = link_port D" "\<And>q. consumer (upd_chn port ?g D) q = consumer D q \<or> consumer (upd_chn port ?g D) q = 0"
      using upd_chn_views [OF e, of ?g] e by (auto simp: link_of_def link_port_def consumer_def fun_eq_iff)
  qed
  have pirq: "\<exists>D'. rebind_pirq port (notify_vcpu_id e) vid D = Some D' \<and> einv (put_dom cur D' s)"
    if "chn_state e = ECS_PIRQ irq nx pv" "notify_vcpu_id e \<noteq> vid" for irq nx pv
    using rebind_pirq_dom_ok [OF einvD(1) [OF s] e that(1) v] that(2) einv_put [OF s] by metis
  show ?thesis
  proof (cases "xen_consumer e = 0")
    case False
    then show ?thesis using s ok e by (auto simp: evtchn_bind_vcpu_def evtchn_from_port_def)
  next
    case True
    show ?thesis
    proof (cases "chn_state e")
      case (ECS_PIRQ irq nx pv)
      then show ?thesis using s ok e True pirq [OF ECS_PIRQ] by (cases "notify_vcpu_id e = vid") (auto simp: evtchn_bind_vcpu_def evtchn_from_port_def)
    qed (use s ok e True plain virq in \<open>auto simp: evtchn_bind_vcpu_def evtchn_from_port_def plain_state_def Let_def\<close>)
  qed
qed

section \<open>Closing every port\<close>

definition closed_port :: "bool \<Rightarrow> edomain \<Rightarrow> nat \<Rightarrow> bool" where
  "closed_port force D q \<longleftrightarrow> chn D q = None \<or> is_free D q \<or> q = 0 \<or> (\<not> force \<and> consumer D q \<noteq> 0)"

lemma detach_ok:
  fixes D :: edomain
  assumes s: "einv s" "doms s d = Some D" and e: "chn D i = Some e"
  shows "einv (put_dom d (upd_chn i (\<lambda>e. e\<lparr>xen_consumer := 0\<rparr>) D) s)"
proof (cases "xen_consumer e = 0")
  case True
  then have "upd_chn i (\<lambda>e. e\<lparr>xen_consumer := 0\<rparr>) D = D" using e by (simp add: upd_chn_def fun_upd_idem)
  then show ?thesis using s by (simp add: put_same)
next
  case False
  have "channel_ok D e" by (rule channel_okD [OF einvD(1) [OF s] e])
  then show ?thesis using False by (intro einv_plain [OF s e]) (auto simp: channel_ok_def plain_state_def link_of_def)
qed

definition detached :: "bool \<Rightarrow> nat \<Rightarrow> nat \<Rightarrow> esys \<Rightarrow> esys" where
  "detached force d i s = (if force then upd_dom d (upd_chn i (\<lambda>e. e\<lparr>xen_consumer := 0\<rparr>)) s else s)"

lemma close_ports_unfold:
  "close_ports force d i s =
     do { D \<leftarrow> doms s d; if \<not> port_is_valid D i then Some s else do { (_, s) \<leftarrow> do_evtchn_close d i (detached force d i s); close_ports force d (Suc i) s } }"
  by (subst close_ports.simps) (simp only: detached_def Let_def)

lemma close_one:
  assumes s: "einv s" "doms s d = Some D" and e: "chn D i = Some e"
  shows "\<exists>rc s' D'. do_evtchn_close d i (detached force d i s) = Some (rc, s') \<and> einv s' \<and> doms s' d = Some D'
    \<and> (\<forall>q. chn D' q = None \<longleftrightarrow> chn D q = None) \<and> is_dying D' = is_dying D \<and> max_evtchns D' = max_evtchns D
    \<and> closed_port force D' i \<and> (\<forall>q. closed_port force D q \<longrightarrow> closed_port force D' q)
    \<and> global_virq_handlers s' = global_virq_handlers s \<and> (\<forall>d'. doms s' d' = None \<longleftrightarrow> doms s d' = None)"
proof -
  define D0 where "D0 = (if force then upd_chn i (\<lambda>e. e\<lparr>xen_consumer := 0\<rparr>) D else D)"
  have s0: "detached force d i s = put_dom d D0 s" using s(2) by (simp add: detached_def upd_dom_put put_same D0_def)
  have i0: "einv (put_dom d D0 s)" using detach_ok [OF s e] s by (simp add: put_same D0_def)
  have d0: "doms (put_dom d D0 s) d = Some D0" by simp
  have c0: "\<And>q. closed_port force D q \<Longrightarrow> closed_port force D0 q" "\<And>q. chn D0 q = None \<longleftrightarrow> chn D q = None"
    "is_dying D0 = is_dying D" "max_evtchns D0 = max_evtchns D" "force \<Longrightarrow> consumer D0 i = 0"
    using e by (auto simp: closed_port_def is_free_def consumer_def D0_def)
  obtain rc s' where C: "do_evtchn_close d i (put_dom d D0 s) = Some (rc, s')" "einv s'" "sframe (put_dom d D0 s) s'"
    "if rc = 0 then (\<exists>D'. doms s' d = Some D' \<and> is_free D' i \<and> \<not> evtchn_pending D' i) \<and> links s' = close_links (put_dom d D0 s) (d, i)
     else rc = - EINVAL \<and> s' = put_dom d D0 s \<and> (chn D0 i = None \<or> consumer D0 i \<noteq> 0 \<or> is_free D0 i \<or> i = 0)"
    using do_evtchn_close_ok [OF i0 d0, of i] by blast
  obtain D' where D': "doms s' d = Some D'" "dframe D0 D'" using sframeD [OF C(3) d0] by blast
  have mono: "closed_port force D0 q \<Longrightarrow> closed_port force D' q" for q using D'(2) by (auto simp: closed_port_def dframe_def)
  have "closed_port force D' i"
  proof (cases "rc = 0")
    case True
    then show ?thesis using C(4) D'(1) by (simp add: closed_port_def)
  next
    case False
    then have "closed_port force D0 i" using C(4) c0(5) by (auto simp: closed_port_def)
    then show ?thesis by (rule mono)
  qed
  moreover have "doms s' d' = None \<longleftrightarrow> doms s d' = None" for d'
    using C(3) s(2) unfolding sframe_def by (metis fun_upd_apply option.rel_distinct(1,2) option.rel_sel put_dom_simps(1))
  moreover have "global_virq_handlers s' = global_virq_handlers s" using C(3) by (simp add: sframe_def)
  ultimately show ?thesis using C(1,2) D' c0 mono unfolding s0 dframe_def by auto
qed

lemma close_ports_ok:
  assumes "einv s" "doms s d = Some D" "\<And>q. q < i \<Longrightarrow> closed_port force D q"
  shows "\<exists>s' D'. close_ports force d i s = Some s' \<and> einv s' \<and> doms s' d = Some D' \<and> (\<forall>q. closed_port force D' q)
    \<and> (\<forall>q. chn D' q = None \<longleftrightarrow> chn D q = None) \<and> is_dying D' = is_dying D \<and> global_virq_handlers s' = global_virq_handlers s
    \<and> (\<forall>d'. doms s' d' = None \<longleftrightarrow> doms s d' = None)"
  using assms
proof (induction "max_evtchns D - i" arbitrary: i s D rule: less_induct)
  case less
  have po: "ports_ok D" by (rule dom_okD(1) [OF einvD(1) [OF less.prems(1,2)]])
  show ?case
  proof (cases "chn D i")
    case None
    then have "chn D q = None" if "q \<ge> i" for q
      using po that unfolding ports_ok_def by (metis order_le_less_trans)
    then have "closed_port force D q" for q using less.prems(3) [of q] by (cases "q < i") (auto simp: closed_port_def)
    moreover have "close_ports force d i s = Some s"
      using None less.prems(2) by (simp add: close_ports_unfold [of force d i s] port_is_valid_def)
    ultimately show ?thesis using less.prems by blast
  next
    case (Some e)
    obtain rc s1 D1 where C: "do_evtchn_close d i (detached force d i s) = Some (rc, s1)" "einv s1" "doms s1 d = Some D1"
      "\<And>q. chn D1 q = None \<longleftrightarrow> chn D q = None" "is_dying D1 = is_dying D" "max_evtchns D1 = max_evtchns D"
      "closed_port force D1 i" "\<And>q. closed_port force D q \<Longrightarrow> closed_port force D1 q"
      "global_virq_handlers s1 = global_virq_handlers s" "\<And>d'. doms s1 d' = None \<longleftrightarrow> doms s d' = None"
      using close_one [OF less.prems(1,2) Some, of force] by blast
    have v: "port_is_valid D i" using valid_iff [OF po] Some by simp
    have "max_evtchns D1 - Suc i < max_evtchns D - i" using v C(6) by (auto simp: port_is_valid_def)
    moreover have "closed_port force D1 q" if "q < Suc i" for q using that C(7,8) less.prems(3) by (metis less_antisym)
    ultimately obtain s' D' where R: "close_ports force d (Suc i) s1 = Some s'" "einv s'" "doms s' d = Some D'" "\<forall>q. closed_port force D' q"
      "\<forall>q. chn D' q = None \<longleftrightarrow> chn D1 q = None" "is_dying D' = is_dying D1" "global_virq_handlers s' = global_virq_handlers s1"
      "\<forall>d'. doms s' d' = None \<longleftrightarrow> doms s1 d' = None"
      using less.hyps [OF _ C(2,3), of "Suc i"] by blast
    have "close_ports force d i s = Some s'"
      using v less.prems(2) C(1) R(1) by (simp add: close_ports_unfold [of force d i s])
    then show ?thesis using R C by simp
  qed
qed

lemma evtchn_reset_ok:
  assumes s: "einv s" "doms s cur \<noteq> None"
  shows "\<exists>r s'. evtchn_reset E cur domid s = Some (r, s') \<and> einv s'"
proof (cases "rcu_lock_domain_by_any_id cur domid s")
  case None
  then show ?thesis using s by (simp add: evtchn_reset_def)
next
  case (Some d)
  then obtain D where D: "doms s d = Some D" using by_any_id [OF s(2)] by blast
  obtain s' where "close_ports False d 0 s = Some s'" "einv s'" using close_ports_ok [OF s(1) D, of 0 False] by blast
  then show ?thesis using Some s by (simp add: evtchn_reset_def)
qed

text \<open>A dying domain whose ports are all closed loses its channels.\<close>

lemma drop_channels_ok:
  fixes D :: edomain
  assumes s: "einv s" "doms s d = Some D" and c: "\<And>q. closed_port True D q" and dy: "is_dying D"
  shows "einv (put_dom d (D\<lparr>chn := (\<lambda>_. None)\<rparr>) s)"
proof -
  let ?D = "D\<lparr>chn := (\<lambda>_. None)\<rparr>"
  have ok: "dom_ok D" by (rule einvD(1) [OF s])
  have st: "chn_state e = ECS_FREE \<or> chn_state e = ECS_RESERVED" if "chn D q = Some e" for q e
    using c [of q] that reserved_iff [OF dom_okD(1) [OF ok] that] by (auto simp: closed_port_def is_free_def)
  have none: "virq_port D q = None" "pirq_port D q = None" "link_port D q = None" for q
    using st [of q] by (cases "chn D q"; auto simp: virq_port_def virq_of_def pirq_port_def pirq_of_def link_port_def link_of_def)+
  have none': "virq_port ?D = (\<lambda>_. None)" "pirq_port ?D = (\<lambda>_. None)" "link_port ?D = (\<lambda>_. None)"
    "consumer ?D = (\<lambda>_. 0)" "virq_tab ?D = virq_tab D" "pirq_heads ?D = pirq_heads D"
    by (simp_all add: virq_port_def pirq_port_def link_port_def consumer_def virq_tab_def pirq_heads_def fun_eq_iff)
  have "ports_ok ?D" using dom_okD(1) [OF ok] dy by (auto simp: ports_ok_def intro: exI [of _ 0])
  moreover have "vcpus_ok ?D" using dom_okD(2) [OF ok] by (simp add: vcpus_ok_def polls_ok_def)
  moreover have "channels_ok ?D" by (simp add: channels_ok_def)
  moreover have "t virq = 0" if "virq_tab D v = Some t" for v t virq
    using dom_okD(4) [OF ok] that none(1) unfolding virqs_ok_iff by (metis option.distinct(1))
  then have "virqs_ok ?D" unfolding virqs_ok_iff none' by simp
  moreover have "p = 0" if "pirq_evtchn D irq = Some p" for irq p
    using dom_okD(5) [OF ok] that none(2) unfolding pirqs_ok_def by (metis option.distinct(1))
  moreover have "lists_ok (\<lambda>_. None) (pirq_links ?D) (pirq_heads D)" unfolding lists_ok_def
  proof (intro allI impI)
    fix v h assume "pirq_heads D v = Some h"
    then obtain ps where "linked (pirq_links D) h ps" "ps = []"
      using dom_okD(5) [OF ok] none(2) unfolding pirqs_ok_iff lists_ok_def by (metis list.set_intros(1) neq_Nil_conv option.distinct(1))
    then show "\<exists>ps. linked (pirq_links ?D) h ps \<and> (\<forall>p. p \<in> set ps \<longleftrightarrow> (\<exists>irq. None = Some (irq, v)))" by (intro exI [of _ "[]"]) (simp add: linked_def)
  qed
  ultimately have "dom_ok ?D" unfolding dom_ok_def pirqs_ok_iff none' by auto
  then show ?thesis using none none' by (intro einv_put [OF s]) (auto simp: fun_eq_iff)
qed

lemma clear_handlers_einv: "einv (clear_global_virq_handlers d s) = einv s"
  by (simp add: clear_global_virq_handlers_def einv_def doms_ok_def links_ok_def links_def consumers_ok_def)

lemma evtchn_destroy_ok:
  assumes s: "einv s" "doms s d = Some D" and dy: "is_dying D"
  shows "\<exists>s'. evtchn_destroy d s = Some s' \<and> einv s' \<and> (\<exists>D'. doms s' d = Some D' \<and> chn D' = (\<lambda>_. None))
    \<and> (\<forall>virq<NR_VIRQS. global_virq_handlers s' virq \<noteq> Some d)"
proof -
  obtain s1 D1 where C: "close_ports True d 0 s = Some s1" "einv s1" "doms s1 d = Some D1" "\<forall>q. closed_port True D1 q" "is_dying D1 = is_dying D"
    using close_ports_ok [OF s, of 0 True] by blast
  have "einv (put_dom d (D1\<lparr>chn := (\<lambda>_. None)\<rparr>) s1)" using C dy by (intro drop_channels_ok) auto
  then show ?thesis using s(2) dy C(1) clear_handlers_einv
    by (simp add: evtchn_destroy_def upd_dom_put [OF C(3)]) (simp add: clear_global_virq_handlers_def)
qed

section \<open>Channels of Xen\<close>

lemma find_consumer_grows:
  assumes "find_consumer fn is tab = Some (i, tab')"
  shows "i \<noteq> 0 \<and> tab' (i - 1) \<noteq> None \<and> (\<forall>j. tab j \<noteq> None \<longrightarrow> tab' j \<noteq> None)"
  using assms
proof (induction "is" arbitrary: tab)
  case (Cons a "is")
  let ?tab = "if tab a = None then tab(a := Some fn) else tab"
  show ?case
  proof (cases "?tab a = Some fn")
    case True
    then have "i = a + 1" "tab' = ?tab" using Cons.prems by (auto simp: Let_def)
    then show ?thesis using True by auto
  next
    case False
    then have "find_consumer fn is ?tab = Some (i, tab')" using Cons.prems by (simp add: Let_def)
    then show ?thesis using Cons.IH by fastforce
  qed
qed simp

lemma alloc_xen_ok:
  assumes s: "einv s" "doms s d = Some D" and v: "vcpu D vid \<noteq> None" and c: "get_xen_consumer fn s \<noteq> None"
  shows "\<exists>r s'. alloc_unbound_xen_event_channel E d vid remote fn s = Some (r, s') \<and> einv s'"
proof -
  have ok: "dom_ok D" by (rule einvD(1) [OF s])
  obtain r D' where g: "get_free_port E D = (r, D')" by fastforce
  obtain i tab where t: "get_xen_consumer fn s = Some (i, s\<lparr>xen_consumers := tab\<rparr>)" "i \<noteq> 0" "tab (i - 1) \<noteq> None" "\<And>j. xen_consumers s j \<noteq> None \<Longrightarrow> tab j \<noteq> None"
    using c find_consumer_grows unfolding get_xen_consumer_def by fastforce
  show ?thesis
  proof (cases r)
    case (Inl rc)
    then have "D' = D" using get_free_port_err [OF ok] g by blast
    then show ?thesis using s g Inl by (simp add: alloc_unbound_xen_event_channel_def put_same)
  next
    case (Inr p)
    have G: "dom_ok D'" "grown D D'" "chn D' p = Some free_chn" using get_free_port_ok [OF ok g] Inr by auto
    have g1: "einv (put_dom d D' s)" by (rule einv_grown [OF s G(2,1)])
    let ?f = "\<lambda>e. e\<lparr>chn_state := ECS_UNBOUND remote, xen_consumer := i, notify_vcpu_id := vid\<rparr>" and ?s1 = "s\<lparr>xen_consumers := tab\<rparr>"
    let ?D = "upd_chn p ?f D'"
    have dok: "dom_ok ?D" using v grown_fields(1) [OF G(2)]
      by (intro dom_ok_plain [OF G(1,3)]) (simp_all add: plain_state_def channel_ok_def)
    have "links (put_dom d ?D ?s1) = links (put_dom d ?D s)" by (simp add: links_def fun_eq_iff)
    also have "\<dots> = links s"
      using upd_chn_views(4) [OF G(3), of ?f] grown_views(4) [OF G(2)] link_port_None(1) [OF G(3)]
      by (intro links_put_same [OF s(2)]) (simp add: link_of_def fun_upd_idem)
    finally have l: "links (put_dom d ?D ?s1) = links s" .
    have "links_ok (put_dom d ?D ?s1)" using einvD(2) [OF s(1)] unfolding links_ok_def l .
    moreover have "doms_ok (put_dom d ?D ?s1)" using einvD(4) [OF s(1)] dok by (simp add: doms_ok_def)
    moreover have "consumers_ok (put_dom d ?D ?s1)" unfolding consumers_ok_def
    proof (intro allI impI)
      fix d' E q assume a: "doms (put_dom d ?D ?s1) d' = Some E" "consumer E q \<noteq> 0"
      show "xen_consumers (put_dom d ?D ?s1) (consumer E q - 1) \<noteq> None"
      proof (cases "d' = d \<and> q = p")
        case True
        then show ?thesis using a t(3) upd_chn_views(5) [OF G(3), of ?f] by auto
      next
        case False
        then have "\<exists>E'. doms (put_dom d D' s) d' = Some E' \<and> consumer E' q = consumer E q" using a upd_chn_views(5) [OF G(3), of ?f] by (auto split: if_splits)
        then have "xen_consumers s (consumer E q - 1) \<noteq> None" using einvD(3) [OF g1] a(2) unfolding consumers_ok_def by (metis put_dom_simps(2))
        then show ?thesis using t(4) by simp
      qed
    qed
    ultimately have "einv (put_dom d ?D ?s1)" by (simp add: einv_def)
    then show ?thesis using s g Inr g1 t(1) by (simp add: alloc_unbound_xen_event_channel_def)
  qed
qed

lemma free_xen_ok:
  assumes s: "einv s" "doms s d = Some D" and p: "is_dying D \<or> consumer D p \<noteq> 0"
  shows "\<exists>s'. free_xen_event_channel d p s = Some s' \<and> einv s'"
proof (cases "is_dying D")
  case True
  then show ?thesis using s by (simp add: free_xen_event_channel_def)
next
  case False
  then obtain e where e: "chn D p = Some e" "xen_consumer e \<noteq> 0" using p by (auto simp: consumer_def split: option.splits)
  have v: "port_is_valid D p" using valid_iff [OF dom_okD(1) [OF einvD(1) [OF s]]] e by simp
  let ?D = "upd_chn p (\<lambda>e. e\<lparr>xen_consumer := 0\<rparr>) D"
  have "\<exists>rc s'. do_evtchn_close d p (put_dom d ?D s) = Some (rc, s') \<and> einv s'"
    using do_evtchn_close_ok [OF detach_ok [OF s e(1)], of d ?D p] by auto
  then show ?thesis using s e False v by (auto simp: free_xen_event_channel_def evtchn_from_port_def upd_dom_put)
qed

lemma notify_xen_ok:
  assumes s: "einv s" "doms s d = Some D" and p: "is_dying D \<or> consumer D p \<noteq> 0"
  shows "\<exists>s'. notify_via_xen_event_channel d p s = Some s' \<and> einv s'"
proof (cases "is_dying D")
  case True
  then show ?thesis using s by (simp add: notify_via_xen_event_channel_def)
next
  case False
  then obtain e where e: "chn D p = Some e" "xen_consumer e \<noteq> 0" using p by (auto simp: consumer_def split: option.splits)
  have v: "port_is_valid D p" using valid_iff [OF dom_okD(1) [OF einvD(1) [OF s]]] e by simp
  show ?thesis
  proof (cases "chn_state e")
    case (ECS_INTERDOMAIN rd rport)
    obtain RD re where R: "doms s rd = Some RD" "chn RD rport = Some re" using linked_to [OF s e(1) ECS_INTERDOMAIN] by blast
    then show ?thesis using s e False v ECS_INTERDOMAIN einv_set_pending [OF s(1) R notify_vcpu [OF s(1) R]]
      by (simp add: notify_via_xen_event_channel_def evtchn_from_port_def)
  qed (use s e False v in \<open>simp_all add: notify_via_xen_event_channel_def evtchn_from_port_def\<close>)
qed

section \<open>Creation\<close>

definition blank_vcpu :: "evcpu \<Rightarrow> bool" where
  "blank_vcpu r \<longleftrightarrow> virq_to_evtchn r = (\<lambda>_. 0) \<and> pirq_evtchn_head r = 0"

definition blank_domain :: "edomain \<Rightarrow> bool" where
  "blank_domain D \<longleftrightarrow> chn D = (\<lambda>_. None) \<and> \<not> is_dying D \<and> bits_per_evtchn_word D \<in> {32, 64} \<and> pirq_evtchn D = (\<lambda>_. None)"

lemma evtchn_init_alloc:
  assumes "evtchn_init E pm D = (0, D1)" "blank_domain D"
  shows "D1 = (set_state 0 ECS_RESERVED (alloc_evtchn_bucket 0 ((evtchn_2l_init D)\<lparr>max_evtchn_port := INT_MAX\<rparr>)))\<lparr>poll_mask := (\<lambda>_. False)\<rparr>"
proof -
  let ?D = "alloc_evtchn_bucket 0 ((evtchn_2l_init D)\<lparr>max_evtchn_port := INT_MAX\<rparr>)"
  have "port_is_valid ?D 0" "is_free ?D 0" "\<not> is_dying ?D"
    using assms(2) by (auto simp: port_is_valid_def is_free_def alloc_evtchn_bucket_def evtchn_2l_init_def blank_domain_def)
  then have "get_free_port E ?D = (Inr 0, ?D)" using free_port_scan_unfold [of ?D 0] by (simp add: get_free_port_def)
  then show ?thesis using assms(1) by (auto simp: evtchn_init_def Let_def split: if_splits)
qed

lemma evtchn_init_ok:
  assumes i: "evtchn_init E pm D = (0, D1)" "blank_domain D" and v: "vs 0 \<noteq> None" "\<And>v r. vs v = Some r \<Longrightarrow> blank_vcpu r"
  shows "dom_ok (D1\<lparr>vcpu := vs\<rparr>)" "link_port (D1\<lparr>vcpu := vs\<rparr>) p = None" "consumer (D1\<lparr>vcpu := vs\<rparr>) p = 0"
proof -
  let ?D = "D1\<lparr>vcpu := vs\<rparr>"
  note D1 = evtchn_init_alloc [OF i]
  have c: "chn ?D p = (if p div EVTCHNS_PER_BUCKET = 0 then Some (if p = 0 then free_chn\<lparr>chn_state := ECS_RESERVED\<rparr> else free_chn) else None)" for p
    using i(2) by (auto simp: D1 set_state_def upd_chn_def alloc_evtchn_bucket_def evtchn_2l_init_def blank_domain_def free_chn_def EVTCHNS_PER_BUCKET_def)
  have f: "max_evtchns ?D \<in> {1024, 4096}" "pirq_evtchn ?D = (\<lambda>_. None)" "poll_mask ?D = (\<lambda>_. False)" "vcpu ?D = vs"
    using i(2) by (auto simp: D1 set_state_def upd_chn_def alloc_evtchn_bucket_def evtchn_2l_init_def blank_domain_def)
  have st: "chn_state e \<in> {ECS_FREE, ECS_RESERVED} \<and> xen_consumer e = 0 \<and> notify_vcpu_id e = 0" if "chn ?D p = Some e" for p e
    using that c [of p] by (auto split: if_splits)
  have none: "virq_port ?D p = None" "pirq_port ?D p = None" "link_port ?D p = None" "consumer ?D p = 0" for p
    using st [of p] by (cases "chn ?D p"; auto simp: virq_port_def virq_of_def pirq_port_def pirq_of_def link_port_def link_of_def consumer_def)+
  then show "link_port ?D p = None" "consumer ?D p = 0" by simp_all
  have "ports_ok ?D" unfolding ports_ok_def
  proof (intro conjI)
    show "\<exists>k. EVTCHNS_PER_BUCKET * k \<le> max_evtchns ?D \<and> (\<forall>p. chn ?D p \<noteq> None \<longleftrightarrow> p < EVTCHNS_PER_BUCKET * k)"
      using f(1) c by (intro exI [of _ 1]) (auto simp: EVTCHNS_PER_BUCKET_def)
    show "\<forall>p e. chn ?D p = Some e \<longrightarrow> (chn_state e = ECS_RESERVED \<longleftrightarrow> p = 0)" using c by (auto split: if_splits)
  qed (use f(1) c [of 0] in \<open>auto simp: EVTCHNS_PER_BUCKET_def\<close>)
  moreover have "vcpus_ok ?D" using v f by (simp add: vcpus_ok_def polls_ok_def)
  moreover have "channels_ok ?D" using st v(1) unfolding channels_ok_def channel_ok_def f(4) by fastforce
  moreover have "virqs_ok ?D" unfolding virqs_ok_def none f(4) using v(2) by (auto simp: blank_vcpu_def)
  moreover have "lists_ok (pirq_port ?D) (pirq_links ?D) (pirq_heads ?D)" unfolding lists_ok_def pirq_heads_def f(4) none
    using v(2) by (auto simp: blank_vcpu_def linked_def intro!: exI [of _ "[]"])
  then have "pirqs_ok ?D" unfolding pirqs_ok_iff none f(2) by simp
  ultimately show "dom_ok ?D" by (simp add: dom_ok_def)
qed

section \<open>Reachable states\<close>

text \<open>The commands that switch a domain to the FIFO ABI and extend its arrays.\<close>

fun fifo_command :: "evtchnop \<Rightarrow> bool" where
  "fifo_command (EVTCHNOP_init_control _) = True"
| "fifo_command (EVTCHNOP_expand_array _) = True"
| "fifo_command _ = False"

text \<open>
  The entry points of the component, with what their callers guarantee: a caller is a domain, an
  interrupt is delivered to an existing virtual CPU, a PV domain gets physical interrupts it has
  bound only, and Xen uses the channels it has allocated.
\<close>

datatype xop =
  Hypercall env nat evtchnop
| Vcpu_virq nat nat nat
| Global_virq "nat option" nat
| Phys_irq nat nat
| Alloc_xen env nat nat nat "nat option"
| Free_xen nat nat
| Notify_xen nat nat
| Set_handler bool nat nat
| Destroy nat

fun run_xop :: "notifiers \<Rightarrow> fifo_ops \<Rightarrow> xop \<Rightarrow> esys \<Rightarrow> esys option" where
  "run_xop ntf fifo (Hypercall E cur cmd) s = map_option (\<lambda>(_, _, s). s) (do_event_channel_op ntf fifo E cur cmd s)"
| "run_xop ntf fifo (Vcpu_virq d v virq) s = send_guest_vcpu_virq d v virq s"
| "run_xop ntf fifo (Global_virq hw virq) s = send_global_virq hw virq s"
| "run_xop ntf fifo (Phys_irq d pirq) s = send_guest_pirq d pirq s"
| "run_xop ntf fifo (Alloc_xen E d v remote fn) s = map_option snd (alloc_unbound_xen_event_channel E d v remote fn s)"
| "run_xop ntf fifo (Free_xen d p) s = free_xen_event_channel d p s"
| "run_xop ntf fifo (Notify_xen d p) s = notify_via_xen_event_channel d p s"
| "run_xop ntf fifo (Set_handler g d virq) s = Some (snd (set_global_virq_handler g d virq s))"
| "run_xop ntf fifo (Destroy d) s = evtchn_destroy d s"

definition in_dom :: "esys \<Rightarrow> nat \<Rightarrow> (edomain \<Rightarrow> bool) \<Rightarrow> bool" where
  "in_dom s d P = (case doms s d of None \<Rightarrow> False | Some D \<Rightarrow> P D)"

fun xop_pre :: "xop \<Rightarrow> esys \<Rightarrow> bool" where
  "xop_pre (Hypercall E cur cmd) s \<longleftrightarrow> doms s cur \<noteq> None \<and> \<not> fifo_command cmd"
| "xop_pre (Vcpu_virq d v virq) s \<longleftrightarrow> virq < NR_VIRQS \<and> \<not> virq_is_global virq \<and> in_dom s d (\<lambda>D. vcpu D v \<noteq> None)"
| "xop_pre (Global_virq hw virq) s \<longleftrightarrow> virq < NR_VIRQS \<and> virq_is_global virq
     \<and> (case hw of None \<Rightarrow> True | Some d \<Rightarrow> doms s d \<noteq> None)
     \<and> (case global_virq_handlers s virq of None \<Rightarrow> True | Some d \<Rightarrow> doms s d \<noteq> None)"
| "xop_pre (Phys_irq d pirq) s \<longleftrightarrow> in_dom s d (\<lambda>D. pirq_to_evtchn D pirq \<noteq> 0 \<or> is_hvm_domain D)"
| "xop_pre (Alloc_xen E d v remote fn) s \<longleftrightarrow> in_dom s d (\<lambda>D. vcpu D v \<noteq> None) \<and> get_xen_consumer fn s \<noteq> None"
| "xop_pre (Free_xen d p) s \<longleftrightarrow> in_dom s d (\<lambda>D. is_dying D \<or> consumer D p \<noteq> 0)"
| "xop_pre (Notify_xen d p) s \<longleftrightarrow> in_dom s d (\<lambda>D. is_dying D \<or> consumer D p \<noteq> 0)"
| "xop_pre (Set_handler g d virq) s \<longleftrightarrow> True"
| "xop_pre (Destroy d) s \<longleftrightarrow> in_dom s d is_dying"

lemma in_domE: "in_dom s d P \<Longrightarrow> (\<And>D. doms s d = Some D \<Longrightarrow> P D \<Longrightarrow> thesis) \<Longrightarrow> thesis"
  by (auto simp: in_dom_def split: option.splits)

lemma einv_handlers [simp]: "einv (s\<lparr>global_virq_handlers := h\<rparr>) = einv s"
  by (simp add: einv_def doms_ok_def links_ok_def links_def consumers_ok_def)

lemma run_evtchnop_ok:
  assumes s: "einv s" "doms s cur = Some D" and n: "notifiers_ok ntf" and f: "\<not> fifo_command cmd"
  shows "\<exists>rc rep s'. run_evtchnop ntf fifo E cur cmd s = Some (rc, rep, s') \<and> einv s'"
proof (cases cmd)
  case (EVTCHNOP_alloc_unbound domid remote)
  obtain r s' where "evtchn_alloc_unbound E cur domid remote s = Some (r, s')" "einv s'" using evtchn_alloc_unbound_ok s by blast
  then show ?thesis using EVTCHNOP_alloc_unbound by (cases r) auto
next
  case (EVTCHNOP_bind_interdomain rdom rport)
  obtain r s' where "evtchn_bind_interdomain E cur rdom rport s = Some (r, s')" "einv s'" using evtchn_bind_interdomain_ok [OF s] by blast
  then show ?thesis using EVTCHNOP_bind_interdomain by (cases r) auto
next
  case (EVTCHNOP_bind_virq virq vid)
  obtain r s' where "evtchn_bind_virq E cur virq vid s = Some (r, s')" "einv s'" using evtchn_bind_virq_ok [OF s] by blast
  then show ?thesis using EVTCHNOP_bind_virq by (cases r) auto
next
  case (EVTCHNOP_bind_ipi vid)
  obtain r s' where "evtchn_bind_ipi E cur vid s = Some (r, s')" "einv s'" using evtchn_bind_ipi_ok [OF s] by blast
  then show ?thesis using EVTCHNOP_bind_ipi by (cases r) auto
next
  case (EVTCHNOP_bind_pirq pirq)
  obtain r s' where "evtchn_bind_pirq E cur pirq s = Some (r, s')" "einv s'" using evtchn_bind_pirq_ok [OF s] by blast
  then show ?thesis using EVTCHNOP_bind_pirq by (cases r) auto
next
  case (EVTCHNOP_close port)
  then show ?thesis using do_evtchn_close_ok [OF s, of port] by (auto simp: evtchn_close_def)
next
  case (EVTCHNOP_send port)
  then show ?thesis using evtchn_send_ok [OF s n, of E port] by auto
next
  case (EVTCHNOP_status domid port)
  obtain r where r: "evtchn_status E cur domid port s = Some r"
  proof (cases "rcu_lock_domain_by_any_id cur domid s")
    case None
    then show ?thesis using that by (simp add: evtchn_status_def)
  next
    case (Some d)
    then obtain D where "doms s d = Some D" using by_any_id s(2) by blast
    then show ?thesis using that Some
      by (cases "port_is_valid D port"; cases "xsm E = 0") (auto simp: evtchn_status_def evtchn_from_port_def port_is_valid_def)
  qed
  obtain rc rep where "status_result E r = (rc, rep)" by fastforce
  then show ?thesis using EVTCHNOP_status r s by simp
next
  case (EVTCHNOP_bind_vcpu port vid)
  then show ?thesis using evtchn_bind_vcpu_ok [OF s, of port vid] by auto
next
  case (EVTCHNOP_unmask port)
  then show ?thesis using evtchn_unmask_ok [OF s, of port] by auto
next
  case (EVTCHNOP_reset domid)
  then show ?thesis using evtchn_reset_ok [of s cur E domid] s by auto
next
  case (EVTCHNOP_init_control c)
  then show ?thesis using f by simp
next
  case (EVTCHNOP_expand_array gfn)
  then show ?thesis using f by simp
next
  case (EVTCHNOP_set_priority port priority)
  then show ?thesis using s by (simp add: evtchn_set_priority_def)
next
  case (EVTCHNOP_other c)
  then show ?thesis using s by simp
qed

lemma hypercall_ok:
  assumes s: "einv s" "doms s cur = Some D" and n: "notifiers_ok ntf" and f: "\<not> fifo_command cmd"
  shows "\<exists>rc rep s'. do_event_channel_op ntf fifo E cur cmd s = Some (rc, rep, s') \<and> einv s'"
  using run_evtchnop_ok [OF s n f] s(1) by (cases cmd; cases "copy_from_ok E") (simp_all add: do_event_channel_op_def)

lemma run_xop_ok:
  assumes s: "einv s" and n: "notifiers_ok ntf" and p: "xop_pre op s"
  shows "\<exists>s'. run_xop ntf fifo op s = Some s' \<and> einv s'"
proof (cases op)
  case (Hypercall E cur cmd)
  then obtain D where D: "doms s cur = Some D" "\<not> fifo_command cmd" using p by auto
  obtain rc rep s' where "do_event_channel_op ntf fifo E cur cmd s = Some (rc, rep, s')" "einv s'" using hypercall_ok [OF s D(1) n D(2)] by blast
  then show ?thesis using Hypercall by simp
next
  case (Vcpu_virq d v virq)
  then show ?thesis using p s send_guest_vcpu_virq_ok [OF s] by (fastforce elim!: in_domE)
next
  case (Global_virq hw virq)
  let ?dp = "case global_virq_handlers s virq of Some d \<Rightarrow> Some d | None \<Rightarrow> hw"
  have "\<And>d. ?dp = Some d \<Longrightarrow> doms s d \<noteq> None" and v: "virq < NR_VIRQS" "virq_is_global virq"
    using p Global_virq by (auto split: option.splits)
  then show ?thesis using send_guest_global_virq_ok [OF s _ v, of ?dp] Global_virq by (simp add: send_global_virq_def)
next
  case (Phys_irq d pirq)
  then show ?thesis using p send_guest_pirq_ok [OF s] by (auto elim!: in_domE)
next
  case (Alloc_xen E d v remote fn)
  then obtain D where D: "doms s d = Some D" "vcpu D v \<noteq> None" "get_xen_consumer fn s \<noteq> None" using p by (auto elim!: in_domE)
  obtain r s' where "alloc_unbound_xen_event_channel E d v remote fn s = Some (r, s')" "einv s'" using alloc_xen_ok [OF s D] by blast
  then show ?thesis using Alloc_xen by simp
next
  case (Free_xen d p')
  then show ?thesis using p free_xen_ok [OF s] by (auto elim!: in_domE)
next
  case (Notify_xen d p')
  then show ?thesis using p notify_xen_ok [OF s] by (auto elim!: in_domE)
next
  case (Set_handler g d virq)
  then show ?thesis using s by (simp add: set_global_virq_handler_def)
next
  case (Destroy d)
  then obtain D where D: "doms s d = Some D" "is_dying D" using p by (auto elim!: in_domE)
  then show ?thesis using Destroy evtchn_destroy_ok [OF s D] by auto
qed

text \<open>
  Besides the entry points, a domain is created (its channels first, then its virtual CPUs), a guest
  writes its shared page and its virtual CPUs block or poll, a domain starts to die, it is switched to
  the 32-bit interface, or its port limit is set.
\<close>

definition no_domains :: esys where
  "no_domains = \<lparr>doms = (\<lambda>_. None), xen_consumers = (\<lambda>_. None), global_virq_handlers = (\<lambda>_. None)\<rparr>"

inductive ereach :: "notifiers \<Rightarrow> fifo_ops \<Rightarrow> esys \<Rightarrow> bool" for ntf fifo where
  start: "ereach ntf fifo no_domains"
| xop: "ereach ntf fifo s \<Longrightarrow> xop_pre op s \<Longrightarrow> run_xop ntf fifo op s = Some s' \<Longrightarrow> ereach ntf fifo s'"
| create: "ereach ntf fifo s \<Longrightarrow> doms s d = None \<Longrightarrow> blank_domain D \<Longrightarrow> evtchn_init E pm D = (0, D1) \<Longrightarrow> vs 0 \<noteq> None
    \<Longrightarrow> (\<And>v r. vs v = Some r \<Longrightarrow> blank_vcpu r) \<Longrightarrow> ereach ntf fifo (put_dom d (D1\<lparr>vcpu := vs\<rparr>) s)"
| guest: "ereach ntf fifo s \<Longrightarrow> doms s d = Some D \<Longrightarrow> same_shape D D' \<Longrightarrow> polls_ok D' \<Longrightarrow> ereach ntf fifo (put_dom d D' s)"
| kill: "ereach ntf fifo s \<Longrightarrow> doms s d = Some D \<Longrightarrow> ereach ntf fifo (put_dom d (D\<lparr>is_dying := True\<rparr>) s)"
| compat: "ereach ntf fifo s \<Longrightarrow> doms s d = Some D \<Longrightarrow> ereach ntf fifo (put_dom d (D\<lparr>bits_per_evtchn_word := 32\<rparr>) s)"
| limit: "ereach ntf fifo s \<Longrightarrow> doms s d = Some D \<Longrightarrow> ereach ntf fifo (put_dom d (D\<lparr>max_evtchn_port := n\<rparr>) s)"

lemma einv_fields:
  assumes s: "einv s" "doms s d = Some D"
    and c: "chn D' = chn D" "vcpu D' = vcpu D" "max_evtchns D' = max_evtchns D" "pirq_evtchn D' = pirq_evtchn D" "poll_mask D' = poll_mask D"
      "is_dying D \<Longrightarrow> is_dying D'"
  shows "einv (put_dom d D' s)"
proof -
  have ok: "dom_ok D" by (rule einvD(1) [OF s])
  have v: "virq_port D' = virq_port D" "pirq_port D' = pirq_port D" "pirq_links D' = pirq_links D" "link_port D' = link_port D"
    "consumer D' = consumer D" "virq_tab D' = virq_tab D" "pirq_heads D' = pirq_heads D"
    by (rule ext, simp add: virq_port_def pirq_port_def pirq_links_def link_port_def consumer_def virq_tab_def pirq_heads_def c)+
  have "ports_ok D'" using dom_okD(1) [OF ok] c(6) unfolding ports_ok_def c(1,3) by blast
  moreover have "vcpus_ok D'" using dom_okD(2) [OF ok] unfolding vcpus_ok_def polls_ok_def c .
  moreover have "channels_ok D'" using dom_okD(3) [OF ok] unfolding channels_ok_def channel_ok_def c .
  moreover have "virqs_ok D' = virqs_ok D" by (rule virqs_ok_cong) (simp_all only: v)
  moreover have "pirqs_ok D' = pirqs_ok D" by (rule pirqs_ok_cong) (simp_all only: v c)
  ultimately have "dom_ok D'" using ok by (simp add: dom_ok_def)
  then show ?thesis using v by (intro einv_put [OF s]) simp_all
qed

lemma einv_create:
  assumes s: "einv s" "doms s d = None" and D: "dom_ok D" "\<And>p. link_port D p = None" "\<And>p. consumer D p = 0"
  shows "einv (put_dom d D s)"
proof -
  have l: "links (put_dom d D s) = links s" using s(2) D(2) by (auto simp: links_def fun_eq_iff)
  have "links_ok (put_dom d D s)" using einvD(2) [OF s(1)] unfolding links_ok_def l .
  moreover have "consumers_ok (put_dom d D s)" unfolding consumers_ok_def
  proof (intro allI impI)
    fix d' E p assume a: "doms (put_dom d D s) d' = Some E" "consumer E p \<noteq> 0"
    then have "doms s d' = Some E" using D(3) [of p] by (auto split: if_splits)
    then show "xen_consumers (put_dom d D s) (consumer E p - 1) \<noteq> None" using einvD(3) [OF s(1)] a(2) unfolding consumers_ok_def by simp
  qed
  ultimately show ?thesis using doms_ok_put [OF einvD(4) [OF s(1)] D(1)] by (simp add: einv_def)
qed

lemma ereach_einv:
  assumes "ereach ntf fifo s" "notifiers_ok ntf"
  shows "einv s"
  using assms
proof (induction rule: ereach.induct)
  case start
  show ?case by (simp add: no_domains_def einv_def doms_ok_def links_ok_def links_def consumers_ok_def)
next
  case (xop s op s')
  then show ?case using run_xop_ok [of s ntf op fifo] by auto
next
  case (create s d D E pm D1 vs)
  note ok = evtchn_init_ok [OF create.hyps(4,3), of vs]
  have i: "einv s" using create.IH create.prems by blast
  show ?case by (rule einv_create [OF i create.hyps(2)]) (use create.hyps(5,6) ok in blast)+
next
  case (guest s d D D')
  then show ?case by (auto intro: einv_same_shape)
next
  case (kill s d D)
  then show ?case by (intro einv_fields [of s d D]) simp_all
next
  case (compat s d D)
  then show ?case by (intro einv_fields [of s d D]) simp_all
next
  case (limit s d D n)
  then show ?case by (intro einv_fields [of s d D]) simp_all
qed

end
