(* ===== verification/Evtchn_Props.thy ===== *)
theory Evtchn_Props
  imports Evtchn_System
begin

text \<open>
  The properties of the event channels: safety of every reachable state, delivery of events, the
  round trip of binding and closing, the end of a domain, virtual and physical IRQs, and the shape
  of the results of the hypercall.
\<close>

section \<open>A small system\<close>

text \<open>Two freshly created domains with one virtual CPU each, used as the concrete instance of the properties.\<close>

definition w_env :: env where
  "w_env = \<lparr>alloc_ok = True, xsm = 0, pirq_alloc_ok = True, pirq_permitted = True, pirq_guest_bind = 0, copy_from_ok = True, copy_to_ok = True\<rparr>"

definition w_vcpu :: evcpu where
  "w_vcpu = \<lparr>virq_to_evtchn = (\<lambda>_. 0), pirq_evtchn_head = 0, evtchn_pending_sel = (\<lambda>_. False), upcall_pending = False,
     poll_evtchn = 0, vpf_blocked = False, vpf_blocked_in_xen = False\<rparr>"

definition w_vcpus :: "nat \<Rightarrow> evcpu option" where
  "w_vcpus v = (if v = 0 then Some w_vcpu else None)"

definition w_blank :: edomain where
  "w_blank = \<lparr>is_dying = False, is_hvm_domain = True, bits_per_evtchn_word = 64, max_vcpus = 1, vcpu = (\<lambda>_. None), max_evtchns = 0,
     max_evtchn_port = 0, chn = (\<lambda>_. None), evtchn_pending = (\<lambda>_. False), poll_mask = (\<lambda>_. False),
     nr_pirqs = 32, pirq_evtchn = (\<lambda>_. None)\<rparr>"

definition w_chn :: "nat \<Rightarrow> evtchn option" where
  "w_chn p = (if p < 128 then Some \<lparr>chn_state = (if p = 0 then ECS_RESERVED else ECS_FREE), xen_consumer = 0, notify_vcpu_id = 0\<rparr> else None)"

definition w_dom :: edomain where
  "w_dom = w_blank\<lparr>max_evtchns := 4096, max_evtchn_port := INT_MAX, chn := w_chn, vcpu := w_vcpus\<rparr>"

definition w_sys :: esys where
  "w_sys = put_dom 1 w_dom (put_dom 0 w_dom no_domains)"

lemma w_init: "evtchn_init w_env True w_blank = (0, w_dom\<lparr>vcpu := (\<lambda>_. None)\<rparr>)"
proof -
  let ?D = "alloc_evtchn_bucket 0 ((evtchn_2l_init w_blank)\<lparr>max_evtchn_port := INT_MAX\<rparr>)"
  have "port_is_valid ?D 0" "is_free ?D 0" "\<not> is_dying ?D"
    by (simp_all add: port_is_valid_def is_free_def alloc_evtchn_bucket_def evtchn_2l_init_def w_blank_def)
  then have "get_free_port w_env ?D = (Inr 0, ?D)" using free_port_scan_unfold [of ?D 0] by (simp add: get_free_port_def)
  moreover have "(set_state 0 ECS_RESERVED ?D)\<lparr>poll_mask := (\<lambda>_. False)\<rparr> = w_dom\<lparr>vcpu := (\<lambda>_. None)\<rparr>"
    by (auto simp: w_dom_def w_blank_def set_state_def upd_chn_def alloc_evtchn_bucket_def evtchn_2l_init_def w_chn_def EVTCHNS_PER_BUCKET_def fun_eq_iff)
  ultimately show ?thesis by (simp add: evtchn_init_def Let_def) (simp add: w_env_def)
qed

lemma w_sys_reach: "ereach ntf fifo w_sys"
proof -
  have b: "blank_domain w_blank" by (simp add: blank_domain_def w_blank_def)
  have v: "w_vcpus 0 \<noteq> None" "\<And>v r. w_vcpus v = Some r \<Longrightarrow> blank_vcpu r"
    by (auto simp: w_vcpus_def w_vcpu_def blank_vcpu_def split: if_splits)
  have e: "(w_dom\<lparr>vcpu := (\<lambda>_. None)\<rparr>)\<lparr>vcpu := w_vcpus\<rparr> = w_dom" by (simp add: w_dom_def)
  have c: "ereach ntf fifo (put_dom d w_dom s)" if "ereach ntf fifo s" "doms s d = None" for s d
    using ereach.create [where vs = w_vcpus, OF that b w_init] v unfolding e by blast
  have "ereach ntf fifo (put_dom 0 w_dom no_domains)" by (rule c [OF ereach.start]) (simp add: no_domains_def)
  then show ?thesis unfolding w_sys_def by (rule c) (simp add: no_domains_def)
qed

definition w_ntf :: notifiers where
  "w_ntf fn d v p s = Some s"

definition w_fifo :: fifo_ops where
  "w_fifo = \<lparr>evtchn_fifo_init_control = (\<lambda>E cur c s. Some (0, c\<lparr>link_bits := 17\<rparr>, s)),
     evtchn_fifo_expand_array = (\<lambda>E cur gfn s. Some (- ENOSYS, s))\<rparr>"

lemma w_ntf_ok: "notifiers_ok w_ntf"
  by (simp add: notifiers_ok_def w_ntf_def)

lemma w_sys_einv: "einv w_sys"
  using ereach_einv [OF w_sys_reach w_ntf_ok] .

lemma w_free: "get_free_port w_env w_dom = (Inr 1, w_dom)"
  using free_port_scan_unfold [of w_dom 0] free_port_scan_unfold [of w_dom 1]
  by (simp add: get_free_port_def port_is_valid_def is_free_def w_dom_def w_blank_def w_chn_def INT_MAX_def)

text \<open>Domain 0 offers a port to domain 1, and domain 1 binds to it.\<close>

definition w_offered :: esys where
  "w_offered = put_dom 0 (set_state 1 (ECS_UNBOUND 1) w_dom) w_sys"

lemma w_offer: "evtchn_alloc_unbound w_env 0 0 1 w_sys = Some (Inr 1, w_offered)"
  using w_free by (simp add: evtchn_alloc_unbound_def rcu_lock_domain_by_any_id_def w_sys_def w_offered_def DOMID_SELF_def no_domains_def Let_def)
    (simp add: w_env_def)

lemma w_offered_einv: "einv w_offered"
proof -
  obtain r s' where "evtchn_alloc_unbound w_env 0 0 1 w_sys = Some (r, s')" "einv s'"
    using evtchn_alloc_unbound_ok [OF w_sys_einv, of 0 w_env 0 1] by (auto simp: w_sys_def)
  then show ?thesis using w_offer by simp
qed

lemma w_doms [simp]: "doms w_offered 0 = Some (set_state 1 (ECS_UNBOUND 1) w_dom)" "doms w_offered 1 = Some w_dom" "doms w_offered (Suc 0) = Some w_dom"
  by (simp_all add: w_offered_def w_sys_def)

lemmas w_eval = evtchn_bind_interdomain_def DOMID_SELF_def Let_def bind_remote_def port_is_valid_def evtchn_from_port_def set_state_def
  upd_dom_def w_dom_def w_blank_def w_chn_def w_env_def evtchn_set_pending_def evtchn_port_set_pending_def evtchn_2l_set_pending_def w_vcpus_def
  raise_sel_def test_and_set_sel_def w_vcpu_def evtchn_check_pollers_def check_poller_def vcpu_mark_events_pending_def

definition w_bound :: esys where
  "w_bound = snd (the (evtchn_bind_interdomain w_env 1 0 1 w_offered))"

lemma w_bind: "evtchn_bind_interdomain w_env 1 0 1 w_offered = Some (Inr 1, w_bound)"
proof -
  have "fst (the (evtchn_bind_interdomain w_env 1 0 1 w_offered)) = Inr 1"
    using w_free
    by (simp add: w_eval)
  moreover obtain r s' where "evtchn_bind_interdomain w_env 1 0 1 w_offered = Some (r, s')"
    using evtchn_bind_interdomain_ok [OF w_offered_einv w_doms(2)] by blast
  ultimately show ?thesis by (simp add: w_bound_def)
qed

section \<open>Safety\<close>

text \<open>
  Property C31. Whatever sequence of hypercalls (other than the two of the FIFO ABI), interrupts, calls
  from Xen, guest writes, domain creations and destructions has happened, each within its contract
  \<open>xop_pre\<close>, the event channels are well formed (ports, virtual and
  physical IRQ bindings, paired links, consumers), and no entry point called within its contract
  crashes: none of its \<^verbatim>\<open>BUG\<close>s is hit, no null pointer is followed, every loop ends.
\<close>

theorem evtchn_reachable_safe:
  assumes "notifiers_ok ntf" "ereach ntf fifo s"
  shows "einv s \<and> (\<forall>op. xop_pre op s \<longrightarrow> (\<exists>s'. run_xop ntf fifo op s = Some s'))"
  using ereach_einv [OF assms(2,1)] run_xop_ok [OF _ assms(1)] by blast

theorem evtchn_reachable_safe_witness:
  "einv w_sys \<and> (\<exists>s'. run_xop w_ntf w_fifo (Hypercall w_env 0 (EVTCHNOP_bind_ipi 0)) w_sys = Some s')"
proof -
  have "xop_pre (Hypercall w_env 0 (EVTCHNOP_bind_ipi 0)) w_sys" by (simp add: w_sys_def)
  then show ?thesis using evtchn_reachable_safe [OF w_ntf_ok w_sys_reach [of w_ntf w_fifo]] by blast
qed

section \<open>Binding and closing between domains\<close>

lemma in_domI: "doms s d = Some D \<Longrightarrow> P D \<Longrightarrow> in_dom s d P"
  by (simp add: in_dom_def)

lemma bound_channel:
  assumes "links s (d, p) = Some (d2, p2)"
  obtains D e where "doms s d = Some D" "chn D p = Some e" "chn_state e = ECS_INTERDOMAIN d2 p2"
  using assms by (auto simp: links_def link_port_def link_of_def bind_case split: option.splits ecs.splits)

lemma close_interdomain_effect:
  assumes s: "einv s" "doms s d = Some D" and e: "chn D p = Some e" "chn_state e = ECS_INTERDOMAIN d2 p2" "xen_consumer e = 0" and ne: "(d2, p2) \<noteq> (d, p)"
  shows "\<exists>s'. evtchn_close d p s = Some (0, s') \<and> einv s' \<and> links s' = (links s)((d2, p2) := None, (d, p) := None)
    \<and> in_dom s' d (\<lambda>D. is_free D p \<and> \<not> evtchn_pending D p) \<and> in_dom s' d2 (\<lambda>D. map_option chn_state (chn D p2) = Some (ECS_UNBOUND d))"
proof -
  let ?s1 = "upd_dom d2 (set_state p2 (ECS_UNBOUND d)) s"
  have v: "port_is_valid D p" using valid_iff [OF dom_okD(1) [OF einvD(1) [OF s]]] e(1) by simp
  have c: "close_switch d p e s = Some (0, ?s1)" using e(2) closes_interdomain(2) [OF s e] by (simp add: close_switch_def)
  have l: "links s (d, p) = Some (d2, p2)" using s(2) e by (simp add: links_def link_port_def link_of_def)
  obtain D1 e1 where D1: "doms ?s1 d = Some D1" "chn D1 p = Some e1" "links (put_dom d (freed p D1) ?s1) = close_links s (d, p)" "einv (put_dom d (freed p D1) ?s1)"
    using closes_interdomain(1) [OF s e] c unfolding closes_def by auto
  obtain D2 e2 where D2: "doms s d2 = Some D2" "chn D2 p2 = Some e2" using linked_to [OF s e(1,2)] by blast
  have "evtchn_close d p s = Some (0, put_dom d (freed p D1) ?s1)"
    using do_evtchn_close_unfold [OF s(2) v e(1,3) c D1(1)] by (simp add: evtchn_close_def)
  moreover have "in_dom (put_dom d (freed p D1) ?s1) d (\<lambda>D. is_free D p \<and> \<not> evtchn_pending D p)" using freed_frame [OF D1(2)] by (intro in_domI) auto
  moreover have "in_dom (put_dom d (freed p D1) ?s1) d2 (\<lambda>D. map_option chn_state (chn D p2) = Some (ECS_UNBOUND d))"
  proof (cases "d2 = d")
    case True
    then have "D1 = set_state p2 (ECS_UNBOUND d) D2" "p2 \<noteq> p" using D1(1) D2(1) ne by (auto simp: upd_dom_def)
    then show ?thesis using True D2 by (intro in_domI [of _ _ "freed p D1"]) (simp_all add: freed_alt set_state_def)
  next
    case False
    then show ?thesis using D2 by (intro in_domI [of _ _ "set_state p2 (ECS_UNBOUND d) D2"]) (simp_all add: upd_dom_def set_state_def)
  qed
  ultimately show ?thesis using D1(3,4) l by (simp add: close_links_def)
qed

text \<open>
  Property C32. Binding to a port another domain has offered links the two ports to each other,
  touches no other pair, and leaves an event pending on the local port. Closing the local port
  afterwards restores the pairing as it was: the local port is free with no event pending, and the
  remote port is again unbound and open to the same domain.
\<close>

theorem interdomain_bind_close_roundtrip:
  fixes rdom :: nat
  assumes "einv s" "doms s cur = Some LD" "evtchn_bind_interdomain E cur rdom rport s = Some (Inr lport, s1)"
    and "rd = (if rdom = DOMID_SELF then cur else rdom)"
  shows "links s1 = (links s)((cur, lport) := Some (rd, rport), (rd, rport) := Some (cur, lport))
    \<and> in_dom s1 cur (\<lambda>D. evtchn_pending D lport)
    \<and> (\<exists>s2. evtchn_close cur lport s1 = Some (0, s2) \<and> links s2 = links s
         \<and> in_dom s2 cur (\<lambda>D. is_free D lport \<and> \<not> evtchn_pending D lport)
         \<and> in_dom s2 rd (\<lambda>D. map_option chn_state (chn D rport) = Some (ECS_UNBOUND cur)))"
proof -
  note B = evtchn_bind_interdomain_ok [OF assms(1,2), of E rdom rport, folded assms(4), unfolded assms(3)]
  have i: "einv s1" and l: "links s (cur, lport) = None" "links s1 = (links s)((cur, lport) := Some (rd, rport), (rd, rport) := Some (cur, lport))"
    and ne: "(rd, rport) \<noteq> (cur, lport)" and lr: "links s (rd, rport) = None"
    and p: "\<exists>D. doms s1 cur = Some D \<and> evtchn_pending D lport \<and> consumer D lport = 0" using B by auto
  have "links s1 (cur, lport) = Some (rd, rport)" using l(2) ne by simp
  then obtain D e where D: "doms s1 cur = Some D" "chn D lport = Some e" "chn_state e = ECS_INTERDOMAIN rd rport" by (rule bound_channel)
  have "xen_consumer e = 0" using p D by (simp add: consumer_def)
  then obtain s2 where s2: "evtchn_close cur lport s1 = Some (0, s2)" "links s2 = (links s1)((rd, rport) := None, (cur, lport) := None)"
    "in_dom s2 cur (\<lambda>D. is_free D lport \<and> \<not> evtchn_pending D lport)" "in_dom s2 rd (\<lambda>D. map_option chn_state (chn D rport) = Some (ECS_UNBOUND cur))"
    using close_interdomain_effect [OF i D _ ne] by blast
  have "links s2 = links s" using s2(2) l lr by (auto simp: fun_eq_iff)
  moreover have "in_dom s1 cur (\<lambda>D. evtchn_pending D lport)" using p by (auto intro: in_domI)
  ultimately show ?thesis using s2 l(2) by blast
qed

theorem interdomain_bind_close_roundtrip_witness:
  "in_dom w_bound 1 (\<lambda>D. evtchn_pending D 1) \<and> (\<exists>s2. evtchn_close 1 1 w_bound = Some (0, s2) \<and> links s2 = links w_offered)"
  using interdomain_bind_close_roundtrip [OF w_offered_einv w_doms(2) w_bind refl] by blast

section \<open>Delivery\<close>

text \<open>
  Property C33. Sending on a port bound to another domain delivers: when the remote port belongs to the
  guest, has a bit of its own in the shared bitmaps and is neither masked nor already pending, it
  becomes pending and no mask bit changes. The virtual CPU the port is bound to gets the selector bit of
  the port's word set, and its upcall flag raised if that bit was clear; no other virtual CPU is told
  anything. Exactly the virtual CPUs that poll on the port, or on several ports, stop polling and are
  unblocked. Nothing else of the remote domain changes, and no other domain does.
\<close>

theorem evtchn_send_delivers:
  assumes "einv s" "doms s ld = Some LD" "chn LD lport = Some e" "chn_state e = ECS_INTERDOMAIN rd rport" "xen_consumer e = 0" "xsm E = 0"
    and "doms s rd = Some RD" "chn RD rport = Some re" "xen_consumer re = 0" "\<not> evtchn_pending RD rport" "\<not> evtchn_mask RD rport"
    and "rport < bits_per_evtchn_word RD * bits_per_evtchn_word RD"
  shows "\<exists>RD'. evtchn_send ntf E ld lport s = Some (0, put_dom rd RD' s) \<and> same_shape RD RD'
    \<and> evtchn_pending RD' = (evtchn_pending RD)(rport := True) \<and> evtchn_mask RD' = evtchn_mask RD
    \<and> told_of RD' (notify_vcpu_id re) rport \<and> (told_of RD (notify_vcpu_id re) rport \<or> upcalled RD' (notify_vcpu_id re))
    \<and> told RD' = (told RD)(notify_vcpu_id re := map_option (tell (rport div bits_per_evtchn_word RD)) (told RD (notify_vcpu_id re)))
    \<and> (\<forall>w. polling RD' w = (if w < max_vcpus RD then woken rport (polling RD w) else polling RD w))"
proof -
  let ?v = "notify_vcpu_id re"
  have v: "port_is_valid LD lport" using valid_iff [OF dom_okD(1) [OF einvD(1) [OF assms(1,2)]]] assms(3) by simp
  have n: "vcpu RD ?v \<noteq> None" by (rule notify_vcpu [OF assms(1,7,8)])
  have b: "has_bit RD rport" using assms(12) by (simp add: has_bit_def)
  obtain RD' where R: "evtchn_set_pending rd ?v rport s = Some (put_dom rd RD' s)" "same_shape RD RD'"
    "evtchn_pending RD' = (evtchn_pending RD)(rport := True)" "evtchn_mask RD' = evtchn_mask RD"
    "told RD' = (told RD)(?v := tell_port RD rport (told RD ?v))"
    "\<forall>w. polling RD' w = (if w < max_vcpus RD then woken rport (polling RD w) else polling RD w)"
    using evtchn_set_pending_ok [OF assms(1,7) _ n, of rport] assms(8,10,11) b by auto
  have "evtchn_send ntf E ld lport s = Some (0, put_dom rd RD' s)"
    using assms v R(1) by (simp add: evtchn_send_def evtchn_from_port_def)
  moreover have "told_of RD' ?v rport" "told_of RD ?v rport \<or> upcalled RD' ?v"
    using tell_port_tells [OF n R(2), of rport] R(5) by simp_all
  ultimately show ?thesis using R unfolding tell_port_def by blast
qed

text \<open>In the bound system the event goes from domain 0 to domain 1 once the first event has been consumed.\<close>

definition w_ready :: esys where
  "w_ready = upd_dom 1 (\<lambda>D. D\<lparr>evtchn_pending := (\<lambda>_. False)\<rparr>) w_bound"

lemma w_bound_doms:
  "\<exists>D e. doms w_bound 0 = Some D \<and> chn D 1 = Some e \<and> chn_state e = ECS_INTERDOMAIN 1 1 \<and> xen_consumer e = 0"
  "\<exists>D e. doms w_bound 1 = Some D \<and> chn D 1 = Some e \<and> xen_consumer e = 0 \<and> bits_per_evtchn_word D = 64"
  using w_free by (simp_all add: w_bound_def w_eval)

lemma w_ready_facts:
  "\<exists>D e. doms w_ready 0 = Some D \<and> chn D 1 = Some e \<and> chn_state e = ECS_INTERDOMAIN 1 1 \<and> xen_consumer e = 0"
  "\<exists>D e. doms w_ready 1 = Some D \<and> chn D 1 = Some e \<and> xen_consumer e = 0 \<and> \<not> evtchn_mask D 1 \<and> \<not> evtchn_pending D 1
    \<and> bits_per_evtchn_word D = 64" "einv w_ready"
proof -
  obtain D e where D: "doms w_bound 1 = Some D" "chn D 1 = Some e" "xen_consumer e = 0" "bits_per_evtchn_word D = 64" using w_bound_doms by blast
  show "\<exists>D e. doms w_ready 0 = Some D \<and> chn D 1 = Some e \<and> chn_state e = ECS_INTERDOMAIN 1 1 \<and> xen_consumer e = 0"
    using w_bound_doms(1) by (auto simp: w_ready_def upd_dom_def)
  show "\<exists>D e. doms w_ready 1 = Some D \<and> chn D 1 = Some e \<and> xen_consumer e = 0 \<and> \<not> evtchn_mask D 1 \<and> \<not> evtchn_pending D 1
    \<and> bits_per_evtchn_word D = 64"
    using D by (simp add: w_ready_def upd_dom_def evtchn_mask_def)
  have i: "einv w_bound" using evtchn_bind_interdomain_ok [OF w_offered_einv w_doms(2), of w_env 0 1] w_bind by auto
  have "polls_ok D" using dom_okD(2) [OF einvD(1) [OF i D(1)]] by (simp add: vcpus_ok_def)
  then show "einv w_ready" unfolding w_ready_def upd_dom_put [OF D(1)] by (intro einv_same_shape [OF i D(1)]) (simp_all add: polls_ok_def)
qed

theorem evtchn_send_delivers_witness:
  "\<exists>RD'. evtchn_send w_ntf w_env 0 1 w_ready = Some (0, put_dom 1 RD' w_ready) \<and> evtchn_pending RD' 1"
proof -
  obtain D e where D: "doms w_ready 0 = Some D" "chn D 1 = Some e" "chn_state e = ECS_INTERDOMAIN 1 1" "xen_consumer e = 0" using w_ready_facts by blast
  obtain R r where R: "doms w_ready 1 = Some R" "chn R 1 = Some r" "xen_consumer r = 0" "\<not> evtchn_mask R 1" "\<not> evtchn_pending R 1"
    "bits_per_evtchn_word R = 64" using w_ready_facts by blast
  have x: "xsm w_env = 0" by (simp add: w_env_def)
  show ?thesis using evtchn_send_delivers [OF w_ready_facts(3) D x R(1-3,5,4), of w_ntf] R(6) by auto
qed





section \<open>Resetting and destroying a domain\<close>

text \<open>
  Property C35. A permitted reset of a domain's event channels comes to an end, reports success, and
  leaves every port free, except the reserved port 0 and the ports whose consumer is Xen itself.
\<close>

theorem evtchn_reset_closes:
  assumes "einv s" "doms s cur \<noteq> None" "rcu_lock_domain_by_any_id cur domid s = Some d" "xsm E = 0"
  shows "\<exists>s' D'. evtchn_reset E cur domid s = Some (0, s') \<and> doms s' d = Some D'
    \<and> (\<forall>p e. chn D' p = Some e \<longrightarrow> p = 0 \<or> chn_state e = ECS_FREE \<or> xen_consumer e \<noteq> 0)"
proof -
  obtain D where D: "doms s d = Some D" using by_any_id [OF assms(2,3)] by blast
  obtain s' D' where C: "close_ports False d 0 s = Some s'" "doms s' d = Some D'" "\<forall>q. closed_port False D' q"
    using close_ports_ok [OF assms(1) D, of 0 False] by blast
  have "p = 0 \<or> chn_state e = ECS_FREE \<or> xen_consumer e \<noteq> 0" if "chn D' p = Some e" for p e
    using C(3) [THEN spec, of p] that by (auto simp: closed_port_def is_free_def consumer_def)
  then show ?thesis using assms(3,4) C by (simp add: evtchn_reset_def)
qed

theorem evtchn_reset_closes_witness: "\<exists>s' D'. evtchn_reset w_env 0 DOMID_SELF w_offered = Some (0, s') \<and> doms s' 0 = Some D'
    \<and> (\<forall>p e. chn D' p = Some e \<longrightarrow> p = 0 \<or> chn_state e = ECS_FREE \<or> xen_consumer e \<noteq> 0)"
proof -
  have "doms w_offered 0 \<noteq> None" "rcu_lock_domain_by_any_id 0 DOMID_SELF w_offered = Some 0" "xsm w_env = 0"
    by (simp_all add: rcu_lock_domain_by_any_id_def w_env_def)
  then show ?thesis by (rule evtchn_reset_closes [OF w_offered_einv])
qed

text \<open>
  Property C36. Destroying the event channels of a dying domain comes to an end. Afterwards the domain has
  no channels, no channel of any domain is linked to it, and it handles no global virtual IRQ.
\<close>

theorem evtchn_destroy_releases:
  assumes "einv s" "doms s d = Some D" "is_dying D"
  shows "\<exists>s'. evtchn_destroy d s = Some s' \<and> in_dom s' d (\<lambda>D. chn D = (\<lambda>_. None))
    \<and> (\<forall>x y. links s' x = Some y \<longrightarrow> fst x \<noteq> d \<and> fst y \<noteq> d) \<and> (\<forall>virq<NR_VIRQS. global_virq_handlers s' virq \<noteq> Some d)"
proof -
  obtain s' D' where s': "evtchn_destroy d s = Some s'" "einv s'" "doms s' d = Some D'" "chn D' = (\<lambda>_. None)"
    "\<forall>virq<NR_VIRQS. global_virq_handlers s' virq \<noteq> Some d" using evtchn_destroy_ok [OF assms] by blast
  have n: "links s' (d, p) = None" for p using s'(3,4) by (simp add: links_def link_port_def)
  have "fst x \<noteq> d \<and> fst y \<noteq> d" if a: "links s' x = Some y" for x y
  proof -
    have "links s' y = Some x" using einvD(2) [OF s'(2)] a unfolding links_ok_def by blast
    then show ?thesis using n [of "snd x"] n [of "snd y"] a by (metis option.distinct(1) prod.collapse)
  qed
  then have "\<forall>x y. links s' x = Some y \<longrightarrow> fst x \<noteq> d \<and> fst y \<noteq> d" by simp
  moreover have "in_dom s' d (\<lambda>D. chn D = (\<lambda>_. None))" using s'(3,4) by (simp add: in_dom_def)
  ultimately show ?thesis using s'(1,5) by (intro exI [of _ s'] conjI)
qed

theorem evtchn_destroy_releases_witness:
  "\<exists>s'. evtchn_destroy 1 (put_dom 1 (w_dom\<lparr>is_dying := True\<rparr>) w_sys) = Some s' \<and> in_dom s' 1 (\<lambda>D. chn D = (\<lambda>_. None))"
proof -
  have "einv (put_dom 1 (w_dom\<lparr>is_dying := True\<rparr>) w_sys)" by (rule einv_fields [OF w_sys_einv, of 1 w_dom]) (simp_all add: w_sys_def)
  then show ?thesis using evtchn_destroy_releases [of _ 1 "w_dom\<lparr>is_dying := True\<rparr>"] by fastforce
qed

section \<open>Virtual and physical IRQs\<close>

lemma bind_virq_result:
  assumes "evtchn_bind_virq E cur (int virq) (int v) s = Some (Inr p, s1)" "doms s cur = Some D"
  obtains D' r where "get_free_port E D = (Inr p, D')" "vcpu D v = Some r" "v < max_vcpus D" "virq < NR_VIRQS" "virq_is_global virq \<longrightarrow> v = 0" "virq_to_evtchn r virq = 0"
    "s1 = put_dom cur (upd_vcpu v (\<lambda>v. v\<lparr>virq_to_evtchn := (virq_to_evtchn v)(virq := p)\<rparr>)
       (upd_chn p (\<lambda>e. e\<lparr>chn_state := ECS_VIRQ virq, notify_vcpu_id := v\<rparr>) D')) s"
  using assms by (auto simp: evtchn_bind_virq_def Let_def split: if_splits option.splits prod.splits sum.splits)

text \<open>
  Property C37. A virtual IRQ that has been bound to a port cannot be bound a second time, which fails with
  \<^verbatim>\<open>-EEXIST\<close> and changes nothing. When the IRQ is one of a virtual CPU, raising it afterwards makes
  exactly the port that the binding returned pending.
\<close>

theorem bound_virq_raises_its_port:
  assumes "einv s" "doms s cur = Some D" "evtchn_bind_virq E cur (int virq) (int v) s = Some (Inr p, s1)"
  shows "evtchn_bind_virq E' cur (int virq) (int v) s1 = Some (Inl (- EEXIST), s1) \<and> p \<noteq> 0
    \<and> (\<not> virq_is_global virq \<longrightarrow> (\<exists>s2. send_guest_vcpu_virq cur v virq s1 = Some s2
         \<and> in_dom s2 cur (\<lambda>D2. evtchn_pending D2 = (evtchn_pending D)(p := True))))"
proof -
  obtain D' r where g: "get_free_port E D = (Inr p, D')" "vcpu D v = Some r" "v < max_vcpus D" "virq < NR_VIRQS" "virq_is_global virq \<longrightarrow> v = 0"
    "virq_to_evtchn r virq = 0" and s1: "s1 = put_dom cur (upd_vcpu v (\<lambda>v. v\<lparr>virq_to_evtchn := (virq_to_evtchn v)(virq := p)\<rparr>)
       (upd_chn p (\<lambda>e. e\<lparr>chn_state := ECS_VIRQ virq, notify_vcpu_id := v\<rparr>) D')) s" (is "_ = put_dom cur ?D1 s")
    by (rule bind_virq_result [OF assms(3,2)])
  have G: "grown D D'" "chn D' p = Some free_chn" "p \<noteq> 0" using get_free_port_ok [OF einvD(1) [OF assms(1,2)] g(1)] by auto
  have v1: "vcpu ?D1 v = Some (r\<lparr>virq_to_evtchn := (virq_to_evtchn r)(virq := p)\<rparr>)" "max_vcpus ?D1 = max_vcpus D"
    "evtchn_pending ?D1 = evtchn_pending D" "chn ?D1 p \<noteq> None" using g(2) G(2) grown_fields [OF G(1)] by simp_all
  have d1: "doms s1 cur = Some ?D1" unfolding s1 by simp
  obtain rr ss where "evtchn_bind_virq E cur (int virq) (int v) s = Some (rr, ss)" "einv ss" using evtchn_bind_virq_ok [OF assms(1,2)] by blast
  then have i1: "einv s1" using assms(3) by simp
  have "evtchn_bind_virq E' cur (int virq) (int v) s1 = Some (Inl (- EEXIST), s1)"
    using d1 v1(1,2) g(3-5) G(3) by (auto simp: evtchn_bind_virq_def)
  moreover have "\<exists>s2. send_guest_vcpu_virq cur v virq s1 = Some s2 \<and> in_dom s2 cur (\<lambda>D2. evtchn_pending D2 = (evtchn_pending D)(p := True))"
    if "\<not> virq_is_global virq"
  proof -
    obtain D2 where "evtchn_set_pending cur v p s1 = Some (put_dom cur D2 s1)" "evtchn_pending D2 = (evtchn_pending ?D1)(p := True)"
      using evtchn_set_pending_ok [OF i1 d1 v1(4), of v] v1(1) by auto
    then show ?thesis using that d1 v1(1,3) g(4) G(3) by (auto simp: send_guest_vcpu_virq_def in_dom_def)
  qed
  ultimately show ?thesis using G(3) by blast
qed

lemma w_bind_virq: "evtchn_bind_virq w_env 0 (int 0) (int 0) w_sys = Some (Inr 1, snd (the (evtchn_bind_virq w_env 0 (int 0) (int 0) w_sys)))"
proof -
  have "doms w_sys 0 = Some w_dom" "vcpu w_dom 0 = Some w_vcpu" "max_vcpus w_dom = 1" "virq_to_evtchn w_vcpu 0 = 0"
    by (simp_all add: w_sys_def w_dom_def w_vcpus_def w_blank_def w_vcpu_def)
  then show ?thesis using w_free by (simp add: evtchn_bind_virq_def NR_VIRQS_def virq_is_global_def Let_def)
qed

theorem bound_virq_raises_its_port_witness:
  "\<exists>s1 s2. evtchn_bind_virq w_env 0 (int 0) (int 0) w_sys = Some (Inr 1, s1) \<and> evtchn_bind_virq w_env 0 (int 0) (int 0) s1 = Some (Inl (- EEXIST), s1)
    \<and> send_guest_vcpu_virq 0 0 0 s1 = Some s2 \<and> in_dom s2 0 (\<lambda>D2. evtchn_pending D2 1)"
proof -
  have d: "doms w_sys 0 = Some w_dom" by (simp add: w_sys_def)
  have n: "\<not> virq_is_global 0" by (simp add: virq_is_global_def)
  let ?s1 = "snd (the (evtchn_bind_virq w_env 0 (int 0) (int 0) w_sys))"
  obtain s2 where s2: "evtchn_bind_virq w_env 0 (int 0) (int 0) ?s1 = Some (Inl (- EEXIST), ?s1)" "send_guest_vcpu_virq 0 0 0 ?s1 = Some s2"
    "in_dom s2 0 (\<lambda>D2. evtchn_pending D2 = (evtchn_pending w_dom)(1 := True))"
    using bound_virq_raises_its_port [OF w_sys_einv d w_bind_virq, of w_env] n by blast
  have "in_dom s2 0 (\<lambda>D2. evtchn_pending D2 1)" using s2(3) by (auto simp: in_dom_def split: option.splits)
  then show ?thesis using w_bind_virq s2(1,2) by blast
qed

lemma walk_pirqs_seg:
  "seg (pirq_links D) prev cur ps l 0 \<Longrightarrow> walk_pirqs D cur = Some (map (\<lambda>p. fst (the (pirq_port D p))) ps)"
proof (induction ps arbitrary: prev cur)
  case Nil
  then show ?case by (simp add: walk_pirqs.simps)
next
  case (Cons p ps)
  then obtain nx where c: "cur = p" "p \<noteq> 0" "pirq_links D p = Some (nx, prev)" "seg (pirq_links D) p nx ps l 0" by auto
  then obtain e irq where e: "chn D p = Some e" "chn_state e = ECS_PIRQ irq nx prev"
    by (auto simp: pirq_links_def plinks_of_def bind_case split: option.splits ecs.splits)
  then have "pirq_port D p = Some (irq, notify_vcpu_id e)" by (simp add: pirq_port_def pirq_of_def)
  then show ?case using c e Cons.IH [OF c(4)] by (subst walk_pirqs.simps) (simp add: evtchn_from_port_def)
qed

text \<open>
  Property C38. When a virtual CPU moves, the walk over its list of physical-IRQ channels comes to an end
  and sets the affinity of exactly the interrupts bound to that virtual CPU, each of them once.
\<close>

theorem evtchn_move_pirqs_complete:
  assumes "einv s" "doms s d = Some D" "vcpu D v \<noteq> None"
  shows "\<exists>irqs. evtchn_move_pirqs d v s = Some irqs \<and> distinct irqs
    \<and> (\<forall>irq. irq \<in> set irqs \<longleftrightarrow> (\<exists>p e nx pv. chn D p = Some e \<and> chn_state e = ECS_PIRQ irq nx pv \<and> notify_vcpu_id e = v))"
proof -
  note P = dom_okD(5) [OF einvD(1) [OF assms(1,2)]]
  obtain ps where ps: "pirq_list D v ps" using P assms(3) unfolding pirqs_ok_def by blast
  then obtain r l where r: "vcpu D v = Some r" "distinct ps" "seg (pirq_links D) 0 (pirq_evtchn_head r) ps l 0"
    and m: "\<And>p. p \<in> set ps \<longleftrightarrow> (\<exists>irq. pirq_port D p = Some (irq, v))" unfolding pirq_list_def linked_def by blast
  let ?f = "\<lambda>p. fst (the (pirq_port D p))"
  have "evtchn_move_pirqs d v s = Some (map ?f ps)" using walk_pirqs_seg [OF r(3)] r(1) assms(2) by (simp add: evtchn_move_pirqs_def)
  moreover have "pirq_evtchn D (?f p) = Some p" if "p \<in> set ps" for p
  proof -
    obtain irq where irq: "pirq_port D p = Some (irq, v)" using m [of p] \<open>p \<in> set ps\<close> by blast
    then have "pirq_evtchn D irq = Some p" using P unfolding pirqs_ok_def by blast
    then show ?thesis using irq by simp
  qed
  then have "distinct (map ?f ps)" using r(2) by (metis (no_types, lifting) distinct_map inj_onI option.inject)
  moreover have "irq \<in> set (map ?f ps) \<longleftrightarrow> (\<exists>p. pirq_port D p = Some (irq, v))" for irq
  proof
    assume "irq \<in> set (map ?f ps)"
    then obtain p where "p \<in> set ps" "irq = ?f p" by auto
    then show "\<exists>p. pirq_port D p = Some (irq, v)" using m [of p] by auto
  next
    assume "\<exists>p. pirq_port D p = Some (irq, v)"
    then obtain p where p: "pirq_port D p = Some (irq, v)" by blast
    then have "p \<in> set ps" using m [of p] by blast
    then show "irq \<in> set (map ?f ps)" using p by (metis (mono_tags, lifting) fst_conv image_eqI option.sel set_map)
  qed
  moreover have "pirq_port D p = Some (irq, v) \<longleftrightarrow> (\<exists>e nx pv. chn D p = Some e \<and> chn_state e = ECS_PIRQ irq nx pv \<and> notify_vcpu_id e = v)" for p irq
    by (auto simp: pirq_port_def pirq_of_def bind_case split: option.splits ecs.splits)
  ultimately show ?thesis by (intro exI [of _ "map ?f ps"]) blast
qed

definition w_pirq :: esys where
  "w_pirq = snd (the (evtchn_bind_pirq w_env 0 3 w_sys))"

lemma w_pirq_bound:
  "evtchn_bind_pirq w_env 0 3 w_sys = Some (Inr 1, w_pirq)"
  "\<exists>D e. doms w_pirq 0 = Some D \<and> vcpu D 0 \<noteq> None \<and> chn D 1 = Some e \<and> chn_state e = ECS_PIRQ 3 0 0 \<and> notify_vcpu_id e = 0"
  using w_free
  by (simp_all add: w_pirq_def evtchn_bind_pirq_def w_sys_def w_eval pirq_to_evtchn_def link_pirq_port_def set_prev_port_def set_next_port_def upd_chn_def upd_vcpu_def)

lemma w_pirq_einv: "einv w_pirq"
proof -
  have "doms w_sys 0 = Some w_dom" by (simp add: w_sys_def)
  then show ?thesis using evtchn_bind_pirq_ok [OF w_sys_einv, of 0 w_dom w_env 3] w_pirq_bound(1) by auto
qed

theorem evtchn_move_pirqs_complete_witness: "\<exists>irqs. evtchn_move_pirqs 0 0 w_pirq = Some irqs \<and> distinct irqs \<and> 3 \<in> set irqs"
proof -
  obtain D e where D: "doms w_pirq 0 = Some D" "vcpu D 0 \<noteq> None" "chn D 1 = Some e" "chn_state e = ECS_PIRQ 3 0 0" "notify_vcpu_id e = 0"
    using w_pirq_bound(2) by blast
  then show ?thesis using evtchn_move_pirqs_complete [OF w_pirq_einv D(1,2)] by blast
qed

section \<open>Results of the hypercall\<close>

lemma get_free_port_neg: "get_free_port E D = (Inl rc, D') \<Longrightarrow> rc < 0"
  by (auto simp: get_free_port_def split: if_splits scan.splits)

lemma err_alloc_unbound: "evtchn_alloc_unbound E cur domid remote s = Some (Inl rc, s') \<Longrightarrow> xsm E \<le> 0 \<Longrightarrow> rc < 0"
  by (auto simp: evtchn_alloc_unbound_def Let_def dest: get_free_port_neg split: Option.bind_split_asm option.split_asm prod.split_asm sum.split_asm if_split_asm)

lemma err_bind_interdomain: "evtchn_bind_interdomain E cur rdom rport s = Some (Inl rc, s') \<Longrightarrow> xsm E \<le> 0 \<Longrightarrow> rc < 0"
  by (auto simp: evtchn_bind_interdomain_def bind_remote_def Let_def dest: get_free_port_neg split: Option.bind_split_asm prod.split_asm sum.split_asm if_split_asm)

lemma err_bind_virq: "evtchn_bind_virq E cur virq vid s = Some (Inl rc, s') \<Longrightarrow> rc < 0"
  by (auto simp: evtchn_bind_virq_def Let_def dest: get_free_port_neg split: Option.bind_split_asm option.split_asm prod.split_asm sum.split_asm if_split_asm)

lemma err_bind_ipi: "evtchn_bind_ipi E cur vid s = Some (Inl rc, s') \<Longrightarrow> rc < 0"
  by (auto simp: evtchn_bind_ipi_def dest: get_free_port_neg split: Option.bind_split_asm prod.split_asm sum.split_asm if_split_asm)

lemma err_bind_pirq: "evtchn_bind_pirq E cur pirq s = Some (Inl rc, s') \<Longrightarrow> pirq_guest_bind E \<le> 0 \<Longrightarrow> rc < 0"
  by (auto simp: evtchn_bind_pirq_def Let_def dest: get_free_port_neg split: Option.bind_split_asm prod.split_asm sum.split_asm if_split_asm)

lemma err_close: "evtchn_close cur port s = Some (rc, s') \<Longrightarrow> rc \<le> 0"
  by (auto simp: evtchn_close_def do_evtchn_close_def close_switch_def Let_def split: Option.bind_split_asm ecs.split_asm if_split_asm)

lemma err_send: "evtchn_send ntf E ld lport s = Some (rc, s') \<Longrightarrow> xsm E \<le> 0 \<Longrightarrow> rc \<le> 0"
  by (auto simp: evtchn_send_def split: Option.bind_split_asm ecs.split_asm if_split_asm)

lemma err_status: "evtchn_status E cur domid port s = Some (Inl rc) \<Longrightarrow> xsm E \<le> 0 \<Longrightarrow> rc < 0"
  by (auto simp: evtchn_status_def split: Option.bind_split_asm option.split_asm if_split_asm)

lemma err_bind_vcpu: "evtchn_bind_vcpu cur port vid s = Some (rc, s') \<Longrightarrow> rc \<le> 0"
  by (auto simp: evtchn_bind_vcpu_def Let_def split: Option.bind_split_asm ecs.split_asm if_split_asm)

lemma err_unmask: "evtchn_unmask cur port s = Some (rc, s') \<Longrightarrow> rc \<le> 0"
  by (auto simp: evtchn_unmask_def split: Option.bind_split_asm if_split_asm)

lemma err_reset: "evtchn_reset E cur domid s = Some (rc, s') \<Longrightarrow> xsm E \<le> 0 \<Longrightarrow> rc \<le> 0"
  by (auto simp: evtchn_reset_def split: Option.bind_split_asm option.split_asm if_split_asm)

fun reply_matches :: "evtchnop \<Rightarrow> reply \<Rightarrow> bool" where
  "reply_matches (EVTCHNOP_alloc_unbound _ _) rep \<longleftrightarrow> (\<exists>p. rep = Port_reply p)"
| "reply_matches (EVTCHNOP_bind_interdomain _ _) rep \<longleftrightarrow> (\<exists>p. rep = Port_reply p)"
| "reply_matches (EVTCHNOP_bind_virq _ _) rep \<longleftrightarrow> (\<exists>p. rep = Port_reply p)"
| "reply_matches (EVTCHNOP_bind_ipi _) rep \<longleftrightarrow> (\<exists>p. rep = Port_reply p)"
| "reply_matches (EVTCHNOP_bind_pirq _) rep \<longleftrightarrow> (\<exists>p. rep = Port_reply p)"
| "reply_matches (EVTCHNOP_status _ _) rep \<longleftrightarrow> (\<exists>st v. rep = Status_reply st v)"
| "reply_matches (EVTCHNOP_init_control _) rep \<longleftrightarrow> (\<exists>c. rep = Control_reply c)"
| "reply_matches _ rep \<longleftrightarrow> rep = No_reply"

lemma port_result_type:
  assumes "map_option (port_result E) x = Some (rc, rep, s')" "\<And>e s. x = Some (Inl e, s) \<Longrightarrow> e < 0"
  shows "rc \<le> 0 \<and> (rc < 0 \<longrightarrow> rep = No_reply) \<and> (rc = 0 \<longrightarrow> (\<exists>p. rep = Port_reply p))"
proof -
  obtain r s where "x = Some (r, s)" "port_result E (r, s) = (rc, rep, s')" using assms(1) by auto
  then show ?thesis using assms(2) by (cases r) (auto split: if_splits)
qed

lemma status_result_type:
  assumes "map_option (\<lambda>r. case status_result E r of (rc, rep) \<Rightarrow> (rc, rep, s)) x = Some (rc, rep, s')" "\<And>e. x = Some (Inl e) \<Longrightarrow> e < 0"
  shows "rc \<le> 0 \<and> (rc < 0 \<longrightarrow> rep = No_reply) \<and> (rc = 0 \<longrightarrow> (\<exists>st v. rep = Status_reply st v))"
proof -
  obtain r where "x = Some r" "status_result E r = (rc, rep)" using assms(1) by (cases x) (auto split: prod.split_asm)
  then show ?thesis using assms(2) by (cases "(E, r)" rule: status_result.cases) (auto split: if_splits)
qed

lemma plain_result_type:
  assumes "map_option (\<lambda>(rc, s). (rc, No_reply, s)) x = Some (rc, rep, s')" "\<And>e s. x = Some (e, s) \<Longrightarrow> e \<le> (0 :: int)"
  shows "rc \<le> 0 \<and> rep = No_reply"
  using assms by auto

lemma control_result_type:
  assumes "map_option (control_result E) x = Some (rc, rep, s')" "\<And>e c s. x = Some (e, c, s) \<Longrightarrow> e \<le> 0"
  shows "rc \<le> 0 \<and> (rc < 0 \<longrightarrow> rep = No_reply) \<and> (rc = 0 \<longrightarrow> (\<exists>c. rep = Control_reply c))"
proof -
  obtain e c s where "x = Some (e, c, s)" "control_result E (e, c, s) = (rc, rep, s')" using assms(1) by auto
  then show ?thesis using assms(2) by (auto split: if_splits)
qed

text \<open>The operations of the FIFO ABI report errors as negative numbers.\<close>

definition fifo_errors :: "fifo_ops \<Rightarrow> bool" where
  "fifo_errors fifo \<longleftrightarrow>
     (\<forall>E cur c s rc c' s'. evtchn_fifo_init_control fifo E cur c s = Some (rc, c', s') \<longrightarrow> rc \<le> 0)
     \<and> (\<forall>E cur gfn s rc s'. evtchn_fifo_expand_array fifo E cur gfn s = Some (rc, s') \<longrightarrow> rc \<le> 0)"

lemma bind_command_type:
  assumes run: "run_evtchnop ntf fifo E cur cmd s = Some (rc, rep, s')" and e: "xsm E \<le> 0" "pirq_guest_bind E \<le> 0"
    and bind: "reply_matches cmd (Port_reply p)"
  shows "rc \<le> 0 \<and> (rc < 0 \<longrightarrow> rep = No_reply) \<and> (rc = 0 \<longrightarrow> reply_matches cmd rep)"
proof (cases cmd)
  case (EVTCHNOP_alloc_unbound domid remote)
  then show ?thesis using port_result_type [OF run [unfolded EVTCHNOP_alloc_unbound run_evtchnop.simps]] err_alloc_unbound [OF _ e(1)] by simp
next
  case (EVTCHNOP_bind_interdomain rdom rport)
  then show ?thesis using port_result_type [OF run [unfolded EVTCHNOP_bind_interdomain run_evtchnop.simps]] err_bind_interdomain [OF _ e(1)] by simp
next
  case (EVTCHNOP_bind_virq virq vid)
  then show ?thesis using port_result_type [OF run [unfolded EVTCHNOP_bind_virq run_evtchnop.simps]] err_bind_virq by simp
next
  case (EVTCHNOP_bind_ipi vid)
  then show ?thesis using port_result_type [OF run [unfolded EVTCHNOP_bind_ipi run_evtchnop.simps]] err_bind_ipi by simp
next
  case (EVTCHNOP_bind_pirq pirq)
  then show ?thesis using port_result_type [OF run [unfolded EVTCHNOP_bind_pirq run_evtchnop.simps]] err_bind_pirq [OF _ e(2)] by simp
qed (use bind in simp_all)

lemma other_command_type:
  assumes run: "run_evtchnop ntf fifo E cur cmd s = Some (rc, rep, s')" and e: "xsm E \<le> 0" "fifo_errors fifo"
    and other: "\<not> reply_matches cmd (Port_reply 0)"
  shows "rc \<le> 0 \<and> (rc < 0 \<longrightarrow> rep = No_reply) \<and> (rc = 0 \<longrightarrow> reply_matches cmd rep)"
proof (cases cmd)
  case (EVTCHNOP_close port)
  then show ?thesis using plain_result_type [OF run [unfolded EVTCHNOP_close run_evtchnop.simps]] err_close by simp
next
  case (EVTCHNOP_send port)
  then show ?thesis using plain_result_type [OF run [unfolded EVTCHNOP_send run_evtchnop.simps]] err_send [OF _ e(1)] by simp
next
  case (EVTCHNOP_bind_vcpu port vid)
  then show ?thesis using plain_result_type [OF run [unfolded EVTCHNOP_bind_vcpu run_evtchnop.simps]] err_bind_vcpu by simp
next
  case (EVTCHNOP_unmask port)
  then show ?thesis using plain_result_type [OF run [unfolded EVTCHNOP_unmask run_evtchnop.simps]] err_unmask by simp
next
  case (EVTCHNOP_reset domid)
  then show ?thesis using plain_result_type [OF run [unfolded EVTCHNOP_reset run_evtchnop.simps]] err_reset [OF _ e(1)] by simp
next
  case (EVTCHNOP_status domid port)
  then show ?thesis using status_result_type [OF run [unfolded EVTCHNOP_status run_evtchnop.simps]] err_status [OF _ e(1)] by simp
next
  case (EVTCHNOP_init_control c)
  have "\<And>e c' s1. evtchn_fifo_init_control fifo E cur c s = Some (e, c', s1) \<Longrightarrow> e \<le> 0" using e(2) unfolding fifo_errors_def by blast
  then show ?thesis using control_result_type [OF run [unfolded EVTCHNOP_init_control run_evtchnop.simps]] EVTCHNOP_init_control by simp
next
  case (EVTCHNOP_expand_array gfn)
  have "\<And>e s1. evtchn_fifo_expand_array fifo E cur gfn s = Some (e, s1) \<Longrightarrow> e \<le> 0" using e(2) unfolding fifo_errors_def by blast
  then show ?thesis using plain_result_type [OF run [unfolded EVTCHNOP_expand_array run_evtchnop.simps]] EVTCHNOP_expand_array by simp
next
  case (EVTCHNOP_set_priority port priority)
  then show ?thesis using run by (auto simp: evtchn_set_priority_def evtchn_port_set_priority_def)
qed (use run other in auto)

text \<open>
  Property C39. Given that the security module, the IRQ code and the operations of the FIFO ABI answer with
  0 or a negative error number, the hypercall's result is 0 or a negative error number, for every
  command. On an error nothing is written back to the guest; on success the commands that create a
  channel write back a port, the status command a status, the command that sets up a FIFO control block
  that block, and the others nothing.
\<close>

theorem hypercall_result_type:
  assumes "do_event_channel_op ntf fifo E cur cmd s = Some (rc, rep, s')"
    and "xsm E \<le> 0" "pirq_guest_bind E \<le> 0" "fifo_errors fifo"
  shows "rc \<le> 0 \<and> (rc < 0 \<longrightarrow> rep = No_reply) \<and> (rc = 0 \<longrightarrow> reply_matches cmd rep)"
proof (cases "copy_from_ok E \<or> (\<exists>c. cmd = EVTCHNOP_other c)")
  case False
  then show ?thesis using assms(1) by (cases cmd) (auto simp: do_event_channel_op_def)
next
  case True
  then have run: "run_evtchnop ntf fifo E cur cmd s = Some (rc, rep, s')" using assms(1) by (cases cmd) (auto simp: do_event_channel_op_def)
  show ?thesis
  proof (cases "reply_matches cmd (Port_reply 0)")
    case True
    then show ?thesis by (rule bind_command_type [OF run assms(2,3)])
  next
    case False
    then show ?thesis by (rule other_command_type [OF run assms(2,4)])
  qed
qed

theorem hypercall_result_type_witness:
  "\<exists>rc rep s'. do_event_channel_op w_ntf w_fifo w_env 0 (EVTCHNOP_bind_ipi 0) w_sys = Some (rc, rep, s')
    \<and> rc \<le> 0 \<and> (rc = 0 \<longrightarrow> reply_matches (EVTCHNOP_bind_ipi 0) rep)"
proof -
  have d: "doms w_sys 0 = Some w_dom" by (simp add: w_sys_def)
  obtain rc rep s' where h: "do_event_channel_op w_ntf w_fifo w_env 0 (EVTCHNOP_bind_ipi 0) w_sys = Some (rc, rep, s')"
    using hypercall_ok [OF w_sys_einv d w_ntf_ok, of "EVTCHNOP_bind_ipi 0" w_fifo w_env] by auto
  have e: "xsm w_env \<le> 0" "pirq_guest_bind w_env \<le> 0" "fifo_errors w_fifo" by (simp_all add: w_env_def fifo_errors_def w_fifo_def)
  show ?thesis using hypercall_result_type [OF h e] h by simp
qed

section \<open>Ports of a domain switched to the 32-bit interface\<close>

text \<open>
  The number of ports is fixed when the domain is created, as a 64-bit one; the switch to the 32-bit
  interface shrinks the bitmaps but not the number of ports. Once the 1024 ports of the 32-bit
  bitmaps are in use, the next port handed out has its pending bit among the mask bits.
\<close>

lemma compat_next_port:
  assumes D: "\<not> is_dying D" "max_evtchns D = 64 * 64" "1024 \<le> max_evtchn_port D" "alloc_ok E"
    and used: "\<And>q. q < 1024 \<Longrightarrow> \<exists>e. chn D q = Some e \<and> chn_state e \<noteq> ECS_FREE" and "end": "chn D 1024 = None"
  shows "get_free_port E D = (Inr 1024, alloc_evtchn_bucket 1024 D)"
proof -
  have u: "\<not> is_free D q" "port_is_valid D q" if "q < 1024" for q
    using used [OF that] that D(2) by (auto simp: is_free_def port_is_valid_def)
  have nv: "\<not> port_is_valid D 1024" using "end" by (simp add: port_is_valid_def)
  note c = free_port_scan_cases [of 0 D]
  have "free_port_scan D 0 = Scan_end 1024"
  proof (cases "free_port_scan D 0")
    case Scan_full
    then show ?thesis using c D(3) nv by simp
  next
    case (Scan_found p)
    then have p: "is_free D p" "port_is_valid D p" "\<And>q. q < p \<Longrightarrow> port_is_valid D q" using c by auto
    then have "p < 1024" using nv by (metis linorder_neqE_nat)
    then show ?thesis using p(1) u(1) by blast
  next
    case (Scan_end p)
    then have p: "\<not> port_is_valid D p" "\<And>q. q < p \<Longrightarrow> port_is_valid D q" using c by auto
    then have "p = 1024" using nv u(2) by (metis linorder_neqE_nat)
    then show ?thesis using Scan_end by simp
  qed
  then show ?thesis using D by (simp add: get_free_port_def)
qed

text \<open>
  Property C40. A domain created as a 64-bit one and switched to the 32-bit interface outgrows its bitmaps:
  with the 1024 ports they have bits for in use, port 1024 is handed out. Its pending bit is the mask bit
  of port 0: an event on it masks that port, and unmasking that port takes the event away.
\<close>

theorem compat_port_aliases_mask:
  assumes "\<not> is_dying D" "bits_per_evtchn_word D = 32" "max_evtchns D = 64 * 64" "1024 \<le> max_evtchn_port D" "alloc_ok E"
    and "\<And>q. q < 1024 \<Longrightarrow> \<exists>e. chn D q = Some e \<and> chn_state e \<noteq> ECS_FREE" "chn D 1024 = None"
    and "vcpu D v \<noteq> None" "polls_ok D"
  shows "\<exists>D1 D2 D3. get_free_port E D = (Inr 1024, D1) \<and> port_is_valid D1 1024
    \<and> evtchn_2l_set_pending v 1024 D1 = Some D2 \<and> evtchn_pending D2 1024 \<and> evtchn_mask D2 = (evtchn_mask D)(0 := True)
    \<and> evtchn_2l_unmask v 0 D2 = Some D3 \<and> \<not> evtchn_pending D3 1024"
proof -
  let ?D1 = "alloc_evtchn_bucket 1024 D"
  note g = compat_next_port [OF assms(1,3,4,5,6,7)]
  have f: "vcpu ?D1 v \<noteq> None" "polls_ok ?D1" "evtchn_pending ?D1 = evtchn_pending D" "bits_per_evtchn_word ?D1 = 32" "port_is_valid ?D1 1024"
    using assms(2,3,8,9) by (simp_all add: alloc_evtchn_bucket_def polls_ok_def port_is_valid_def)
  obtain D2 where D2: "evtchn_2l_set_pending v 1024 ?D1 = Some D2" "same_shape ?D1 D2" "polls_ok D2"
    "evtchn_pending D2 = (evtchn_pending D)(1024 := True)"
    using set_pending_correct [OF f(1,2), of 1024] f(3) by auto
  have b: "bits_per_evtchn_word D2 = 32" using D2(2) f(4) by (simp add: same_shape_def)
  have mask: "evtchn_mask D2 = (evtchn_mask D)(0 := True)"
    using assms(2) by (auto simp: fun_eq_iff evtchn_mask_def mask_bit_def b D2(4))
  have "vcpu D2 v \<noteq> None" using same_shape_vcpu [OF D2(2), of v] f(1) by simp
  from unmask_correct [OF this D2(3), of 0] obtain D3 where "evtchn_2l_unmask v 0 D2 = Some D3"
    "evtchn_pending D3 = (evtchn_pending D2)(mask_bit D2 0 := False)" by blast
  moreover have "mask_bit D2 0 = 1024" by (simp add: mask_bit_def b)
  ultimately show ?thesis using g f(5) D2(1,4) mask by auto
qed

definition w_compat :: edomain where
  "w_compat = w_dom\<lparr>bits_per_evtchn_word := 32,
     chn := (\<lambda>p. if p < 1024 then Some \<lparr>chn_state = ECS_IPI, xen_consumer = 0, notify_vcpu_id = 0\<rparr> else None)\<rparr>"

theorem compat_port_aliases_mask_witness:
  "\<exists>D1 D2. get_free_port w_env w_compat = (Inr 1024, D1) \<and> evtchn_2l_set_pending 0 1024 D1 = Some D2
    \<and> \<not> evtchn_mask w_compat 0 \<and> evtchn_mask D2 0"
proof -
  have "\<not> is_dying w_compat" "bits_per_evtchn_word w_compat = 32" "max_evtchns w_compat = 64 * 64" "1024 \<le> max_evtchn_port w_compat"
    "alloc_ok w_env" "\<And>q. q < 1024 \<Longrightarrow> \<exists>e. chn w_compat q = Some e \<and> chn_state e \<noteq> ECS_FREE" "chn w_compat 1024 = None"
    "vcpu w_compat 0 \<noteq> None" "polls_ok w_compat"
    by (simp_all add: w_compat_def w_dom_def w_blank_def w_vcpus_def w_env_def polls_ok_def INT_MAX_def)
  from compat_port_aliases_mask [OF this] have "\<exists>D1 D2. get_free_port w_env w_compat = (Inr 1024, D1)
    \<and> evtchn_2l_set_pending 0 1024 D1 = Some D2 \<and> evtchn_mask D2 0" by auto
  moreover have "\<not> evtchn_mask w_compat 0" by (simp add: evtchn_mask_def w_compat_def w_dom_def w_blank_def)
  ultimately show ?thesis by blast
qed

end
