(* ===== verification/Spec2Isabelle.thy ===== *)
theory Spec2Isabelle
  imports Rangeset Aet_Shadow Aet_Tool Timer_System Evtchn_Props
begin

text \<open>
  A verification library for the Xen hypervisor (version 4.5) with support for average eviction
  times (AET): the hypervisor samples the memory accesses of guests by marking shadow page-table
  entries, keeps a histogram of reuse distances, and a control tool turns it into a miss-ratio
  curve. The library covers that extension and three subsystems of the hypervisor around it: the
  range sets behind I/O permissions, the timers and the event channels.

  \<^bold>\<open>Conventions.\<close> A C structure is a record, an enumeration or tagged union a datatype. Integers
  whose width matters are words; the others are \<open>nat\<close> or \<open>int\<close>. A pointer is a number
  (a position, a frame, a port, a domain). \<open>None\<close> as the result of an operation is a crash or a
  hang: a null pointer, a \<^verbatim>\<open>BUG\<close>, a failed assertion, an access past an array, a loop that does not
  end. Error numbers are integers of \<open>Prelude\<close>. What comes from code that is not modelled
  is an argument: whether an allocation succeeds, what a security module answers, what an expiry
  function or a notification function does. An operation that runs under a lock is one step.

  \<^bold>\<open>Theories and sources.\<close>

  \<^item> \<open>Prelude\<close>: words, error numbers, list primitives, shared lemmas.

  \<^item> \<open>Rangeset\<close>: \<^verbatim>\<open>common/rangeset.c\<close> and the macros of \<^verbatim>\<open>include/xen/iocap.h\<close>. A set is its
  ordered list of disjoint, non-adjacent ranges. Adding adds exactly the numbers of the range, the
  queries decide inclusion and intersection, limits hold over every sequence of operations,
  permissions grant what they should; the exact result of a removal shows two defects of the span
  branch. The locale \<open>capability_set\<close> is the contract the permission macros rely on.

  \<^item> \<open>Aet_Index\<close>, \<open>Aet\<close>: \<^verbatim>\<open>arch/x86/aet.c\<close> with the structure shared with user space
  (\<^verbatim>\<open>include/public/aet.h\<close>). The state has the tables, the ring of hot entries, the pending set
  and the command interface. The compressed index of the histogram is proved equal to a reference
  definition on exactly the inputs on which its loop ends. The step relation \<open>aet_step\<close> has every
  entry point, where it returns; every reachable state satisfies the invariant, which keeps the log, the
  ring and the pending set inside their arrays. Two entry points do not check their arguments: a command
  returns exactly when it is inside its tables of names, a tracked fault when its domain is 1 or 2 and
  its distance in the range of the index. There a tracked fault refines an update of a finite map and
  a histogram. The ring refines a bounded queue.

  \<^item> \<open>Aet_Shadow\<close>: the hooks in \<^verbatim>\<open>arch/x86/mm/shadow/multi.c\<close>, the magic entries of
  \<^verbatim>\<open>types.h\<close>, the VM-exit hook in \<^verbatim>\<open>arch/x86/hvm/vmx/vmx.c\<close>: round trips of the encodings, the
  accounting of a marked fault, and the places where marks are lost or mistaken. The locale
  \<open>page_store\<close> is the interface to shadow pages.

  \<^item> \<open>Aet_Pmu\<close>: \<^verbatim>\<open>arch/x86/xc_reserved_op.c\<close>, the performance counters, over the register file
  of the locale \<open>msr_file\<close>.

  \<^item> \<open>Aet_Tool\<close>: \<^verbatim>\<open>aet_tool/control/myxc.c\<close>: the reset of the shared structure and the curve,
  with doubles as exact rationals. Its bucket walk agrees with the index of the hypervisor.

  \<^item> \<open>Timer_Heap\<close>, \<open>Timer\<close>, \<open>Timer_System\<close>: \<^verbatim>\<open>common/timer.c\<close>. The heap and the overflow
  list are both instances of the locale \<open>deadline_queue\<close>; the operations refine an abstract map
  of timers; the step relation \<open>tstep\<close> has operations, softirqs with callbacks that perform timer
  operations, and CPU hotplug. Every reachable state satisfies the invariant, and there the operations
  called within their contract (\<open>op_ok\<close>) and the migration from a dead CPU return. The softirq
  handler, with callbacks that keep to the contract, ends, leaves no expired timer and programs the earliest
  deadline. A heap that grows is copied into an array of arbitrary contents.

  \<^item> \<open>Evtchn_Port\<close>, \<open>Evtchn\<close>: \<^verbatim>\<open>common/event_2l.c\<close> and \<^verbatim>\<open>common/event_channel.c\<close> with
  the parts of \<^verbatim>\<open>schedule.c\<close> and \<^verbatim>\<open>arch/x86/domain.c\<close> they call to wake virtual CPUs: every operation
  of the two-level ABI, the hypercall that dispatches to them and the channels Xen itself uses. The
  locale \<open>event_ports\<close> is the contract of the table of port operations \<^verbatim>\<open>evtchn_port_ops\<close>. The pending
  and mask arrays of the shared page are one run of bits, as in memory: \<open>evtchn_mask\<close> starts where
  \<open>evtchn_pending\<close> ends, and a port beyond the arrays of a 32-bit domain has its pending bit in the mask.

  \<^item> \<open>Evtchn_Inv\<close>, \<open>Evtchn_System\<close>, \<open>Evtchn_Props\<close>: well-formed domains (buckets of ports, virtual IRQs
  bound in both directions, the doubly linked lists of physical-IRQ channels), the invariant of the
  system (channels between domains are paired, consumers exist), its preservation by every operation,
  the relation \<open>ereach\<close> of reachable states, and the properties: in a reachable state an entry point
  called within its contract (\<open>xop_pre\<close>, which leaves out the commands of the FIFO ABI) returns, events
  are delivered to the bound virtual CPU and to no other and are not lost while masked, as long as the
  port has a bit of its own, binding and closing are inverse, reset and destruction end and release
  everything, the hypercall's results have the type of the command.

  \<^bold>\<open>Bounds and fuel.\<close> No definition has a fuel argument. Loops that end on every input are
  functions with a termination proof; the others (the index loops, the walk of the tool, the
  migration of timers, the softirq loops, the closing of ports) are partial functions into
  \<open>option\<close>, and the theorems about them show that they return. The numeric bounds are those of
  the C declarations.

  \<^bold>\<open>Not modelled.\<close> The locks and the interleaving inside an operation; printing and key handlers;
  the pager around the hooks (guest walks, reference counts, emulation), since it works on hardware
  page tables; floating-point rounding in the tool; the FIFO event ABI \<^verbatim>\<open>event_fifo.c\<close>, whose
  two commands are parameters of the event-channel hypercall; what the hardware does with a write to a
  model-specific register; the wait of \<^verbatim>\<open>kill_timer\<close> for a callback on another CPU, since a callback
  ends within the step of its softirq; the emulated IRQs of HVM domains. The
  remaining subsystems of the repository (memory management, grant tables, schedulers, HVM and
  hardware drivers, boot code, the toolstack, the device models) are hardware access, imported
  third-party code or user-space programs that do not take part in the modelled behaviour.
\<close>

end
